(* ===== verification/Prelude.thy ===== *)
theory Prelude
  imports Main "HOL-Library.Word"
begin

section \<open>Prelude: what the components share\<close>

text \<open>
  The Go vocabulary of the development (fixed-width conversions, decimal strings, table
  reads that panic out of range), the collections the component theories extend, and
  generic lemmas on lists, words and reachable states.

  A Go \<^verbatim>\<open>string\<close> or \<^verbatim>\<open>[]byte\<close> is an Isabelle \<open>string\<close>: a list of 8-bit characters.
  Lengths and slice indices are \<open>nat\<close>; signed Go integers are \<open>int\<close> with the width written
  where a conversion can wrap; \<open>uint64\<close>, \<open>uint32\<close>, \<open>uint16\<close> are words.
\<close>

named_theorems wf_simps \<open>unfolding well-formedness predicates\<close>
named_theorems step_defs \<open>effects of state-changing operations\<close>

type_synonym u8 = "8 word"
type_synonym u16 = "16 word"
type_synonym u32 = "32 word"
type_synonym u64 = "64 word"

subsection \<open>Integer conversions\<close>

text \<open>\<open>int32(x)\<close> and \<open>int64(x)\<close>: the low bits, read as two's complement.\<close>

definition int32 :: "int \<Rightarrow> int" where
  "int32 x = signed_take_bit 31 x"

definition int64 :: "int \<Rightarrow> int" where
  "int64 x = signed_take_bit 63 x"

lemma int32_id: "- (2 ^ 31) \<le> x \<Longrightarrow> x < 2 ^ 31 \<Longrightarrow> int32 x = x"
  unfolding int32_def by (rule signed_take_bit_int_eq_self) simp_all

lemma int64_id: "- (2 ^ 63) \<le> x \<Longrightarrow> x < 2 ^ 63 \<Longrightarrow> int64 x = x"
  unfolding int64_def by (rule signed_take_bit_int_eq_self) simp_all

lemma unat_u64 [simp]: "unat (v :: u64) < 18446744073709551616"
  using unsigned_less [of v, where 'a = nat] by simp

subsection \<open>Go panics and table reads\<close>

text \<open>
  A run-time panic of the Go program (index out of range, a negative repeat count) is a
  value; \<open>index_go\<close> is \<open>xs[i]\<close> with a signed index.
\<close>

datatype panic = IndexOutOfRange | NegativeRepeatCount | InvalidArgument

definition index_go :: "'a list \<Rightarrow> int \<Rightarrow> panic + 'a" where
  "index_go xs i = (if 0 \<le> i \<and> i < int (length xs) then Inr (xs ! nat i) else Inl IndexOutOfRange)"

lemma index_go_in [simp]:
  "0 \<le> i \<Longrightarrow> i < int (length xs) \<Longrightarrow> index_go xs i = Inr (xs ! nat i)"
  by (simp add: index_go_def)

text \<open>\<^verbatim>\<open>strings.Repeat\<close> of one byte.\<close>

definition repeat_go :: "char \<Rightarrow> int \<Rightarrow> panic + string" where
  "repeat_go c n = (if n < 0 then Inl NegativeRepeatCount else Inr (replicate (nat n) c))"

subsection \<open>Fallible steps\<close>

text \<open>\<^verbatim>\<open>if err != nil { return err }\<close> between two steps; \<open>mapE\<close> wraps the error.\<close>

definition bindE :: "'e + 'a \<Rightarrow> ('a \<Rightarrow> 'e + 'b) \<Rightarrow> 'e + 'b" where
  "bindE x f = (case x of Inl e \<Rightarrow> Inl e | Inr v \<Rightarrow> f v)"

definition mapE :: "('e \<Rightarrow> 'f) \<Rightarrow> 'e + 'a \<Rightarrow> 'f + 'a" where
  "mapE h x = (case x of Inl e \<Rightarrow> Inl (h e) | Inr v \<Rightarrow> Inr v)"

lemma bindE_simps [simp]: "bindE (Inl e) f = Inl e" "bindE (Inr v) f = f v"
  "mapE h (Inl e) = Inl (h e)" "mapE h (Inr v) = Inr v"
  by (simp_all add: bindE_def mapE_def)

lemma bindE_Inr: "bindE x f = Inr y \<longleftrightarrow> (\<exists>v. x = Inr v \<and> f v = Inr y)"
  by (cases x) auto

lemma mapE_Inr [simp]: "mapE h x = Inr v \<longleftrightarrow> x = Inr v"
  by (cases x) auto

subsection \<open>Slices\<close>

text \<open>
  Where the code tells a nil slice from an empty one, a slice is \<open>None\<close> or its elements.
  \<open>appended\<close> is what appending to a nil slice gives.
\<close>

type_synonym 'a slice = "'a list option"

definition elems :: "'a slice \<Rightarrow> 'a list" where
  "elems xs = (case xs of None \<Rightarrow> [] | Some ys \<Rightarrow> ys)"

definition appended :: "'a list \<Rightarrow> 'a slice" where
  "appended xs = (if xs = [] then None else Some xs)"

lemma elems_simps [simp]: "elems None = []" "elems (Some xs) = xs" "elems (appended xs) = xs"
  by (simp_all add: elems_def appended_def)

subsection \<open>Decimal strings\<close>

definition digit_char :: "nat \<Rightarrow> char" where
  "digit_char d = char_of (48 + d)"

definition digit_val :: "char \<Rightarrow> nat" where
  "digit_val c = of_char c - 48"

definition is_digit :: "char \<Rightarrow> bool" where
  "is_digit c \<longleftrightarrow> 48 \<le> (of_char c :: nat) \<and> (of_char c :: nat) \<le> 57"

text \<open>\<^verbatim>\<open>strconv.FormatUint(n, 10)\<close>, and \<^verbatim>\<open>big.Int.String\<close> on a value that is not negative.\<close>

fun dec :: "nat \<Rightarrow> string" where
  "dec n = (if n < 10 then [digit_char n] else dec (n div 10) @ [digit_char (n mod 10)])"

declare dec.simps [simp del]

definition dec_val :: "string \<Rightarrow> nat" where
  "dec_val s = foldl (\<lambda>v c. v * 10 + digit_val c) 0 s"

lemma digit_char_digit [simp]: "d < 10 \<Longrightarrow> is_digit (digit_char d)"
  by (simp add: is_digit_def digit_char_def)

lemma digit_val_char [simp]: "d < 10 \<Longrightarrow> digit_val (digit_char d) = d"
  by (simp add: digit_val_def digit_char_def)

lemma digit_val_less: "is_digit c \<Longrightarrow> digit_val c < 10"
  unfolding is_digit_def digit_val_def by linarith

lemma dec_val_Nil [simp]: "dec_val [] = 0"
  by (simp add: dec_val_def)

lemma dec_val_snoc [simp]: "dec_val (s @ [c]) = dec_val s * 10 + digit_val c"
  by (simp add: dec_val_def)

lemma dec_val_append: "dec_val (s @ t) = dec_val s * 10 ^ length t + dec_val t"
proof (induction t rule: rev_induct)
  case Nil
  then show ?case by simp
next
  case (snoc c t)
  have "dec_val (s @ t @ [c]) = dec_val (s @ t) * 10 + digit_val c"
    by (metis append_assoc dec_val_snoc)
  with snoc show ?case by (simp add: algebra_simps)
qed

lemma dec_val_zeros [simp]: "dec_val (replicate n CHR ''0'') = 0"
proof (induction n)
  case (Suc n)
  have "dec_val (replicate n CHR ''0'' @ [CHR ''0'']) = 0"
    using Suc by (simp only: dec_val_snoc) (simp add: digit_val_def)
  then show ?case by (simp add: replicate_append_same)
qed simp

lemma dec_val_bound: "list_all is_digit s \<Longrightarrow> dec_val s < 10 ^ length s"
proof (induction s rule: rev_induct)
  case (snoc c s)
  then have "dec_val s < 10 ^ length s" and "digit_val c < 10"
    by (auto intro: digit_val_less)
  then have "dec_val s * 10 + digit_val c < 10 ^ length s * 10" by linarith
  then show ?case by simp
qed simp

lemma dec_val_dec [simp]: "dec_val (dec n) = n"
proof (induction n rule: dec.induct)
  case (1 n)
  show ?case
  proof (cases "n < 10")
    case True
    then show ?thesis using dec_val_snoc [of "[]" "digit_char n"]
      by (simp add: dec.simps [of n])
  next
    case False
    with 1 have "dec_val (dec (n div 10)) = n div 10" by simp
    with False show ?thesis by (simp add: dec.simps [of n])
  qed
qed

lemma dec_digits [simp]: "list_all is_digit (dec n)"
proof (induction n rule: dec.induct)
  case (1 n)
  then show ?case by (cases "n < 10") (simp_all add: dec.simps [of n])
qed

lemma dec_nonempty [simp]: "dec n \<noteq> []"
  by (subst dec.simps) simp

lemma dec_inj: "dec m = dec n \<longleftrightarrow> m = n"
  by (metis dec_val_dec)

lemma length_dec_le: "n < 10 ^ k \<Longrightarrow> 0 < k \<Longrightarrow> length (dec n) \<le> k"
proof (induction k arbitrary: n)
  case (Suc k)
  show ?case
  proof (cases "n < 10")
    case True
    then show ?thesis by (simp add: dec.simps [of n])
  next
    case False
    with Suc.prems have "n div 10 < 10 ^ k" by (simp add: less_mult_imp_div_less)
    moreover from this False have "0 < k" by (cases k) auto
    ultimately have "length (dec (n div 10)) \<le> k" by (rule Suc.IH)
    with False show ?thesis by (simp add: dec.simps [of n])
  qed
qed simp

text \<open>\<^verbatim>\<open>strconv.ParseUint(s, 10, bits)\<close>: digits only, and the value in range.\<close>

definition ParseUint :: "nat \<Rightarrow> string \<Rightarrow> nat option" where
  "ParseUint bits s = (if s \<noteq> [] \<and> list_all is_digit s \<and> dec_val s < 2 ^ bits then Some (dec_val s) else None)"

lemma ParseUint_dec [simp]: "ParseUint bits (dec n) = (if n < 2 ^ bits then Some n else None)"
  by (simp add: ParseUint_def)

subsection \<open>Cutting a string\<close>

text \<open>\<^verbatim>\<open>strings.Cut(s, sep)\<close> for a separator of one byte.\<close>

fun cut :: "char \<Rightarrow> string \<Rightarrow> string \<times> string \<times> bool" where
  "cut sep [] = ([], [], False)"
| "cut sep (c # s) =
     (if c = sep then ([], s, True)
      else (case cut sep s of (before, after, found) \<Rightarrow> (c # before, after, found)))"

lemma cut_absent: "sep \<notin> set s \<Longrightarrow> cut sep s = (s, [], False)"
  by (induction s) auto

lemma cut_found: "sep \<notin> set s \<Longrightarrow> cut sep (s @ sep # t) = (s, t, True)"
  by (induction s) auto

lemma cut_parts:
  "cut sep s = (b, a, f) \<Longrightarrow>
     (if f then s = b @ sep # a else s = b \<and> a = []) \<and> sep \<notin> set b"
  by (induction s arbitrary: b a f) (auto split: prod.splits if_splits)

lemma cut_length: "cut sep s = (b, a, f) \<Longrightarrow> length a \<le> length s"
  by (drule cut_parts) (auto split: if_splits)

subsection \<open>Counting\<close>

lemma count_list_distinct: "distinct xs \<Longrightarrow> count_list xs x = (if x \<in> set xs then 1 else 0)"
  by (induction xs) auto

subsection \<open>Positions in a concatenation\<close>

lemma concat_nth_block:
  "k < length xss \<Longrightarrow> i < length (xss ! k) \<Longrightarrow>
     concat xss ! (sum_list (map length (take k xss)) + i) = xss ! k ! i"
proof (induction xss arbitrary: k)
  case (Cons xs xss)
  then show ?case by (cases k) (auto simp: nth_append add.assoc)
qed simp

lemma length_concat_block:
  "k < length xss \<Longrightarrow> sum_list (map length (take k xss)) + length (xss ! k) \<le> length (concat xss)"
proof (induction xss arbitrary: k)
  case (Cons xs xss)
  then show ?case by (cases k) auto
qed simp

lemma upt_join: "i \<le> j \<Longrightarrow> j \<le> k \<Longrightarrow> [i..<j] @ [j..<k] = [i..<k]"
  using upt_add_eq_append [of i j "k - j"] by simp

lemma nth_update_in: "i < length xs \<Longrightarrow> xs[j := x] ! i = (if i = j then x else xs ! i)"
  by auto

subsection \<open>Reachable states\<close>

text \<open>
  The states a step relation reaches from an initial one, with the rules that lift a step
  invariant to all of them.
\<close>

inductive reachable :: "('s \<Rightarrow> 's \<Rightarrow> bool) \<Rightarrow> 's \<Rightarrow> 's \<Rightarrow> bool"
  for step :: "'s \<Rightarrow> 's \<Rightarrow> bool" and init :: 's
where
  start: "reachable step init init"
| next_state: "reachable step init s \<Longrightarrow> step s t \<Longrightarrow> reachable step init t"

lemma reachable_invariant:
  assumes "reachable step init s" and "P init"
    and "\<And>s t. P s \<Longrightarrow> step s t \<Longrightarrow> P t"
  shows "P s"
  using assms(1) by (induction rule: reachable.induct) (use assms(2,3) in blast)+

lemma reachable_invariant_with:
  assumes "reachable step init s" and "P init"
    and "\<And>s t. reachable step init s \<Longrightarrow> P s \<Longrightarrow> step s t \<Longrightarrow> P t"
  shows "P s"
  using assms(1) by (induction rule: reachable.induct) (use assms(2,3) in blast)+

end
