(* ===== verification/Config.thy ===== *)
theory Config
  imports Prelude
begin

section \<open>Configuration: \<^verbatim>\<open>internal/config/config.go\<close>\<close>

text \<open>
  The configuration data the pipelines read, with the constants of the file. Durations are
  \<open>int\<close> nanoseconds (\<^verbatim>\<open>time.Duration\<close> is an \<^verbatim>\<open>int64\<close>; where the code does arithmetic on one,
  the model writes the wrap-around). A Go map is a partial function; a \<^verbatim>\<open>range\<close> loop over one
  takes the order the runtime picked as an extra argument, a list that enumerates the keys.
\<close>

subsection \<open>Constants\<close>

definition MaxBatchSize :: int where "MaxBatchSize = 8189"

definition DefaultMaxInFlightPerPartition :: int where "DefaultMaxInFlightPerPartition = 1000"

definition DefaultPollSize :: int where "DefaultPollSize = MaxBatchSize"

text \<open>\<^verbatim>\<open>time.Millisecond\<close> and \<^verbatim>\<open>time.Second\<close>, in nanoseconds.\<close>

definition Millisecond :: int where "Millisecond = 1000000"

definition Second :: int where "Second = 1000000000"

definition DefaultBatcherLinger :: int where "DefaultBatcherLinger = Millisecond"

definition MaxCDCBatchSize :: int where "MaxCDCBatchSize = 2730"

definition DefaultCDCBatchSize :: int where "DefaultCDCBatchSize = MaxCDCBatchSize"

definition DefaultCDCPollInterval :: int where "DefaultCDCPollInterval = Second"

definition PartitionKeyDebitAccountID :: string where
  "PartitionKeyDebitAccountID = ''debit_account_id''"

definition PartitionKeyCreditAccountID :: string where
  "PartitionKeyCreditAccountID = ''credit_account_id''"

definition PartitionKeyLedger :: string where "PartitionKeyLedger = ''ledger''"

definition PartitionKeyTransferID :: string where "PartitionKeyTransferID = ''transfer_id''"

lemmas config_constants =
  MaxBatchSize_def DefaultMaxInFlightPerPartition_def DefaultPollSize_def Millisecond_def
  Second_def DefaultBatcherLinger_def MaxCDCBatchSize_def DefaultCDCBatchSize_def
  DefaultCDCPollInterval_def PartitionKeyDebitAccountID_def PartitionKeyCreditAccountID_def
  PartitionKeyLedger_def PartitionKeyTransferID_def

subsection \<open>The configuration tree\<close>

record ledger =
  ledger_ID :: u32
  Scale :: int

record tigerbeetle_cfg =
  ClusterID :: u64
  Addresses :: "string list"

record batcher_cfg =
  B_MaxBatchSize :: int
  Linger :: int
  MaxQueue :: int

record sink_cfg =
  MaxInFlightPerPartition :: int
  PollSize :: int

record cdc_cfg =
  cdc_Topic :: string
  BatchSize :: int
  PollInterval :: int
  PartitionKey :: string

record topic_cfg =
  topic_Name :: string
  topic_Codec :: string

record kafka_cfg =
  Brokers :: "string list"
  Group :: string
  Topics :: "topic_cfg list"
  DLQTopic :: string
  ResultsTopic :: string

record limits_cfg =
  MaxMessageBytes :: int
  MaxEventsPerMessage :: int
  MaxJSONDepth :: int

record retry_cfg =
  Initial :: int
  Max_delay :: int
  Jitter :: bool

record config =
  TigerBeetle :: tigerbeetle_cfg
  Batcher :: batcher_cfg
  Sink :: sink_cfg
  CDC :: cdc_cfg
  Kafka :: kafka_cfg
  Limits :: limits_cfg
  Ledgers :: "string \<rightharpoonup> ledger"
  Codes :: "string \<rightharpoonup> u16"
  Retry :: retry_cfg
  ShutdownTimeout :: int
  MetricsAddr :: string
  Pprof :: bool

definition LedgerByName :: "config \<Rightarrow> string \<Rightarrow> ledger option" where
  "LedgerByName c name = Ledgers c name"

definition CodeByName :: "config \<Rightarrow> string \<Rightarrow> u16 option" where
  "CodeByName c name = Codes c name"

text \<open>An order in which a \<^verbatim>\<open>range\<close> loop can visit a map: every key once.\<close>

definition enumerates :: "'k list \<Rightarrow> ('k \<rightharpoonup> 'v) \<Rightarrow> bool" where
  "enumerates ks m \<longleftrightarrow> distinct ks \<and> set ks = dom m"

text \<open>A small configuration, used by the witnesses.\<close>

definition sample_config :: config where
  "sample_config =
     \<lparr> TigerBeetle = \<lparr> ClusterID = 0, Addresses = [''3000''] \<rparr>,
       Batcher = \<lparr> B_MaxBatchSize = 8189, Linger = 1000000, MaxQueue = 1000 \<rparr>,
       Sink = \<lparr> MaxInFlightPerPartition = 1000, PollSize = 8189 \<rparr>,
       CDC = \<lparr> cdc_Topic = ''ledger.events'', BatchSize = 2730, PollInterval = 1000000000,
               PartitionKey = ''debit_account_id'' \<rparr>,
       Kafka = \<lparr> Brokers = [''localhost:9092''], Group = ''kafkatb'',
                 Topics = [\<lparr> topic_Name = ''commands'', topic_Codec = ''json'' \<rparr>],
                 DLQTopic = ''commands.dlq'', ResultsTopic = ''commands.results'' \<rparr>,
       Limits = \<lparr> MaxMessageBytes = 1048576, MaxEventsPerMessage = 8189, MaxJSONDepth = 16 \<rparr>,
       Ledgers = [''USD'' \<mapsto> \<lparr> ledger_ID = 1, Scale = 2 \<rparr>, ''BTC'' \<mapsto> \<lparr> ledger_ID = 4, Scale = 8 \<rparr>],
       Codes = [''payment'' \<mapsto> 1],
       Retry = \<lparr> Initial = 100000000, Max_delay = 5000000000, Jitter = True \<rparr>,
       ShutdownTimeout = 30000000000, MetricsAddr = '':9464'', Pprof = False \<rparr>"

end
