(* ===== verification/Registry.thy ===== *)
theory Registry
  imports Config
begin

section \<open>Names for numbers: \<^verbatim>\<open>internal/model/registry.go\<close>\<close>

text \<open>
  The registry translates ledger and code names to TigerBeetle's numbers and back, and flag
  names to flag bits and back. The sink uses it in one direction, the CDC encoder in the
  other; the lemmas show that the two directions agree.
\<close>

record registry =
  ledgers :: "string \<rightharpoonup> ledger"
  ledgerNames :: "u32 \<rightharpoonup> string"
  codes :: "string \<rightharpoonup> u16"
  codeNames :: "u16 \<rightharpoonup> string"

datatype registry_error =
    UnknownLedger string
  | UnknownLedgerID u32
  | UnknownCode string
  | UnknownCodeValue u16
  | TransferFlagReadOnly string
  | UnknownTransferFlag string
  | AccountFlagReadOnly string
  | UnknownAccountFlag string

subsection \<open>Construction and lookups\<close>

text \<open>
  The two \<^verbatim>\<open>range\<close> loops of \<^verbatim>\<open>NewRegistry\<close>, over the orders \<open>ls\<close> and \<open>cs\<close>. A later key
  with the same number overwrites an earlier one.
\<close>

definition index_names :: "('k \<rightharpoonup> 'v) \<Rightarrow> ('v \<Rightarrow> 'n) \<Rightarrow> 'k list \<Rightarrow> ('n \<rightharpoonup> 'k)" where
  "index_names m f ks =
     foldl (\<lambda>acc k. case m k of None \<Rightarrow> acc | Some v \<Rightarrow> acc(f v \<mapsto> k)) Map.empty ks"

definition NewRegistry :: "config \<Rightarrow> string list \<Rightarrow> string list \<Rightarrow> registry" where
  "NewRegistry cfg ls cs =
     \<lparr> ledgers = Ledgers cfg,
       ledgerNames = index_names (Ledgers cfg) ledger_ID ls,
       codes = Codes cfg,
       codeNames = index_names (Codes cfg) (\<lambda>v. v) cs \<rparr>"

definition Ledger :: "registry \<Rightarrow> string \<Rightarrow> registry_error + ledger" where
  "Ledger r name = (case ledgers r name of None \<Rightarrow> Inl (UnknownLedger name) | Some l \<Rightarrow> Inr l)"

definition LedgerName :: "registry \<Rightarrow> u32 \<Rightarrow> registry_error + string" where
  "LedgerName r i = (case ledgerNames r i of None \<Rightarrow> Inl (UnknownLedgerID i) | Some n \<Rightarrow> Inr n)"

text \<open>A missing key of \<^verbatim>\<open>r.ledgers[name]\<close> reads as the zero \<^verbatim>\<open>Ledger\<close>.\<close>

definition ScaleByLedgerID :: "registry \<Rightarrow> u32 \<Rightarrow> registry_error + int" where
  "ScaleByLedgerID r i =
     (case LedgerName r i of
        Inl e \<Rightarrow> Inl e
      | Inr name \<Rightarrow> Inr (case ledgers r name of None \<Rightarrow> 0 | Some l \<Rightarrow> Scale l))"

definition Code :: "registry \<Rightarrow> string \<Rightarrow> registry_error + u16" where
  "Code r name = (case codes r name of None \<Rightarrow> Inl (UnknownCode name) | Some v \<Rightarrow> Inr v)"

definition CodeName :: "registry \<Rightarrow> u16 \<Rightarrow> registry_error + string" where
  "CodeName r v = (case codeNames r v of None \<Rightarrow> Inl (UnknownCodeValue v) | Some n \<Rightarrow> Inr n)"

subsection \<open>Flags\<close>

text \<open>
  \<^verbatim>\<open>types.TransferFlags\<close> and \<^verbatim>\<open>types.AccountFlags\<close> are structs of the client library; the
  records hold the fields this repository sets, so \<^verbatim>\<open>Imported\<close>, which no name of it denotes, is left
  out. \<^verbatim>\<open>ToUint16\<close> is the library's and appears as a parameter where a mask is built.
\<close>

record transfer_flags =
  tf_Linked :: bool
  tf_Pending :: bool
  tf_PostPendingTransfer :: bool
  tf_VoidPendingTransfer :: bool
  tf_BalancingDebit :: bool
  tf_BalancingCredit :: bool
  tf_ClosingDebit :: bool
  tf_ClosingCredit :: bool

record account_flags =
  af_Linked :: bool
  af_DebitsMustNotExceedCredits :: bool
  af_CreditsMustNotExceedDebits :: bool
  af_History :: bool
  af_Closed :: bool

definition no_transfer_flags :: transfer_flags where
  "no_transfer_flags = \<lparr> tf_Linked = False, tf_Pending = False, tf_PostPendingTransfer = False,
     tf_VoidPendingTransfer = False, tf_BalancingDebit = False, tf_BalancingCredit = False,
     tf_ClosingDebit = False, tf_ClosingCredit = False \<rparr>"

definition no_account_flags :: account_flags where
  "no_account_flags = \<lparr> af_Linked = False, af_DebitsMustNotExceedCredits = False,
     af_CreditsMustNotExceedDebits = False, af_History = False, af_Closed = False \<rparr>"

text \<open>One turn of each \<^verbatim>\<open>for ... switch\<close> loop.\<close>

definition transfer_flag_step ::
    "transfer_flags \<Rightarrow> string \<Rightarrow> registry_error + transfer_flags" where
  "transfer_flag_step f n =
     (if n = ''linked'' then Inr (f\<lparr>tf_Linked := True\<rparr>)
      else if n = ''pending'' then Inr (f\<lparr>tf_Pending := True\<rparr>)
      else if n = ''post_pending_transfer'' then Inr (f\<lparr>tf_PostPendingTransfer := True\<rparr>)
      else if n = ''void_pending_transfer'' then Inr (f\<lparr>tf_VoidPendingTransfer := True\<rparr>)
      else if n = ''balancing_debit'' then Inr (f\<lparr>tf_BalancingDebit := True\<rparr>)
      else if n = ''balancing_credit'' then Inr (f\<lparr>tf_BalancingCredit := True\<rparr>)
      else if n = ''closing_debit'' then Inr (f\<lparr>tf_ClosingDebit := True\<rparr>)
      else if n = ''closing_credit'' then Inr (f\<lparr>tf_ClosingCredit := True\<rparr>)
      else if n = ''imported'' then Inl (TransferFlagReadOnly n)
      else Inl (UnknownTransferFlag n))"

definition account_flag_step ::
    "account_flags \<Rightarrow> string \<Rightarrow> registry_error + account_flags" where
  "account_flag_step f n =
     (if n = ''linked'' then Inr (f\<lparr>af_Linked := True\<rparr>)
      else if n = ''debits_must_not_exceed_credits''
        then Inr (f\<lparr>af_DebitsMustNotExceedCredits := True\<rparr>)
      else if n = ''credits_must_not_exceed_debits''
        then Inr (f\<lparr>af_CreditsMustNotExceedDebits := True\<rparr>)
      else if n = ''history'' then Inr (f\<lparr>af_History := True\<rparr>)
      else if n = ''closed'' then Inr (f\<lparr>af_Closed := True\<rparr>)
      else if n = ''imported'' then Inl (AccountFlagReadOnly n)
      else Inl (UnknownAccountFlag n))"

text \<open>A loop that stops at the first error.\<close>

fun fold_err :: "('s \<Rightarrow> 'a \<Rightarrow> 'e + 's) \<Rightarrow> 's \<Rightarrow> 'a list \<Rightarrow> 'e + 's" where
  "fold_err step s [] = Inr s"
| "fold_err step s (x # xs) =
     (case step s x of Inl e \<Rightarrow> Inl e | Inr s' \<Rightarrow> fold_err step s' xs)"

definition TransferFlags :: "string list \<Rightarrow> registry_error + transfer_flags" where
  "TransferFlags names = fold_err transfer_flag_step no_transfer_flags names"

definition AccountFlags :: "string list \<Rightarrow> registry_error + account_flags" where
  "AccountFlags names = fold_err account_flag_step no_account_flags names"

definition transferFlagNames :: "string list" where
  "transferFlagNames =
     [''linked'', ''pending'', ''post_pending_transfer'', ''void_pending_transfer'',
      ''balancing_debit'', ''balancing_credit'', ''closing_debit'', ''closing_credit'',
      ''imported'']"

definition accountFlagNames :: "string list" where
  "accountFlagNames =
     [''linked'', ''debits_must_not_exceed_credits'', ''credits_must_not_exceed_debits'',
      ''history'', ''imported'', ''closed'']"

text \<open>
  The result \<open>nil\<close> of the Go function is the empty list. The loop visits the 16 bits in
  order; a bit without a name is reported as \<^verbatim>\<open>bit_N\<close>.
\<close>

definition flag_name :: "string list \<Rightarrow> nat \<Rightarrow> string" where
  "flag_name table b = (if b < length table then table ! b else ''bit_'' @ dec b)"

definition flagNames :: "u16 \<Rightarrow> string list \<Rightarrow> string list" where
  "flagNames flags table = map (flag_name table) (filter (\<lambda>b. bit flags b) [0..<16])"

definition TransferFlagNames :: "u16 \<Rightarrow> string list" where
  "TransferFlagNames flags = flagNames flags transferFlagNames"

definition AccountFlagNames :: "u16 \<Rightarrow> string list" where
  "AccountFlagNames flags = flagNames flags accountFlagNames"

subsection \<open>Names and numbers are inverse to each other\<close>

text \<open>
  What \<^verbatim>\<open>Config.validate\<close> guarantees of both tables: no two names share a number.
\<close>

definition numbers_unique :: "('k \<rightharpoonup> 'v) \<Rightarrow> ('v \<Rightarrow> 'n) \<Rightarrow> bool" where
  "numbers_unique m f \<longleftrightarrow> (\<forall>k k' v v'. m k = Some v \<longrightarrow> m k' = Some v' \<longrightarrow> f v = f v' \<longrightarrow> k = k')"

lemma index_names_sound:
  assumes "index_names m f ks n = Some k"
  shows "\<exists>v. m k = Some v \<and> f v = n"
  using assms
proof (induction ks rule: rev_induct)
  case (snoc k' ks)
  then show ?case by (auto simp: index_names_def split: option.splits if_splits)
qed (simp add: index_names_def)

lemma index_names_complete:
  assumes "k \<in> set ks" and "m k = Some v"
  shows "\<exists>k'. index_names m f ks (f v) = Some k'"
  using assms
proof (induction ks rule: rev_induct)
  case (snoc k' ks)
  then show ?case by (auto simp: index_names_def split: option.splits)
qed simp

lemma index_names_iff:
  assumes "numbers_unique m f" and "enumerates ks m"
  shows "index_names m f ks n = Some k \<longleftrightarrow> (\<exists>v. m k = Some v \<and> f v = n)"
proof
  assume "\<exists>v. m k = Some v \<and> f v = n"
  then obtain v where v: "m k = Some v" "f v = n" by blast
  then have "k \<in> set ks" using assms(2) by (auto simp: enumerates_def)
  then obtain k' where k': "index_names m f ks n = Some k'"
    using index_names_complete v by metis
  then obtain v' where "m k' = Some v'" "f v' = n" using index_names_sound by metis
  with v have "k' = k" using assms(1) unfolding numbers_unique_def by metis
  with k' show "index_names m f ks n = Some k" by simp
qed (rule index_names_sound)

lemma lookup_Inr [simp]:
  "Ledger r n = Inr l \<longleftrightarrow> ledgers r n = Some l"
  "LedgerName r i = Inr n \<longleftrightarrow> ledgerNames r i = Some n"
  "Code r n = Inr v \<longleftrightarrow> codes r n = Some v"
  "CodeName r v = Inr n \<longleftrightarrow> codeNames r v = Some n"
  by (simp_all add: Ledger_def LedgerName_def Code_def CodeName_def split: option.splits)

lemma ScaleByLedgerID_Inr:
  "ScaleByLedgerID r i = Inr k \<longleftrightarrow>
     (\<exists>n. ledgerNames r i = Some n \<and> k = (case ledgers r n of None \<Rightarrow> 0 | Some l \<Rightarrow> Scale l))"
  by (auto simp: ScaleByLedgerID_def LedgerName_def split: option.splits)

text \<open>A registry whose number maps invert its name maps, as \<^verbatim>\<open>NewRegistry\<close> builds it.\<close>

definition registry_ok :: "registry \<Rightarrow> bool" where
  "registry_ok r \<longleftrightarrow>
     (\<forall>i n. ledgerNames r i = Some n \<longleftrightarrow> (\<exists>l. ledgers r n = Some l \<and> ledger_ID l = i)) \<and>
     (\<forall>v n. codeNames r v = Some n \<longleftrightarrow> codes r n = Some v) \<and>
     (\<forall>n l. ledgers r n = Some l \<longrightarrow> 0 \<le> Scale l \<and> Scale l \<le> 18)"

lemma NewRegistry_ok:
  assumes "numbers_unique (Ledgers cfg) ledger_ID" "numbers_unique (Codes cfg) (\<lambda>v. v)"
    and "enumerates ls (Ledgers cfg)" "enumerates cs (Codes cfg)"
    and "\<And>n l. Ledgers cfg n = Some l \<Longrightarrow> 0 \<le> Scale l \<and> Scale l \<le> 18"
  shows "registry_ok (NewRegistry cfg ls cs)"
  using assms by (simp add: registry_ok_def NewRegistry_def index_names_iff)

lemma registry_okD:
  assumes "registry_ok r"
  shows "LedgerName r i = Inr n \<Longrightarrow> \<exists>l. Ledger r n = Inr l \<and> ledger_ID l = i \<and> ScaleByLedgerID r i = Inr (Scale l) \<and>
           0 \<le> Scale l \<and> Scale l \<le> 18"
    and "CodeName r v = Inr c \<Longrightarrow> Code r c = Inr v"
proof -
  assume "LedgerName r i = Inr n"
  then have n: "ledgerNames r i = Some n" by simp
  then obtain l where "ledgers r n = Some l" "ledger_ID l = i" "0 \<le> Scale l" "Scale l \<le> 18"
    using assms unfolding registry_ok_def by blast
  with n show "\<exists>l. Ledger r n = Inr l \<and> ledger_ID l = i \<and> ScaleByLedgerID r i = Inr (Scale l) \<and>
           0 \<le> Scale l \<and> Scale l \<le> 18"
    by (simp add: ScaleByLedgerID_Inr)
next
  assume "CodeName r v = Inr c"
  with assms show "Code r c = Inr v" by (simp add: registry_ok_def)
qed

subsection \<open>The flag vocabulary as an interface\<close>

text \<open>
  \<^verbatim>\<open>TransferFlags\<close>/\<^verbatim>\<open>TransferFlagNames\<close> and \<^verbatim>\<open>AccountFlags\<close>/\<^verbatim>\<open>AccountFlagNames\<close> share one contract: a
  table of names in bit order, a set of bits a name list may set, and a loop turn that sets
  exactly the bit its name stands for or refuses the name.
\<close>

locale flag_vocabulary =
  fixes turn :: "'f \<Rightarrow> string \<Rightarrow> registry_error + 'f"
    and none :: 'f
    and bits :: "'f \<Rightarrow> nat \<Rightarrow> bool"
    and table :: "string list"
    and writable :: "nat \<Rightarrow> bool"
  assumes table_distinct: "distinct table"
    and table_fits: "length table \<le> 16"
    and bits_none: "\<not> bits none b"
    and bits_ext: "(\<And>b. bits f b = bits g b) \<Longrightarrow> f = g"
    and bits_writable: "bits f b \<Longrightarrow> writable b"
    and writable_named: "writable b \<Longrightarrow> b < length table"
    and turn_sets: "writable b \<Longrightarrow> \<exists>g. turn f (table ! b) = Inr g \<and> (\<forall>c. bits g c = (bits f c \<or> c = b))"
    and turn_refuses: "(\<And>b. writable b \<Longrightarrow> table ! b \<noteq> n) \<Longrightarrow> \<exists>e. turn f n = Inl e"
begin

lemma named_bit: "writable b \<Longrightarrow> writable c \<Longrightarrow> table ! b = table ! c \<longleftrightarrow> b = c"
  using table_distinct writable_named nth_eq_iff_index_eq by metis

lemma fold_sets:
  "fold_err turn f names = Inr g \<Longrightarrow>
     bits g b \<longleftrightarrow> bits f b \<or> (writable b \<and> table ! b \<in> set names)"
proof (induction names arbitrary: f)
  case (Cons n ns)
  then obtain f' where f': "turn f n = Inr f'" "fold_err turn f' ns = Inr g"
    by (auto split: sum.splits)
  then obtain c where c: "writable c" "table ! c = n" using turn_refuses [of n f] by fastforce
  then have "bits f' b \<longleftrightarrow> bits f b \<or> b = c" using turn_sets [of c f] f'(1) by auto
  moreover have "bits g b \<longleftrightarrow> bits f' b \<or> (writable b \<and> table ! b \<in> set ns)"
    using Cons.IH [OF f'(2)] .
  ultimately show ?case using c named_bit [of b c] by auto
qed simp

lemma fold_accepts:
  "(\<And>n. n \<in> set names \<Longrightarrow> \<exists>b. writable b \<and> table ! b = n) \<Longrightarrow> \<exists>g. fold_err turn f names = Inr g"
proof (induction names arbitrary: f)
  case (Cons n ns)
  then obtain b where b: "writable b" "table ! b = n" by auto
  then obtain f' where f': "turn f n = Inr f'" using turn_sets [OF b(1), of f] by auto
  moreover obtain g where "fold_err turn f' ns = Inr g" using Cons by fastforce
  ultimately show ?case by auto
qed simp

lemma fold_refuses:
  "n \<in> set names \<Longrightarrow> (\<And>b. writable b \<Longrightarrow> table ! b \<noteq> n) \<Longrightarrow> \<exists>e. fold_err turn f names = Inl e"
proof (induction names arbitrary: f)
  case (Cons m ns)
  then show ?case
    using turn_refuses [of n f] by (cases "n = m") (auto split: sum.splits)
qed simp

lemma names_of_mask:
  assumes "\<And>b. bit m b \<longleftrightarrow> bits f b"
  shows "n \<in> set (flagNames m table) \<longleftrightarrow> (\<exists>b. bits f b \<and> table ! b = n)"
proof -
  have name: "b < 16 \<and> flag_name table b = table ! b" if "bits f b" for b
    using that bits_writable writable_named [of b] table_fits by (simp add: flag_name_def)
  have "set (flagNames m table) = flag_name table ` {b. b < 16 \<and> bits f b}"
    using assms by (auto simp: flagNames_def)
  then have "n \<in> set (flagNames m table) \<longleftrightarrow> (\<exists>b. b < 16 \<and> bits f b \<and> flag_name table b = n)"
    by auto
  then show ?thesis using name by metis
qed

lemma round_trip:
  assumes "\<And>b. bit m b \<longleftrightarrow> bits f b"
  shows "fold_err turn none (flagNames m table) = Inr f"
proof -
  note names = names_of_mask [OF assms]
  have "\<exists>b. writable b \<and> table ! b = n" if "n \<in> set (flagNames m table)" for n
    using that names bits_writable by blast
  then obtain g where g: "fold_err turn none (flagNames m table) = Inr g"
    using fold_accepts by blast
  have "bits g b \<longleftrightarrow> bits f b" for b
  proof -
    have "bits g b \<longleftrightarrow> writable b \<and> (\<exists>c. bits f c \<and> table ! c = table ! b)"
      using fold_sets [OF g, of b] names bits_none by simp
    then show ?thesis using bits_writable named_bit by metis
  qed
  then have "g = f" by (rule bits_ext)
  with g show ?thesis by simp
qed

lemma accepted_names:
  assumes "fold_err turn none names = Inr f" and "\<And>b. bit m b \<longleftrightarrow> bits f b"
  shows "set (flagNames m table) = set names"
proof -
  have known: "\<exists>b. writable b \<and> table ! b = n" if "n \<in> set names" for n
    using that fold_refuses [of n names none] assms(1) by fastforce
  have "bits f b \<longleftrightarrow> writable b \<and> table ! b \<in> set names" for b
    using fold_sets [OF assms(1), of b] bits_none by simp
  then have "n \<in> set (flagNames m table) \<longleftrightarrow> n \<in> set names" for n
    using names_of_mask [OF assms(2), of n] known by metis
  then show ?thesis by blast
qed

end

text \<open>The bits of the two structs, in the order the client library documents.\<close>

definition transfer_bits :: "transfer_flags \<Rightarrow> nat \<Rightarrow> bool" where
  "transfer_bits f b \<longleftrightarrow>
     b = 0 \<and> tf_Linked f \<or> b = 1 \<and> tf_Pending f \<or> b = 2 \<and> tf_PostPendingTransfer f \<or>
     b = 3 \<and> tf_VoidPendingTransfer f \<or> b = 4 \<and> tf_BalancingDebit f \<or>
     b = 5 \<and> tf_BalancingCredit f \<or> b = 6 \<and> tf_ClosingDebit f \<or> b = 7 \<and> tf_ClosingCredit f"

definition account_bits :: "account_flags \<Rightarrow> nat \<Rightarrow> bool" where
  "account_bits f b \<longleftrightarrow>
     b = 0 \<and> af_Linked f \<or> b = 1 \<and> af_DebitsMustNotExceedCredits f \<or>
     b = 2 \<and> af_CreditsMustNotExceedDebits f \<or> b = 3 \<and> af_History f \<or> b = 5 \<and> af_Closed f"

text \<open>\<^verbatim>\<open>ToUint16\<close> of the client library, as its documentation describes it.\<close>

definition transfer_mask_ok :: "(transfer_flags \<Rightarrow> u16) \<Rightarrow> bool" where
  "transfer_mask_ok to16 \<longleftrightarrow> (\<forall>f b. bit (to16 f) b = transfer_bits f b)"

definition account_mask_ok :: "(account_flags \<Rightarrow> u16) \<Rightarrow> bool" where
  "account_mask_ok to16 \<longleftrightarrow> (\<forall>f b. bit (to16 f) b = account_bits f b)"

interpretation transfer_vocab: flag_vocabulary transfer_flag_step no_transfer_flags
  transfer_bits transferFlagNames "\<lambda>b. b < 8"
proof
  fix f :: transfer_flags and b :: nat
  assume "b < 8"
  then have "b \<in> {0, 1, 2, 3, 4, 5, 6, 7}" by auto
  then show "\<exists>g. transfer_flag_step f (transferFlagNames ! b) = Inr g \<and>
      (\<forall>c. transfer_bits g c = (transfer_bits f c \<or> c = b))"
    by (elim insertE emptyE)
       (auto simp: transfer_flag_step_def transferFlagNames_def transfer_bits_def)
next
  fix f :: transfer_flags and n :: string
  assume "\<And>b. b < 8 \<Longrightarrow> transferFlagNames ! b \<noteq> n"
  from this [of 0] this [of 1] this [of 2] this [of 3] this [of 4] this [of 5] this [of 6]
    this [of 7]
  show "\<exists>e. transfer_flag_step f n = Inl e"
    by (auto simp: transfer_flag_step_def transferFlagNames_def)
next
  fix f g :: transfer_flags
  assume eq: "\<And>b. transfer_bits f b = transfer_bits g b"
  from eq [of 0] eq [of 1] eq [of 2] eq [of 3] eq [of 4] eq [of 5] eq [of 6] eq [of 7]
  show "f = g" by (simp add: transfer_bits_def)
qed (auto simp: transferFlagNames_def no_transfer_flags_def transfer_bits_def)

interpretation account_vocab: flag_vocabulary account_flag_step no_account_flags
  account_bits accountFlagNames "\<lambda>b. b \<in> {0, 1, 2, 3, 5}"
proof
  fix f :: account_flags and b :: nat
  assume "b \<in> {0, 1, 2, 3, 5}"
  then show "\<exists>g. account_flag_step f (accountFlagNames ! b) = Inr g \<and>
      (\<forall>c. account_bits g c = (account_bits f c \<or> c = b))"
    by (elim insertE emptyE)
       (auto simp: account_flag_step_def accountFlagNames_def account_bits_def)
next
  fix f :: account_flags and n :: string
  assume "\<And>b. b \<in> {0, 1, 2, 3, 5} \<Longrightarrow> accountFlagNames ! b \<noteq> n"
  from this [of 0] this [of 1] this [of 2] this [of 3] this [of 5]
  show "\<exists>e. account_flag_step f n = Inl e"
    by (auto simp: account_flag_step_def accountFlagNames_def)
next
  fix f g :: account_flags
  assume eq: "\<And>b. account_bits f b = account_bits g b"
  from eq [of 0] eq [of 1] eq [of 2] eq [of 3] eq [of 5]
  show "f = g" by (simp add: account_bits_def)
qed (auto simp: accountFlagNames_def no_account_flags_def account_bits_def)

subsection \<open>Masks for the witnesses\<close>

definition word_transfer_mask :: "transfer_flags \<Rightarrow> u16" where
  "word_transfer_mask f = horner_sum of_bool 2 (map (transfer_bits f) [0..<16])"

definition word_account_mask :: "account_flags \<Rightarrow> u16" where
  "word_account_mask f = horner_sum of_bool 2 (map (account_bits f) [0..<16])"

lemma word_transfer_mask_ok: "transfer_mask_ok word_transfer_mask"
proof -
  have "b < 16" if "transfer_bits f b" for f b
    using that by (auto simp: transfer_bits_def)
  then show ?thesis
    by (auto simp: transfer_mask_ok_def word_transfer_mask_def bit_horner_sum_bit_word_iff
        simp del: upt_rec_numeral)
qed

lemma word_account_mask_ok: "account_mask_ok word_account_mask"
proof -
  have "b < 16" if "account_bits f b" for f b
    using that by (auto simp: account_bits_def)
  then show ?thesis
    by (auto simp: account_mask_ok_def word_account_mask_def bit_horner_sum_bit_word_iff
        simp del: upt_rec_numeral)
qed

subsection \<open>Properties\<close>

text \<open>
  C30: the flags the sink can set survive the trip out and back. The names the CDC job prints for a
  mask the sink built, from any of the flags it knows, are accepted by \<^verbatim>\<open>TransferFlags\<close> and
  \<^verbatim>\<open>AccountFlags\<close>, which rebuild the same flags. Masks of other clients (\<^verbatim>\<open>imported\<close>) are not
  claimed.
\<close>

theorem flag_names_round_trip:
  assumes "transfer_mask_ok tmask" and "account_mask_ok amask"
  shows "TransferFlags (TransferFlagNames (tmask f)) = Inr f \<and>
         AccountFlags (AccountFlagNames (amask g)) = Inr g"
  using assms transfer_vocab.round_trip account_vocab.round_trip
  by (simp add: transfer_mask_ok_def account_mask_ok_def TransferFlags_def AccountFlags_def
      TransferFlagNames_def AccountFlagNames_def)

theorem flag_names_round_trip_witness:
  "transfer_mask_ok word_transfer_mask \<and> account_mask_ok word_account_mask \<and>
   TransferFlags (TransferFlagNames (word_transfer_mask (no_transfer_flags\<lparr>tf_Linked := True\<rparr>)))
     = Inr (no_transfer_flags\<lparr>tf_Linked := True\<rparr>)"
  using flag_names_round_trip [OF word_transfer_mask_ok word_account_mask_ok]
    word_transfer_mask_ok word_account_mask_ok by blast

text \<open>
  \<^verbatim>\<open>TransferFlags\<close> accepts a list exactly when every name is one of the eight it may set
  (so \<^verbatim>\<open>imported\<close> and every misspelling is refused), and an accepted list is, up to order and
  repetition, what is printed for the mask it makes.
\<close>

theorem TransferFlags_accepts_exactly:
  assumes "transfer_mask_ok tmask"
  shows "(\<exists>f. TransferFlags ns = Inr f \<and> set (TransferFlagNames (tmask f)) = set ns) \<longleftrightarrow>
         set ns \<subseteq> set (take 8 transferFlagNames)"
proof -
  have writable: "n \<in> set (take 8 transferFlagNames) \<longleftrightarrow> (\<exists>b < 8. transferFlagNames ! b = n)" for n
  proof -
    have "length (take 8 transferFlagNames) = 8" by (simp add: transferFlagNames_def)
    then show ?thesis by (auto simp: in_set_conv_nth)
  qed
  show ?thesis
  proof
    assume "\<exists>f. TransferFlags ns = Inr f \<and> set (TransferFlagNames (tmask f)) = set ns"
    then obtain f where f: "fold_err transfer_flag_step no_transfer_flags ns = Inr f"
      by (auto simp: TransferFlags_def)
    then have "\<exists>b < 8. transferFlagNames ! b = n" if "n \<in> set ns" for n
      using transfer_vocab.fold_refuses [OF that, of no_transfer_flags] by fastforce
    then show "set ns \<subseteq> set (take 8 transferFlagNames)" using writable by blast
  next
    assume "set ns \<subseteq> set (take 8 transferFlagNames)"
    then have "\<exists>b < 8. transferFlagNames ! b = n" if "n \<in> set ns" for n
      using that writable by blast
    then obtain f where f: "fold_err transfer_flag_step no_transfer_flags ns = Inr f"
      using transfer_vocab.fold_accepts by blast
    then show "\<exists>f. TransferFlags ns = Inr f \<and> set (TransferFlagNames (tmask f)) = set ns"
      using transfer_vocab.accepted_names [OF f] assms
      by (auto simp: TransferFlags_def TransferFlagNames_def transfer_mask_ok_def)
  qed
qed

theorem TransferFlags_accepts_exactly_witness:
  "transfer_mask_ok word_transfer_mask \<and>
   \<not> (\<exists>f. TransferFlags [''linked'', ''imported''] = Inr f \<and>
          set (TransferFlagNames (word_transfer_mask f)) = {''linked'', ''imported''})"
  using TransferFlags_accepts_exactly [OF word_transfer_mask_ok, of "[''linked'', ''imported'']"]
    word_transfer_mask_ok by (simp add: transferFlagNames_def)

text \<open>
  The registry is a bijection between the configured names and their numbers. When the
  configuration has passed \<^verbatim>\<open>validate\<close> (no two ledgers, no two codes share a number), for
  every order in which the \<^verbatim>\<open>range\<close> loops visit the maps, a number is named exactly by the
  name configured for it, and the scale found for a ledger number is that ledger's scale.
\<close>

theorem registry_inverse:
  assumes "numbers_unique (Ledgers cfg) ledger_ID" and "numbers_unique (Codes cfg) (\<lambda>v. v)"
    and "enumerates ls (Ledgers cfg)" and "enumerates cs (Codes cfg)"
    and "r = NewRegistry cfg ls cs"
  shows "(LedgerName r i = Inr name \<longleftrightarrow> (\<exists>l. Ledger r name = Inr l \<and> ledger_ID l = i)) \<and>
         (CodeName r v = Inr code \<longleftrightarrow> Code r code = Inr v) \<and>
         (ScaleByLedgerID r i = Inr k \<longleftrightarrow>
            (\<exists>n l. Ledger r n = Inr l \<and> ledger_ID l = i \<and> Scale l = k))"
proof -
  have names: "ledgerNames r j = Some n \<longleftrightarrow> (\<exists>l. ledgers r n = Some l \<and> ledger_ID l = j)" for j n
    using assms by (simp add: NewRegistry_def index_names_iff)
  moreover have "codeNames r v = Some code \<longleftrightarrow> codes r code = Some v"
    using assms by (simp add: NewRegistry_def index_names_iff)
  moreover have "ScaleByLedgerID r i = Inr k \<longleftrightarrow>
      (\<exists>n l. ledgers r n = Some l \<and> ledger_ID l = i \<and> Scale l = k)"
    unfolding ScaleByLedgerID_Inr names by fastforce
  ultimately show ?thesis by simp
qed

definition sample_registry :: registry where
  "sample_registry = NewRegistry sample_config [''USD'', ''BTC''] [''payment'']"

theorem registry_inverse_witness:
  "LedgerName sample_registry 4 = Inr ''BTC'' \<and> ScaleByLedgerID sample_registry 4 = Inr 8"
proof -
  have "numbers_unique (Ledgers sample_config) ledger_ID" "numbers_unique (Codes sample_config) (\<lambda>v. v)"
    by (auto simp: numbers_unique_def sample_config_def split: if_splits)
  moreover have "enumerates [''USD'', ''BTC''] (Ledgers sample_config)"
    "enumerates [''payment''] (Codes sample_config)"
    by (auto simp: enumerates_def sample_config_def split: if_splits)
  moreover have "Ledger sample_registry ''BTC'' = Inr \<lparr> ledger_ID = 4, Scale = 8 \<rparr>"
    by (simp add: sample_registry_def NewRegistry_def sample_config_def)
  ultimately show ?thesis
    using registry_inverse [OF _ _ _ _ sample_registry_def, of "4" "''BTC''" 1 "''payment''" 8]
    by (metis ledger.select_convs(1) ledger.select_convs(2))
qed

end
