(* ===== verification/Config_Load.thy ===== *)
theory Config_Load
  imports Registry
begin

section \<open>Loading and validating: \<^verbatim>\<open>internal/config/config.go\<close>\<close>

text \<open>
  The key check, the address check, \<^verbatim>\<open>validate\<close> in the order of the file, and \<^verbatim>\<open>Load\<close>. The YAML
  parser and viper are parameters; \<^verbatim>\<open>net.SplitHostPort\<close> and \<^verbatim>\<open>net.ParseIP\<close> are modelled. Each
  error is a constructor carrying what its text shows.
\<close>

text \<open>The first error a loop returns.\<close>

fun first_err :: "('a \<Rightarrow> 'e option) \<Rightarrow> 'a list \<Rightarrow> 'e option" where
  "first_err f [] = None"
| "first_err f (x # xs) = (case f x of Some e \<Rightarrow> Some e | None \<Rightarrow> first_err f xs)"

lemma first_err_None [simp]: "first_err f xs = None \<longleftrightarrow> (\<forall>x \<in> set xs. f x = None)"
  by (induction xs) (auto split: option.splits)

subsection \<open>Unknown keys\<close>

text \<open>
  What the YAML parser leaves in an \<^verbatim>\<open>any\<close>, a map with its keys in the order the loop visits
  them; and a Go type as \<^verbatim>\<open>reflect\<close> shows it, a field with its whole \<^verbatim>\<open>yaml\<close> tag.
\<close>

datatype node = NMap "(string \<times> node) list" | NSeq "node list" | NLeaf

datatype go_type = StructT "(string \<times> go_type) list" | MapT go_type | SliceT go_type | PointerT go_type | PlainT

definition joinPath :: "string \<Rightarrow> string \<Rightarrow> string" where
  "joinPath pre key = (if pre = [] then key else pre @ ''.'' @ key)"

definition indexPath :: "string \<Rightarrow> nat \<Rightarrow> string" where
  "indexPath path i = path @ ''['' @ dec i @ '']''"

definition yaml_name :: "string \<Rightarrow> string" where
  "yaml_name tag = fst (cut CHR '','' tag)"

definition struct_fields :: "(string \<times> go_type) list \<Rightarrow> (string \<rightharpoonup> go_type)" where
  "struct_fields fs =
     foldl (\<lambda>m (tag, t). if yaml_name tag = [] \<or> yaml_name tag = ''-'' then m else m(yaml_name tag \<mapsto> t)) Map.empty fs"

function checkKnownKeys :: "node \<Rightarrow> go_type \<Rightarrow> string \<Rightarrow> string option"
  and check_struct :: "(string \<times> node) list \<Rightarrow> (string \<rightharpoonup> go_type) \<Rightarrow> string \<Rightarrow> string option"
  and check_map :: "(string \<times> node) list \<Rightarrow> go_type \<Rightarrow> string \<Rightarrow> string option"
  and check_slice :: "nat \<Rightarrow> node list \<Rightarrow> go_type \<Rightarrow> string \<Rightarrow> string option"
  where
  "checkKnownKeys n (PointerT t) path = checkKnownKeys n t path"
| "checkKnownKeys n (StructT fs) path = (case n of NMap m \<Rightarrow> check_struct m (struct_fields fs) path | _ \<Rightarrow> None)"
| "checkKnownKeys n (MapT t) path = (case n of NMap m \<Rightarrow> check_map m t path | _ \<Rightarrow> None)"
| "checkKnownKeys n (SliceT t) path = (case n of NSeq s \<Rightarrow> check_slice 0 s t path | _ \<Rightarrow> None)"
| "checkKnownKeys n PlainT path = None"
| "check_struct [] known path = None"
| "check_struct ((k, v) # m) known path =
     (case known k of
        None \<Rightarrow> Some (joinPath path k)
      | Some t \<Rightarrow>
          (case checkKnownKeys v t (joinPath path k) of
             Some e \<Rightarrow> Some e
           | None \<Rightarrow> check_struct m known path))"
| "check_map [] t path = None"
| "check_map ((k, v) # m) t path =
     (case checkKnownKeys v t (joinPath path k) of Some e \<Rightarrow> Some e | None \<Rightarrow> check_map m t path)"
| "check_slice i [] t path = None"
| "check_slice i (v # s) t path =
     (case checkKnownKeys v t (indexPath path i) of Some e \<Rightarrow> Some e | None \<Rightarrow> check_slice (Suc i) s t path)"
  by pat_completeness auto

termination
  by (relation "measures
      [\<lambda>x. case x of Inl (Inl (n, _)) \<Rightarrow> size n | Inl (Inr (m, _)) \<Rightarrow> size_list (size_prod (\<lambda>_. 0) size) m
         | Inr (Inl (m, _)) \<Rightarrow> size_list (size_prod (\<lambda>_. 0) size) m | Inr (Inr (_, s, _)) \<Rightarrow> size_list size s,
       \<lambda>x. case x of Inl (Inl (_, t, _)) \<Rightarrow> size t | _ \<Rightarrow> 0]") auto

text \<open>The shape of \<^verbatim>\<open>Config\<close>, from its struct tags.\<close>

definition config_type :: go_type where
  "config_type = StructT
     [(''tigerbeetle'', StructT [(''cluster_id'', PlainT), (''addresses'', SliceT PlainT)]),
      (''batcher'', StructT [(''max_batch_size'', PlainT), (''linger'', PlainT), (''max_queue'', PlainT)]),
      (''sink'', StructT [(''max_in_flight_per_partition'', PlainT), (''poll_size'', PlainT)]),
      (''cdc'', StructT [(''topic'', PlainT), (''batch_size'', PlainT), (''poll_interval'', PlainT),
         (''partition_key'', PlainT)]),
      (''kafka'', StructT [(''brokers'', SliceT PlainT), (''group'', PlainT),
         (''topics'', SliceT (StructT [(''name'', PlainT), (''codec'', PlainT)])),
         (''dlq_topic'', PlainT), (''results_topic'', PlainT)]),
      (''limits'', StructT [(''max_message_bytes'', PlainT), (''max_events_per_message'', PlainT),
         (''max_json_depth'', PlainT)]),
      (''ledgers'', MapT (StructT [(''id'', PlainT), (''scale'', PlainT)])),
      (''codes'', MapT PlainT),
      (''retry'', StructT [(''initial'', PlainT), (''max'', PlainT), (''jitter'', PlainT)]),
      (''shutdown_timeout'', PlainT), (''metrics_addr'', PlainT), (''pprof'', PlainT)]"

subsection \<open>Addresses\<close>

fun IndexByte :: "char \<Rightarrow> string \<Rightarrow> nat option" where
  "IndexByte c [] = None"
| "IndexByte c (d # s) = (if d = c then Some 0 else map_option Suc (IndexByte c s))"

definition LastIndexByte :: "char \<Rightarrow> string \<Rightarrow> nat option" where
  "LastIndexByte c s = map_option (\<lambda>k. length s - 1 - k) (IndexByte c (rev s))"

text \<open>\<^verbatim>\<open>net.SplitHostPort\<close>: host and port, or one of its errors, which the caller does not read.\<close>

definition SplitHostPort :: "string \<Rightarrow> (string \<times> string) option" where
  "SplitHostPort s =
     (case LastIndexByte CHR '':'' s of
        None \<Rightarrow> None
      | Some i \<Rightarrow>
          if s ! 0 = CHR ''['' then
            (case IndexByte CHR '']'' s of
               None \<Rightarrow> None
             | Some e \<Rightarrow>
                 if e + 1 \<noteq> i then None
                 else if CHR ''['' \<in> set (drop 1 s) \<or> CHR '']'' \<in> set (drop (e + 1) s) then None
                 else Some (take (e - 1) (drop 1 s), drop (i + 1) s))
          else if CHR '':'' \<in> set (take i s) then None
          else if CHR ''['' \<in> set s \<or> CHR '']'' \<in> set s then None
          else Some (take i s, drop (i + 1) s))"

text \<open>
  Whether \<^verbatim>\<open>net.ParseIP\<close> accepts a text: four decimal fields (value and length of the current
  one and its position are carried along), or eight groups of at most four hexadecimal digits,
  one run of zero groups left out, the last two groups possibly as an IPv4 address; no zone.
\<close>

fun ipv4_fields :: "nat \<Rightarrow> nat \<Rightarrow> nat \<Rightarrow> string \<Rightarrow> bool" where
  "ipv4_fields val digLen pos [] \<longleftrightarrow> pos \<ge> 3"
| "ipv4_fields val digLen pos (c # s) \<longleftrightarrow>
     (if is_digit c then
        \<not> (digLen = 1 \<and> val = 0) \<and> val * 10 + digit_val c \<le> 255 \<and>
        ipv4_fields (val * 10 + digit_val c) (Suc digLen) pos s
      else c = CHR ''.'' \<and> digLen \<noteq> 0 \<and> s \<noteq> [] \<and> pos \<noteq> 3 \<and> ipv4_fields 0 0 (Suc pos) s)"

definition is_hex :: "char \<Rightarrow> bool" where
  "is_hex c \<longleftrightarrow> c \<in> set ''0123456789abcdefABCDEF''"

lemma dropWhile_shorter: "c # r = dropWhile P s \<Longrightarrow> length r < length s"
  by (metis length_Cons length_dropWhile_le less_eq_Suc_le)

function ipv6_groups :: "nat \<Rightarrow> bool \<Rightarrow> string \<Rightarrow> bool" where
  "ipv6_groups i ellipsis s \<longleftrightarrow>
     i < 16 \<and>
     (let h = takeWhile is_hex s; r = dropWhile is_hex s;
          end_ok = (\<lambda>i ellipsis. if i < 16 then ellipsis else \<not> ellipsis)
      in h \<noteq> [] \<and> length h \<le> 4 \<and>
        (case r of
           [] \<Rightarrow> end_ok (i + 2) ellipsis
         | c # r1 \<Rightarrow>
             if c = CHR ''.'' then
               (ellipsis \<or> i = 12) \<and> i + 4 \<le> 16 \<and> ipv4_fields 0 0 0 s \<and> end_ok (i + 4) ellipsis
             else c = CHR '':'' \<and>
               (case r1 of
                  [] \<Rightarrow> False
                | d # r2 \<Rightarrow>
                    if d = CHR '':'' then
                      \<not> ellipsis \<and> (if r2 = [] then end_ok (i + 2) True else ipv6_groups (i + 2) True r2)
                    else ipv6_groups (i + 2) ellipsis r1)))"
  by pat_completeness auto

termination
  by (relation "measure (\<lambda>(i, e, s). length s)") (auto dest: dropWhile_shorter)

declare ipv6_groups.simps [simp del]

definition ParseIP :: "string \<Rightarrow> bool" where
  "ParseIP s \<longleftrightarrow>
     (case dropWhile (\<lambda>c. c \<notin> {CHR ''.'', CHR '':'', CHR ''%''}) s of
        [] \<Rightarrow> False
      | c # _ \<Rightarrow>
          if c = CHR ''.'' then ipv4_fields 0 0 0 s
          else if c = CHR '':'' then
            CHR ''%'' \<notin> set s \<and>
            (if take 2 s = ''::'' then drop 2 s = [] \<or> ipv6_groups 0 True (drop 2 s) else ipv6_groups 0 False s)
          else False)"

datatype address_error = WantPortOrIPPort string | HostnameNotSupported string

definition validateTBAddress :: "string \<Rightarrow> address_error option" where
  "validateTBAddress addr =
     (if ParseUint 16 addr \<noteq> None then None
      else (case SplitHostPort addr of
              None \<Rightarrow> Some (WantPortOrIPPort addr)
            | Some (host, _) \<Rightarrow> if ParseIP host then None else Some (HostnameNotSupported addr)))"

subsection \<open>Validation\<close>

datatype config_error =
    ReadConfigFailed string
  | ParseConfigFailed string
  | UnknownKey string
  | NoAddresses
  | BadAddress address_error
  | BadMaxBatchSize int
  | BadMaxQueue
  | BadLinger int
  | BadMaxInFlight int int
  | BadPollSize int
  | BadCDCBatchSize int
  | BadPollInterval
  | BadPartitionKey string
  | BadMaxEvents
  | MaxEventsAboveBatch int int
  | BadMaxMessageBytes
  | BadMaxJSONDepth
  | NoBrokers
  | NoGroup
  | NoTopics
  | NoDLQTopic
  | EmptyTopicName
  | UnsupportedCodec string string
  | NoLedgers
  | ZeroLedgerID string
  | BadScale string int
  | DuplicateLedgerID u32 string string
  | NoCodes
  | ZeroCode string
  | DuplicateCode u16 string string
  | BadRetry
  | BadShutdownTimeout
  | NoMetricsAddr

definition validate_topic :: "topic_cfg \<Rightarrow> config_error option" where
  "validate_topic t =
     (if topic_Name t = [] then Some EmptyTopicName
      else if topic_Codec t \<noteq> ''json'' then Some (UnsupportedCodec (topic_Name t) (topic_Codec t))
      else None)"

text \<open>
  The two \<^verbatim>\<open>range\<close> loops over the maps have one shape: a check of the entry, then of its number
  against those seen so far. \<open>ks\<close> is the order of the visit.
\<close>

fun validate_numbers ::
    "(string \<Rightarrow> 'v \<Rightarrow> config_error option) \<Rightarrow> ('v \<Rightarrow> 'n) \<Rightarrow> ('n \<Rightarrow> string \<Rightarrow> string \<Rightarrow> config_error) \<Rightarrow>
     (string \<rightharpoonup> 'v) \<Rightarrow> ('n \<rightharpoonup> string) \<Rightarrow> string list \<Rightarrow> config_error option" where
  "validate_numbers check num dup m seen [] = None"
| "validate_numbers check num dup m seen (name # ks) =
     (case m name of
        None \<Rightarrow> validate_numbers check num dup m seen ks
      | Some v \<Rightarrow>
          (case check name v of
             Some e \<Rightarrow> Some e
           | None \<Rightarrow>
               (case seen (num v) of
                  Some prev \<Rightarrow> Some (dup (num v) prev name)
                | None \<Rightarrow> validate_numbers check num dup m (seen(num v \<mapsto> name)) ks)))"

definition ledger_check :: "string \<Rightarrow> ledger \<Rightarrow> config_error option" where
  "ledger_check name l =
     (if ledger_ID l = 0 then Some (ZeroLedgerID name)
      else if Scale l < 0 \<or> Scale l > 18 then Some (BadScale name (Scale l))
      else None)"

definition code_check :: "string \<Rightarrow> u16 \<Rightarrow> config_error option" where
  "code_check name v = (if v = 0 then Some (ZeroCode name) else None)"

definition validate_ledgers :: "(string \<rightharpoonup> ledger) \<Rightarrow> string list \<Rightarrow> config_error option" where
  "validate_ledgers m ks = validate_numbers ledger_check ledger_ID DuplicateLedgerID m Map.empty ks"

definition validate_codes :: "(string \<rightharpoonup> u16) \<Rightarrow> string list \<Rightarrow> config_error option" where
  "validate_codes m ks = validate_numbers code_check (\<lambda>v. v) DuplicateCode m Map.empty ks"

text \<open>Sums of \<^verbatim>\<open>int\<close>s wrap at 64 bits.\<close>

definition in_flight_ceiling :: "config \<Rightarrow> int" where
  "in_flight_ceiling c = int64 (MaxQueue (Batcher c) + B_MaxBatchSize (Batcher c))"

definition validate_settings :: "config \<Rightarrow> config_error option" where
  "validate_settings c =
     (if Addresses (TigerBeetle c) = [] then Some NoAddresses
      else case first_err validateTBAddress (Addresses (TigerBeetle c)) of Some e \<Rightarrow> Some (BadAddress e) | None \<Rightarrow>
      if B_MaxBatchSize (Batcher c) \<le> 0 \<or> B_MaxBatchSize (Batcher c) > MaxBatchSize
        then Some (BadMaxBatchSize (B_MaxBatchSize (Batcher c)))
      else if MaxQueue (Batcher c) \<le> 0 then Some BadMaxQueue
      else if Linger (Batcher c) \<le> 0 then Some (BadLinger (Linger (Batcher c)))
      else if MaxInFlightPerPartition (Sink c) \<le> 0 \<or> MaxInFlightPerPartition (Sink c) > in_flight_ceiling c
        then Some (BadMaxInFlight (in_flight_ceiling c) (MaxInFlightPerPartition (Sink c)))
      else if PollSize (Sink c) \<le> 0 then Some (BadPollSize (PollSize (Sink c)))
      else if BatchSize (CDC c) \<le> 0 \<or> BatchSize (CDC c) > MaxCDCBatchSize
        then Some (BadCDCBatchSize (BatchSize (CDC c)))
      else if PollInterval (CDC c) \<le> 0 then Some BadPollInterval
      else if PartitionKey (CDC c) \<notin> {PartitionKeyDebitAccountID, PartitionKeyCreditAccountID,
           PartitionKeyLedger, PartitionKeyTransferID}
        then Some (BadPartitionKey (PartitionKey (CDC c)))
      else if MaxEventsPerMessage (Limits c) \<le> 0 \<or> MaxEventsPerMessage (Limits c) > MaxBatchSize
        then Some BadMaxEvents
      else if MaxEventsPerMessage (Limits c) > B_MaxBatchSize (Batcher c)
        then Some (MaxEventsAboveBatch (B_MaxBatchSize (Batcher c)) (MaxEventsPerMessage (Limits c)))
      else if MaxMessageBytes (Limits c) \<le> 0 then Some BadMaxMessageBytes
      else if MaxJSONDepth (Limits c) \<le> 0 then Some BadMaxJSONDepth
      else if Brokers (Kafka c) = [] then Some NoBrokers
      else if Group (Kafka c) = [] then Some NoGroup
      else if Topics (Kafka c) = [] then Some NoTopics
      else if DLQTopic (Kafka c) = [] then Some NoDLQTopic
      else first_err validate_topic (Topics (Kafka c)))"

text \<open>\<^verbatim>\<open>validate\<close>; \<open>ls\<close> and \<open>cs\<close> are the orders in which the two maps are visited, so a map is empty when its order is.\<close>

definition validate :: "string list \<Rightarrow> string list \<Rightarrow> config \<Rightarrow> config_error option" where
  "validate ls cs c =
     (case validate_settings c of Some e \<Rightarrow> Some e | None \<Rightarrow>
      if ls = [] then Some NoLedgers
      else case validate_ledgers (Ledgers c) ls of Some e \<Rightarrow> Some e | None \<Rightarrow>
      if cs = [] then Some NoCodes
      else case validate_codes (Codes c) cs of Some e \<Rightarrow> Some e | None \<Rightarrow>
      if Initial (Retry c) \<le> 0 \<or> Max_delay (Retry c) < Initial (Retry c) then Some BadRetry
      else if ShutdownTimeout c \<le> 0 then Some BadShutdownTimeout
      else if MetricsAddr c = [] then Some NoMetricsAddr
      else None)"

subsection \<open>\<^verbatim>\<open>Load\<close>\<close>

text \<open>
  \<open>yaml_tree\<close>: the file as plain maps and lists; \<open>viper_config\<close>: what viper unmarshals from
  the options, the text and the defaults; \<open>yaml_names\<close>: the two tables with their case kept.
\<close>

datatype default_value = IntDefault int | StringDefault string

record 'o load_lib =
  ReadFile :: "string \<Rightarrow> string + string"
  yaml_tree :: "string \<Rightarrow> string + (string \<times> node) list"
  viper_config :: "'o list \<Rightarrow> string \<Rightarrow> (string \<times> default_value) list \<Rightarrow> string + config"
  yaml_names :: "string \<Rightarrow> string + (string \<rightharpoonup> ledger) \<times> (string \<rightharpoonup> u16)"

definition defaults :: "(string \<times> default_value) list" where
  "defaults =
     [(''sink.max_in_flight_per_partition'', IntDefault 0),
      (''batcher.linger'', IntDefault DefaultBatcherLinger),
      (''sink.poll_size'', IntDefault DefaultPollSize),
      (''cdc.batch_size'', IntDefault DefaultCDCBatchSize),
      (''cdc.poll_interval'', IntDefault DefaultCDCPollInterval),
      (''cdc.partition_key'', StringDefault PartitionKeyDebitAccountID)]"

definition clamp_in_flight :: "config \<Rightarrow> config" where
  "clamp_in_flight c =
     (if MaxInFlightPerPartition (Sink c) = 0
      then c\<lparr>Sink := (Sink c)\<lparr>MaxInFlightPerPartition := min DefaultMaxInFlightPerPartition (in_flight_ceiling c)\<rparr>\<rparr>
      else c)"

definition Load ::
    "'o load_lib \<Rightarrow> string list \<Rightarrow> string list \<Rightarrow> string \<Rightarrow> 'o list \<Rightarrow> config_error + config" where
  "Load G ls cs path opts =
     (case ReadFile G path of Inl e \<Rightarrow> Inl (ReadConfigFailed e) | Inr raw \<Rightarrow>
      case yaml_tree G raw of Inl e \<Rightarrow> Inl (ParseConfigFailed e) | Inr tree \<Rightarrow>
      case checkKnownKeys (NMap tree) config_type [] of Some key \<Rightarrow> Inl (UnknownKey key) | None \<Rightarrow>
      case viper_config G opts raw defaults of Inl e \<Rightarrow> Inl (ParseConfigFailed e) | Inr c \<Rightarrow>
      case yaml_names G raw of Inl e \<Rightarrow> Inl (ParseConfigFailed e) | Inr (lgs, cds) \<Rightarrow>
      (let c1 = clamp_in_flight (c\<lparr>Ledgers := lgs, Codes := cds\<rparr>) in
       case validate ls cs c1 of Some e \<Rightarrow> Inl e | None \<Rightarrow> Inr c1))"

subsection \<open>What validation accepts\<close>

text \<open>A chain of checks passes when each does.\<close>

lemma check_None:
  "(if b then Some e else x) = None \<longleftrightarrow> \<not> b \<and> x = None"
  "(case r of None \<Rightarrow> x | Some d \<Rightarrow> Some (f d)) = None \<longleftrightarrow> r = None \<and> x = None"
  "(case o1 of None \<Rightarrow> y | Some e1 \<Rightarrow> Some e1) = None \<longleftrightarrow> o1 = None \<and> y = None"
  by (auto split: option.splits)

lemma validate_numbers_None:
  assumes "distinct ks" and "set ks \<subseteq> dom m"
  shows "validate_numbers check num dup m seen ks = None \<longleftrightarrow>
     (\<forall>k \<in> set ks. check k (the (m k)) = None \<and> seen (num (the (m k))) = None) \<and>
     inj_on (\<lambda>k. num (the (m k))) (set ks)"
  using assms
proof (induction ks arbitrary: seen)
  case (Cons k ks)
  then obtain v where v: "m k = Some v" by auto
  have step: "validate_numbers check num dup m seen (k # ks) = None \<longleftrightarrow>
      check k v = None \<and> seen (num v) = None \<and> validate_numbers check num dup m (seen(num v \<mapsto> k)) ks = None"
    by (simp add: v check_None del: fun_upd_apply)
  have IH: "validate_numbers check num dup m (seen(num v \<mapsto> k)) ks = None \<longleftrightarrow>
      (\<forall>k' \<in> set ks. check k' (the (m k')) = None \<and> (seen(num v \<mapsto> k)) (num (the (m k'))) = None) \<and>
      inj_on (\<lambda>k. num (the (m k))) (set ks)"
    using Cons.prems by (intro Cons.IH) auto
  have seen: "(\<forall>k' \<in> set ks. (seen(num v \<mapsto> k)) (num (the (m k'))) = None) \<longleftrightarrow>
      (\<forall>k' \<in> set ks. seen (num (the (m k'))) = None) \<and> num v \<notin> (\<lambda>k. num (the (m k))) ` set ks"
    by (auto simp: image_iff)
  have "k \<notin> set ks" using Cons.prems(1) by simp
  then show ?case
    unfolding step IH ball_conj_distrib seen by (simp add: v inj_on_insert) blast
qed simp

lemma numbers_unique_inj:
  assumes "enumerates ks m"
  shows "inj_on (\<lambda>k. f (the (m k))) (set ks) \<longleftrightarrow> numbers_unique m f"
proof -
  have in_ks: "k \<in> set ks \<longleftrightarrow> (\<exists>v. m k = Some v)" for k using assms by (auto simp: enumerates_def)
  show ?thesis
  proof
    assume inj: "inj_on (\<lambda>k. f (the (m k))) (set ks)"
    show "numbers_unique m f"
      unfolding numbers_unique_def
    proof (intro allI impI)
      fix k k' v v'
      assume "m k = Some v" "m k' = Some v'" "f v = f v'"
      then show "k = k'" using inj_onD [OF inj, of k k'] in_ks by simp
    qed
  next
    assume "numbers_unique m f"
    then show "inj_on (\<lambda>k. f (the (m k))) (set ks)"
      unfolding numbers_unique_def by (intro inj_onI) (auto simp: in_ks)
  qed
qed

lemma validate_numbers_enumerated:
  assumes "enumerates ks m"
  shows "validate_numbers check num dup m Map.empty ks = None \<longleftrightarrow>
     (\<forall>k v. m k = Some v \<longrightarrow> check k v = None) \<and> numbers_unique m num"
proof -
  have "(\<forall>k \<in> set ks. check k (the (m k)) = None) \<longleftrightarrow> (\<forall>k v. m k = Some v \<longrightarrow> check k v = None)"
    using assms unfolding enumerates_def by (metis domI domIff option.collapse option.sel)
  then show ?thesis
    using assms numbers_unique_inj [OF assms, of num]
    by (subst validate_numbers_None) (auto simp: enumerates_def)
qed

definition settings_ok :: "config \<Rightarrow> bool" where
  "settings_ok c \<longleftrightarrow>
     Addresses (TigerBeetle c) \<noteq> [] \<and> (\<forall>a \<in> set (Addresses (TigerBeetle c)). validateTBAddress a = None) \<and>
     B_MaxBatchSize (Batcher c) \<in> {1..MaxBatchSize} \<and> 0 < MaxQueue (Batcher c) \<and> 0 < Linger (Batcher c) \<and>
     MaxInFlightPerPartition (Sink c) \<in> {1..in_flight_ceiling c} \<and> 0 < PollSize (Sink c) \<and>
     BatchSize (CDC c) \<in> {1..MaxCDCBatchSize} \<and> 0 < PollInterval (CDC c) \<and>
     PartitionKey (CDC c) \<in> {PartitionKeyDebitAccountID, PartitionKeyCreditAccountID, PartitionKeyLedger, PartitionKeyTransferID} \<and>
     MaxEventsPerMessage (Limits c) \<in> {1..B_MaxBatchSize (Batcher c)} \<and>
     0 < MaxMessageBytes (Limits c) \<and> 0 < MaxJSONDepth (Limits c) \<and>
     Brokers (Kafka c) \<noteq> [] \<and> Group (Kafka c) \<noteq> [] \<and> Topics (Kafka c) \<noteq> [] \<and> DLQTopic (Kafka c) \<noteq> [] \<and>
     (\<forall>t \<in> set (Topics (Kafka c)). topic_Name t \<noteq> [] \<and> topic_Codec t = ''json'')"

definition tables_ok :: "config \<Rightarrow> bool" where
  "tables_ok c \<longleftrightarrow>
     dom (Ledgers c) \<noteq> {} \<and> numbers_unique (Ledgers c) ledger_ID \<and>
     (\<forall>n l. Ledgers c n = Some l \<longrightarrow> ledger_ID l \<noteq> 0 \<and> 0 \<le> Scale l \<and> Scale l \<le> 18) \<and>
     dom (Codes c) \<noteq> {} \<and> numbers_unique (Codes c) (\<lambda>v. v) \<and> (\<forall>n v. Codes c n = Some v \<longrightarrow> v \<noteq> 0)"

lemma not_outside: "\<not> (x \<le> 0 \<or> x > m) \<longleftrightarrow> x \<in> {1..m}" for x m :: int
  by auto

lemma validate_settings_None: "validate_settings c = None \<longleftrightarrow> settings_ok c"
  unfolding validate_settings_def check_None first_err_None validate_topic_def settings_ok_def not_outside
    not_le not_less not_not
  by (rule iffI; elim conjE; intro conjI; (assumption | simp))

lemma enumerates_Nil: "enumerates ks m \<Longrightarrow> ks = [] \<longleftrightarrow> dom m = {}"
  unfolding enumerates_def by (metis set_empty)

lemma validate_None:
  assumes "enumerates ls (Ledgers c)" and "enumerates cs (Codes c)"
  shows "validate ls cs c = None \<longleftrightarrow> settings_ok c \<and> tables_ok c \<and>
     0 < Initial (Retry c) \<and> Initial (Retry c) \<le> Max_delay (Retry c) \<and> 0 < ShutdownTimeout c \<and> MetricsAddr c \<noteq> []"
proof -
  have "validate_ledgers (Ledgers c) ls = None \<longleftrightarrow>
      (\<forall>n l. Ledgers c n = Some l \<longrightarrow> ledger_ID l \<noteq> 0 \<and> 0 \<le> Scale l \<and> Scale l \<le> 18) \<and> numbers_unique (Ledgers c) ledger_ID"
    using assms(1) unfolding validate_ledgers_def validate_numbers_enumerated [OF assms(1)] ledger_check_def check_None
    by (auto simp: not_less)
  moreover have "validate_codes (Codes c) cs = None \<longleftrightarrow>
      (\<forall>n v. Codes c n = Some v \<longrightarrow> v \<noteq> 0) \<and> numbers_unique (Codes c) (\<lambda>v. v)"
    unfolding validate_codes_def validate_numbers_enumerated [OF assms(2)] code_check_def check_None by auto
  ultimately show ?thesis
    unfolding validate_def check_None validate_settings_None enumerates_Nil [OF assms(1)] enumerates_Nil [OF assms(2)]
      tables_ok_def
    by (auto simp: not_le not_less)
qed

subsection \<open>What the key check refuses\<close>

text \<open>The keys of a tree that the type has no field for, at any depth, with their paths.\<close>

inductive unknown_key :: "node \<Rightarrow> go_type \<Rightarrow> string \<Rightarrow> string \<Rightarrow> bool" where
  here: "(k, v) \<in> set m \<Longrightarrow> struct_fields fs k = None \<Longrightarrow> unknown_key (NMap m) (StructT fs) path (joinPath path k)"
| field: "(k, v) \<in> set m \<Longrightarrow> struct_fields fs k = Some t \<Longrightarrow> unknown_key v t (joinPath path k) p \<Longrightarrow>
     unknown_key (NMap m) (StructT fs) path p"
| entry: "(k, v) \<in> set m \<Longrightarrow> unknown_key v t (joinPath path k) p \<Longrightarrow> unknown_key (NMap m) (MapT t) path p"
| item: "i < length s \<Longrightarrow> unknown_key (s ! i) t (indexPath path i) p \<Longrightarrow> unknown_key (NSeq s) (SliceT t) path p"
| pointer: "unknown_key n t path p \<Longrightarrow> unknown_key n (PointerT t) path p"

inductive_simps unknown_key_simps:
  "unknown_key n (StructT fs) path p" "unknown_key n (MapT t) path p" "unknown_key n (SliceT t) path p"
  "unknown_key n (PointerT t) path p" "unknown_key n PlainT path p"

lemma unknown_struct:
  "unknown_key (NMap m) (StructT fs) path p \<longleftrightarrow> (\<exists>(k, v) \<in> set m. case struct_fields fs k of
     None \<Rightarrow> p = joinPath path k | Some t \<Rightarrow> unknown_key v t (joinPath path k) p)"
  by (force simp: unknown_key_simps split: option.splits)

lemma unknown_map:
  "unknown_key (NMap m) (MapT t) path p \<longleftrightarrow> (\<exists>(k, v) \<in> set m. unknown_key v t (joinPath path k) p)"
  by (auto simp: unknown_key_simps)

lemma unknown_slice:
  "unknown_key (NSeq s) (SliceT t) path p \<longleftrightarrow> (\<exists>i < length s. unknown_key (s ! i) t (indexPath path i) p)"
  by (auto simp: unknown_key_simps)

text \<open>A found error is in the set, and no error leaves the set empty.\<close>

abbreviation reports :: "string option \<Rightarrow> (string \<Rightarrow> bool) \<Rightarrow> bool" where
  "reports r U \<equiv> (case r of Some p \<Rightarrow> U p | None \<Rightarrow> (\<forall>p. \<not> U p))"

lemma checkKnownKeys_reports:
  "reports (checkKnownKeys n t path) (unknown_key n t path)"
  "reports (check_struct m known path) (\<lambda>p. \<exists>(k, v) \<in> set m. case known k of None \<Rightarrow> p = joinPath path k
     | Some t \<Rightarrow> unknown_key v t (joinPath path k) p)"
  "reports (check_map m t path) (\<lambda>p. \<exists>(k, v) \<in> set m. unknown_key v t (joinPath path k) p)"
  "reports (check_slice i s t path) (\<lambda>p. \<exists>j < length s. unknown_key (s ! j) t (indexPath path (i + j)) p)"
proof (induction n t path and m known path and m t path and i s t path
    rule: checkKnownKeys_check_struct_check_map_check_slice.induct)
  case (2 n fs path)
  show ?case
  proof (cases n)
    case (NMap m)
    have eq: "unknown_key (NMap m) (StructT fs) path = (\<lambda>p. \<exists>(k, v) \<in> set m. case struct_fields fs k of
        None \<Rightarrow> p = joinPath path k | Some t \<Rightarrow> unknown_key v t (joinPath path k) p)"
      by (rule ext) (rule unknown_struct)
    from 2 [OF NMap] show ?thesis unfolding NMap checkKnownKeys.simps node.case eq .
  qed (simp_all add: unknown_key_simps)
next
  case (3 n t path)
  show ?case
  proof (cases n)
    case (NMap m)
    have eq: "unknown_key (NMap m) (MapT t) path = (\<lambda>p. \<exists>(k, v) \<in> set m. unknown_key v t (joinPath path k) p)"
      by (rule ext) (rule unknown_map)
    from 3 [OF NMap] show ?thesis unfolding NMap checkKnownKeys.simps node.case eq .
  qed (simp_all add: unknown_key_simps)
next
  case (7 k v m known path)
  show ?case
  proof (cases "known k")
    case (Some t)
    then show ?thesis using 7 by (cases "checkKnownKeys v t (joinPath path k)"; cases "check_struct m known path") simp_all
  qed simp
next
  case (11 i v s t path)
  have "(\<exists>j < length (v # s). unknown_key ((v # s) ! j) t (indexPath path (i + j)) p) \<longleftrightarrow>
      unknown_key v t (indexPath path i) p \<or> (\<exists>j < length s. unknown_key (s ! j) t (indexPath path (Suc i + j)) p)" for p
    by (auto simp: less_Suc_eq_0_disj)
  with 11 show ?case by (auto split: option.splits)
qed (auto simp: unknown_key_simps unknown_map unknown_slice split: option.splits node.splits)

subsection \<open>Properties\<close>

text \<open>
  C37: a misspelt key never passes silently: the check of the file's keys succeeds exactly when
  no key, at any depth, in a struct, a map's value or a list's item, is without a field in
  \<^verbatim>\<open>Config\<close>; and the key it reports is one of those, with its whole path.
\<close>

theorem unknown_keys_are_reported:
  "case checkKnownKeys n t path of
     Some key \<Rightarrow> unknown_key n t path key
   | None \<Rightarrow> \<not> (\<exists>key. unknown_key n t path key)"
  using checkKnownKeys_reports(1) [of n t path] by (auto split: option.splits)

text \<open>
  C36: what \<^verbatim>\<open>validate\<close> accepts does not depend on the order of its two map loops: it accepts
  exactly the configurations whose settings are all in range, whose ledger ids and codes are
  non-zero and pairwise different, and whose scales are 0 to 18.
\<close>

theorem validate_accepts_exactly:
  assumes "enumerates ls (Ledgers c)" and "enumerates cs (Codes c)"
  shows "validate ls cs c = None \<longleftrightarrow> settings_ok c \<and> tables_ok c \<and>
     0 < Initial (Retry c) \<and> Initial (Retry c) \<le> Max_delay (Retry c) \<and> 0 < ShutdownTimeout c \<and> MetricsAddr c \<noteq> []"
  by (rule validate_None [OF assms])

text \<open>
  A bound the author left out is never the reason for a refusal: when the in-flight bound is
  absent and the queue and the batch do not overflow an \<^verbatim>\<open>int\<close>, a configuration that would be
  accepted with some bound is accepted with the default, which is 1000 or what the batcher can
  hold when that is less.
\<close>

theorem absent_in_flight_bound_is_accepted:
  assumes "enumerates ls (Ledgers c)" and "enumerates cs (Codes c)"
    and "MaxInFlightPerPartition (Sink c) = 0" and "MaxQueue (Batcher c) + B_MaxBatchSize (Batcher c) < 2 ^ 63"
    and "validate ls cs (c\<lparr>Sink := (Sink c)\<lparr>MaxInFlightPerPartition := n\<rparr>\<rparr>) = None"
  shows "validate ls cs (clamp_in_flight c) = None \<and>
    MaxInFlightPerPartition (Sink (clamp_in_flight c)) = min 1000 (MaxQueue (Batcher c) + B_MaxBatchSize (Batcher c))"
proof -
  let ?n = "c\<lparr>Sink := (Sink c)\<lparr>MaxInFlightPerPartition := n\<rparr>\<rparr>"
  let ?d = "clamp_in_flight c"
  have enum: "enumerates ls (Ledgers ?n)" "enumerates cs (Codes ?n)" "enumerates ls (Ledgers ?d)" "enumerates cs (Codes ?d)"
    using assms(1,2) by (simp_all add: clamp_in_flight_def)
  have n: "settings_ok ?n" "tables_ok ?n"
    "0 < Initial (Retry c)" "Initial (Retry c) \<le> Max_delay (Retry c)" "0 < ShutdownTimeout c" "MetricsAddr c \<noteq> []"
    using assms(5) unfolding validate_None [OF enum(1,2)] by auto
  have pos: "0 < MaxQueue (Batcher c)" "0 < B_MaxBatchSize (Batcher c)"
    using n(1) unfolding settings_ok_def by auto
  have sum: "int64 (MaxQueue (Batcher c) + B_MaxBatchSize (Batcher c)) = MaxQueue (Batcher c) + B_MaxBatchSize (Batcher c)"
    using pos assms(4) by (intro int64_id) auto
  have "settings_ok ?d"
    using n(1) sum pos assms(3)
    by (simp add: settings_ok_def clamp_in_flight_def in_flight_ceiling_def DefaultMaxInFlightPerPartition_def)
  moreover have "tables_ok ?d" using n(2) by (simp add: tables_ok_def clamp_in_flight_def)
  ultimately have "validate ls cs ?d = None"
    using n(3-6) unfolding validate_None [OF enum(3,4)] by (simp add: clamp_in_flight_def)
  then show ?thesis
    using assms(3) sum by (simp add: clamp_in_flight_def in_flight_ceiling_def DefaultMaxInFlightPerPartition_def)
qed

subsection \<open>Witnesses\<close>

lemma sample_enumerates:
  "enumerates [''USD'', ''BTC''] (Ledgers sample_config)" "enumerates [''payment''] (Codes sample_config)"
  by (auto simp: enumerates_def sample_config_def)

lemma sample_address: "validateTBAddress ''3000'' = None"
  by (simp add: validateTBAddress_def ParseUint_def is_digit_def dec_val_def digit_val_def)

lemma sample_ok:
  "settings_ok sample_config" "tables_ok sample_config"
  "0 < Initial (Retry sample_config)" "Initial (Retry sample_config) \<le> Max_delay (Retry sample_config)"
  "0 < ShutdownTimeout sample_config" "MetricsAddr sample_config \<noteq> []"
  by (auto simp: settings_ok_def tables_ok_def numbers_unique_def sample_config_def sample_address config_constants
      in_flight_ceiling_def int64_id split: if_splits)

theorem validate_accepts_exactly_witness:
  "validate [''USD'', ''BTC''] [''payment''] sample_config = None"
  using validate_accepts_exactly [OF sample_enumerates] sample_ok by blast

theorem absent_in_flight_bound_is_accepted_witness:
  "validate [''USD'', ''BTC''] [''payment'']
     (clamp_in_flight (sample_config\<lparr>Sink := \<lparr> MaxInFlightPerPartition = 0, PollSize = 10 \<rparr>,
        Batcher := \<lparr> B_MaxBatchSize = 8189, Linger = 1, MaxQueue = 5 \<rparr>\<rparr>)) = None"
proof -
  let ?c = "sample_config\<lparr>Sink := \<lparr> MaxInFlightPerPartition = 0, PollSize = 10 \<rparr>,
        Batcher := \<lparr> B_MaxBatchSize = 8189, Linger = 1, MaxQueue = 5 \<rparr>\<rparr>"
  let ?d = "?c\<lparr>Sink := (Sink ?c)\<lparr>MaxInFlightPerPartition := 7\<rparr>\<rparr>"
  have enum: "enumerates [''USD'', ''BTC''] (Ledgers ?d)" "enumerates [''payment''] (Codes ?d)"
    using sample_enumerates by simp_all
  have "settings_ok ?d" using sample_ok(1)
    by (simp add: settings_ok_def sample_config_def in_flight_ceiling_def int64_id)
  then have "validate [''USD'', ''BTC''] [''payment''] ?d = None"
    unfolding validate_None [OF enum] using sample_ok(2-6) by (simp add: tables_ok_def)
  then show ?thesis
    using absent_in_flight_bound_is_accepted [of "[''USD'', ''BTC'']" ?c "[''payment'']" 7] sample_enumerates by simp
qed

text \<open>
  \<^verbatim>\<open>validateTBAddress\<close> reads the host and not the port: any text after the colon passes.
\<close>

lemma port_is_not_checked: "validateTBAddress ''127.0.0.1:http'' = None" "validateTBAddress ''127.0.0.1:'' = None"
  by code_simp+

end
