(* ===== verification/TB_Api.thy ===== *)
theory TB_Api
  imports Prelude
begin

section \<open>The third-party interfaces the program is written against\<close>

text \<open>
  The TigerBeetle Go client (\<^verbatim>\<open>github.com/tigerbeetle/tigerbeetle-go\<close>, imported as
  \<^verbatim>\<open>types\<close>) and \<^verbatim>\<open>github.com/google/uuid\<close> are not part of the repository, so they are
  parameters: records of functions that the definitions of the other theories take as an
  argument. What the code relies on is stated as predicates (\<open>u128_ok\<close>, \<open>uuid_ok\<close>,
  \<open>flags_ok\<close>) over these records, and a property that needs one names it as a hypothesis.
  At the end of the theory each record gets one concrete instance at which the witnesses
  evaluate.
\<close>

subsection \<open>\<^verbatim>\<open>types.Uint128\<close>\<close>

text \<open>
  The operations on \<^verbatim>\<open>types.Uint128\<close> that the code calls. \<open>Uint64\<close> returns the low and the
  high half; \<open>Bytes\<close> and \<open>BytesToUint128\<close> expose the 16 bytes.
\<close>

record 'u u128_api =
  ToUint128 :: "u64 \<Rightarrow> 'u"
  BigIntToUint128 :: "int \<Rightarrow> 'u"
  BigInt :: "'u \<Rightarrow> int"
  Uint64 :: "'u \<Rightarrow> u64 \<times> u64"
  BytesToUint128 :: "u8 list \<Rightarrow> 'u"
  Bytes :: "'u \<Rightarrow> u8 list"

definition u128_ok :: "'u u128_api \<Rightarrow> bool" where
  "u128_ok L \<longleftrightarrow>
     (\<forall>v. BigInt L (ToUint128 L v) = uint v) \<and>
     (\<forall>b. 0 \<le> b \<longrightarrow> b < 2 ^ 128 \<longrightarrow> BigInt L (BigIntToUint128 L b) = b) \<and>
     (\<forall>u. 0 \<le> BigInt L u \<and> BigInt L u < 2 ^ 128) \<and>
     (\<forall>u v. BigInt L u = BigInt L v \<longrightarrow> u = v) \<and>
     (\<forall>u. BigInt L u = uint (snd (Uint64 L u)) * 2 ^ 64 + uint (fst (Uint64 L u))) \<and>
     (\<forall>u. length (Bytes L u) = 16 \<and> BytesToUint128 L (Bytes L u) = u) \<and>
     (\<forall>bs. length bs = 16 \<longrightarrow> Bytes L (BytesToUint128 L bs) = bs)"

named_theorems u128_laws \<open>what \<open>u128_ok\<close> gives\<close>

lemma u128_to_big [u128_laws]: "u128_ok L \<Longrightarrow> BigInt L (ToUint128 L v) = uint v"
  unfolding u128_ok_def by blast

lemma u128_of_big [u128_laws]:
  "u128_ok L \<Longrightarrow> 0 \<le> b \<Longrightarrow> b < 2 ^ 128 \<Longrightarrow> BigInt L (BigIntToUint128 L b) = b"
  unfolding u128_ok_def by blast

lemma u128_range: "u128_ok L \<Longrightarrow> 0 \<le> BigInt L u \<and> BigInt L u < 2 ^ 128"
  unfolding u128_ok_def by blast

lemma u128_eqI: "u128_ok L \<Longrightarrow> BigInt L u = BigInt L v \<Longrightarrow> u = v"
  unfolding u128_ok_def by blast

lemma u128_halves:
  "u128_ok L \<Longrightarrow> Uint64 L u = (lo, hi) \<Longrightarrow> BigInt L u = uint hi * 2 ^ 64 + uint lo"
  unfolding u128_ok_def by (metis fst_conv snd_conv)

lemma u128_bytes [u128_laws]:
  "u128_ok L \<Longrightarrow> BytesToUint128 L (Bytes L u) = u"
  "u128_ok L \<Longrightarrow> length (Bytes L u) = 16"
  "u128_ok L \<Longrightarrow> length bs = 16 \<Longrightarrow> Bytes L (BytesToUint128 L bs) = bs"
  by (simp_all add: u128_ok_def)

lemma u128_of_big_to_big [u128_laws]:
  "u128_ok L \<Longrightarrow> BigIntToUint128 L (BigInt L u) = u"
  using u128_range [of L u] by (blast intro: u128_eqI u128_of_big)

lemma u128_to_eq_of_big [u128_laws]:
  "u128_ok L \<Longrightarrow> BigIntToUint128 L (uint v) = ToUint128 L v"
proof (rule u128_eqI)
  assume ok: "u128_ok L"
  have "uint v < 2 ^ 64" using uint_lt2p [of v] by simp
  then have "uint v < 2 ^ 128" by simp
  then show "BigInt L (BigIntToUint128 L (uint v)) = BigInt L (ToUint128 L v)"
    using ok by (simp add: u128_of_big u128_to_big)
qed

subsection \<open>\<^verbatim>\<open>github.com/google/uuid\<close>\<close>

text \<open>
  \<^verbatim>\<open>uuid.Parse\<close> gives the 16 bytes or an error text, \<^verbatim>\<open>UUID.String\<close> the canonical form.
\<close>

record uuid_api =
  uuid_Parse :: "string \<Rightarrow> string + u8 list"
  uuid_String :: "u8 list \<Rightarrow> string"

definition uuid_ok :: "uuid_api \<Rightarrow> bool" where
  "uuid_ok U \<longleftrightarrow>
     (\<forall>s bs. uuid_Parse U s = Inr bs \<longrightarrow> length bs = 16) \<and>
     (\<forall>bs. length bs = 16 \<longrightarrow> uuid_Parse U (uuid_String U bs) = Inr bs)"

lemma uuid_parse_length: "uuid_ok U \<Longrightarrow> uuid_Parse U s = Inr bs \<Longrightarrow> length bs = 16"
  by (simp add: uuid_ok_def)

lemma uuid_parse_string: "uuid_ok U \<Longrightarrow> length bs = 16 \<Longrightarrow> uuid_Parse U (uuid_String U bs) = Inr bs"
  by (simp add: uuid_ok_def)

subsection \<open>Events and results of the TigerBeetle client\<close>

text \<open>
  \<^verbatim>\<open>types.Transfer\<close> and \<^verbatim>\<open>types.Account\<close>, with the fields the repository reads or writes, over
  the type \<open>'u\<close> of \<^verbatim>\<open>types.Uint128\<close>.
\<close>

record 'u transfer =
  t_ID :: 'u
  t_DebitAccountID :: 'u
  t_CreditAccountID :: 'u
  t_Amount :: 'u
  t_PendingID :: 'u
  t_UserData128 :: 'u
  t_UserData64 :: u64
  t_UserData32 :: u32
  t_Timeout :: u32
  t_Ledger :: u32
  t_Code :: u16
  t_Flags :: u16

record 'u account =
  a_ID :: 'u
  a_UserData128 :: 'u
  a_UserData64 :: u64
  a_UserData32 :: u32
  a_Ledger :: u32
  a_Code :: u16
  a_Flags :: u16

text \<open>
  \<^verbatim>\<open>types.CreateTransferResult\<close> and \<^verbatim>\<open>types.CreateAccountResult\<close> over the type of their
  status enumeration, and what the code uses of such an enumeration: the two success values
  and \<^verbatim>\<open>String\<close>.
\<close>

record 'st create_result =
  r_Timestamp :: u64
  r_Status :: 'st

record 'st status_api =
  Created :: 'st
  Exists :: 'st
  status_String :: "'st \<Rightarrow> string"

subsection \<open>Instances for the witnesses\<close>

text \<open>
  Little-endian bytes of a 128-bit word, as the client library lays them out, and the
  corresponding \<open>u128_api\<close>.
\<close>

definition le_bytes :: "128 word \<Rightarrow> u8 list" where
  "le_bytes w = map (\<lambda>i. ucast (drop_bit (8 * i) w)) [0..<16]"

definition le_value :: "u8 list \<Rightarrow> 128 word" where
  "le_value bs = word_of_int (horner_sum uint (2 ^ LENGTH(8)) bs)"

definition word_u128 :: "128 word u128_api" where
  "word_u128 = \<lparr>
     ToUint128 = ucast,
     BigIntToUint128 = word_of_int,
     BigInt = uint,
     Uint64 = (\<lambda>w. (ucast w, ucast (drop_bit 64 w))),
     BytesToUint128 = le_value,
     Bytes = le_bytes \<rparr>"

lemma le_bytes_length [simp]: "length (le_bytes w) = 16"
  by (simp add: le_bytes_def)

lemma bit_le_value:
  "bit (le_value bs) n \<longleftrightarrow> n < 128 \<and> n div 8 < length bs \<and> bit (bs ! (n div 8)) (n mod 8)"
  unfolding le_value_def bit_word_of_int_iff bit_horner_sum_uint_exp_iff by auto

lemma le_value_bytes [simp]: "le_value (le_bytes w) = w"
proof (rule bit_word_eqI)
  fix n assume n: "n < LENGTH(128)"
  then have "n div 8 < 16" by simp
  then have "bit (le_bytes w ! (n div 8)) (n mod 8) = bit w (8 * (n div 8) + n mod 8)"
    by (simp add: le_bytes_def bit_ucast_iff bit_drop_bit_eq del: mult_div_mod_eq)
  then show "bit (le_value (le_bytes w)) n = bit w n"
    using n \<open>n div 8 < 16\<close> by (simp add: bit_le_value)
qed

lemma le_bytes_value [simp]:
  assumes "length bs = 16"
  shows "le_bytes (le_value bs) = bs"
proof (rule nth_equalityI)
  fix i assume "i < length (le_bytes (le_value bs))"
  then have i: "i < 16" by simp
  show "le_bytes (le_value bs) ! i = bs ! i"
  proof (rule bit_word_eqI)
    fix n assume "n < LENGTH(8)"
    then have n: "n < 8" by simp
    with i have "8 * i + n < 128" and "(8 * i + n) div 8 = i" and "(8 * i + n) mod 8 = n"
      by auto
    then show "bit (le_bytes (le_value bs) ! i) n = bit (bs ! i) n"
      using i n assms
      by (simp add: le_bytes_def bit_ucast_iff bit_drop_bit_eq bit_le_value)
  qed
qed (simp add: assms)

lemma word_u128_ok: "u128_ok word_u128"
proof -
  have halves: "uint u = uint (ucast (drop_bit 64 u) :: u64) * 2 ^ 64 + uint (ucast u :: u64)"
    for u :: "128 word"
  proof -
    have "uint u < 2 ^ 128" using uint_lt2p [of u] by simp
    then have "uint u div 2 ^ 64 < 2 ^ 64" by simp
    then have "uint u div 2 ^ 64 mod 2 ^ 64 = uint u div 2 ^ 64"
      by (intro mod_pos_pos_trivial) (simp_all add: pos_imp_zdiv_nonneg_iff)
    then have "uint (ucast (drop_bit 64 u) :: u64) = uint u div 2 ^ 64"
      by (simp add: unsigned_ucast_eq unsigned_drop_bit_eq drop_bit_eq_div take_bit_eq_mod
          uint_div)
    moreover have "uint (ucast u :: u64) = uint u mod 2 ^ 64"
      by (simp add: unsigned_ucast_eq take_bit_eq_mod)
    ultimately show ?thesis by simp
  qed
  have "uint (ucast v :: 128 word) = uint v" for v :: u64
    by (simp add: unsigned_ucast_eq take_bit_int_eq_self_iff order_less_trans [OF uint_lt2p])
  moreover have "uint (word_of_int b :: 128 word) = b" if "0 \<le> b" "b < 2 ^ 128" for b
    using that by (simp add: uint_word_of_int)
  moreover have "uint u < 2 ^ 128" for u :: "128 word"
    using uint_lt2p [of u] by simp
  moreover have "uint u = uint v \<longrightarrow> u = v" for u v :: "128 word"
    by (simp add: word_uint_eq_iff)
  ultimately show ?thesis
    unfolding u128_ok_def word_u128_def u128_api.simps fst_conv snd_conv
    using halves by auto
qed

end
