(* ===== verification/Ids.thy ===== *)
theory Ids
  imports TB_Api
begin

section \<open>Identifiers: \<^verbatim>\<open>internal/model/id.go\<close>\<close>

text \<open>UUID strings to and from 128-bit ids; the UUID library and \<^verbatim>\<open>types.Uint128\<close> are parameters.\<close>

datatype id_error = ParseIDError string string | ErrZeroID

definition zero_bytes :: "u8 list" where
  "zero_bytes = replicate 16 0"

definition ParseID :: "'u u128_api \<Rightarrow> uuid_api \<Rightarrow> string \<Rightarrow> id_error + 'u" where
  "ParseID L U s =
     (case uuid_Parse U s of
        Inl err \<Rightarrow> Inl (ParseIDError s err)
      | Inr u \<Rightarrow> if u = zero_bytes then Inl ErrZeroID else Inr (BytesToUint128 L u))"

definition FormatID :: "'u u128_api \<Rightarrow> uuid_api \<Rightarrow> 'u \<Rightarrow> string" where
  "FormatID L U u = uuid_String U (Bytes L u)"

text \<open>The Go value \<^verbatim>\<open>types.Uint128{}\<close>.\<close>

definition zero_id :: "'u u128_api \<Rightarrow> 'u" where
  "zero_id L = BytesToUint128 L zero_bytes"

lemma zero_bytes_length [simp]: "length zero_bytes = 16"
  by (simp add: zero_bytes_def)

lemma Bytes_zero: "u128_ok L \<Longrightarrow> Bytes L u = zero_bytes \<longleftrightarrow> u = zero_id L"
  by (metis u128_bytes(1,3) zero_bytes_length zero_id_def)

lemma ParseID_FormatID:
  assumes "u128_ok L" and "uuid_ok U"
  shows "ParseID L U (FormatID L U u) = (if u = zero_id L then Inl ErrZeroID else Inr u)"
  using assms by (simp add: ParseID_def FormatID_def uuid_parse_string u128_bytes Bytes_zero)

lemma ParseID_nonzero:
  assumes "u128_ok L" and "uuid_ok U" and "ParseID L U s = Inr u"
  shows "u \<noteq> zero_id L" and "uuid_Parse U s = Inr (Bytes L u)"
proof -
  obtain bs where bs: "uuid_Parse U s = Inr bs" "bs \<noteq> zero_bytes" "u = BytesToUint128 L bs"
    using assms(3) by (auto simp: ParseID_def split: sum.splits if_splits)
  have "length bs = 16" using uuid_parse_length [OF assms(2) bs(1)] .
  then have "Bytes L u = bs" using assms(1) bs(3) by (simp add: u128_bytes)
  then show "u \<noteq> zero_id L" and "uuid_Parse U s = Inr (Bytes L u)"
    using bs Bytes_zero [OF assms(1), of u] by auto
qed

lemma FormatID_inj: "u128_ok L \<Longrightarrow> uuid_ok U \<Longrightarrow> FormatID L U u = FormatID L U v \<longleftrightarrow> u = v"
  by (metis FormatID_def u128_bytes(1,2) uuid_parse_string sum.inject(2))

text \<open>
  Ids survive both directions: a non-zero id formatted is parsed back to itself, the zero
  id is refused, and an accepted text, canonical or not, denotes a non-zero id whose canonical
  text is the only one printed for it and denotes it again.
\<close>

theorem id_round_trip:
  assumes "u128_ok L" and "uuid_ok U"
  shows "(u \<noteq> zero_id L \<longrightarrow> ParseID L U (FormatID L U u) = Inr u) \<and>
     ParseID L U (FormatID L U (zero_id L)) = Inl ErrZeroID \<and>
     (ParseID L U s = Inr v \<longrightarrow> v \<noteq> zero_id L \<and> ParseID L U (FormatID L U v) = Inr v \<and>
        (FormatID L U u = FormatID L U v \<longleftrightarrow> u = v))"
  using ParseID_FormatID [OF assms] ParseID_nonzero(1) [OF assms] FormatID_inj [OF assms] by auto

text \<open>A UUID library for the witnesses: the text is the bytes.\<close>

definition raw_uuid :: uuid_api where
  "raw_uuid = \<lparr>
     uuid_Parse = (\<lambda>s. if length s = 16 then Inr (map of_char s) else Inl ''invalid UUID length''),
     uuid_String = map (\<lambda>b. char_of (unat b)) \<rparr>"

lemma raw_uuid_ok: "uuid_ok raw_uuid"
proof -
  have "(of_char (char_of (unat (b :: u8))) :: u8) = b" for b
  proof -
    have "unat b < 256" using unsigned_less [of b, where 'a = nat] by simp
    then have nat: "of_char (char_of (unat b)) = unat b" by simp
    have "(of_char (char_of (unat b)) :: u8) = of_nat (of_char (char_of (unat b)))" by (simp only: of_nat_of_char)
    also have "\<dots> = b" unfolding nat by simp
    finally show ?thesis .
  qed
  then show ?thesis by (simp add: uuid_ok_def raw_uuid_def o_def)
qed

theorem id_round_trip_witness:
  "ParseID word_u128 raw_uuid (FormatID word_u128 raw_uuid 7) = Inr 7"
proof -
  have "Bytes word_u128 7 \<noteq> zero_bytes" by code_simp
  then have "7 \<noteq> zero_id word_u128" using Bytes_zero [OF word_u128_ok] by blast
  then show ?thesis using id_round_trip [OF word_u128_ok raw_uuid_ok, of 7] by blast
qed

end
