(* ===== verification/Amount.thy ===== *)
theory Amount
  imports TB_Api
begin

section \<open>Amounts: \<^verbatim>\<open>internal/model/amount.go\<close>\<close>

text \<open>
  Decimal strings to minor units and back. Both directions have a 64-bit fast path and a
  big-integer path; the model keeps both, with \<open>uint64\<close> arithmetic that wraps, and the
  lemmas show that the fast paths never wrap and never change a result.
\<close>

subsection \<open>Tables and errors\<close>

text \<open>The two power tables that \<^verbatim>\<open>init\<close> fills; entry \<open>i\<close> is computed from entry \<open>i - 1\<close>.\<close>

primrec pow10u64_entry :: "nat \<Rightarrow> u64" where
  "pow10u64_entry 0 = 1"
| "pow10u64_entry (Suc i) = pow10u64_entry i * 10"

definition pow10u64 :: "u64 list" where
  "pow10u64 = map pow10u64_entry [0..<19]"

definition pow10 :: "int list" where
  "pow10 = map (\<lambda>i. 10 ^ i) [0..<19]"

definition maxU128 :: int where
  "maxU128 = 2 ^ 128 - 1"

definition maxUint64 :: u64 where
  "maxUint64 = - 1"

text \<open>One constructor per error text of the file; the arguments are those of the text.\<close>

datatype amount_error =
    UnsupportedScale string int
  | EmptyAmount
  | Malformed string
  | OnlyDigits string
  | TooManyDecimals string nat int
  | NotANumber string
  | ExceedsUint128 string
  | AmountPanic panic

subsection \<open>Parsing\<close>

definition isDigits :: "string \<Rightarrow> bool" where
  "isDigits s \<longleftrightarrow> list_all is_digit s \<and> length s > 0"

text \<open>\<^verbatim>\<open>uint64(s[i] - '0')\<close>: the byte subtraction wraps at 8 bits before it is widened.\<close>

definition digit64 :: "char \<Rightarrow> u64" where
  "digit64 c = ucast ((of_char c :: u8) - 48)"

fun atoiUint64_loop :: "u64 \<Rightarrow> string \<Rightarrow> u64 option" where
  "atoiUint64_loop v [] = Some v"
| "atoiUint64_loop v (c # s) =
     (let d = digit64 c in
      if v > (maxUint64 - d) div 10 then None else atoiUint64_loop (v * 10 + d) s)"

definition atoiUint64 :: "string \<Rightarrow> u64 option" where
  "atoiUint64 s = atoiUint64_loop 0 s"

text \<open>\<open>Inr None\<close> is the Go result \<open>(0, false)\<close>: too large for this path.\<close>

definition parseUint64 :: "string \<Rightarrow> string \<Rightarrow> int \<Rightarrow> amount_error + u64 option" where
  "parseUint64 intPart fracPart scale =
     (case atoiUint64 intPart of
        None \<Rightarrow> Inr None
      | Some v \<Rightarrow>
          (case index_go pow10u64 scale of
             Inl p \<Rightarrow> Inl (AmountPanic p)
           | Inr d \<Rightarrow>
               if v > maxUint64 div d then Inr None
               else if length fracPart > 0 then
                 (case atoiUint64 fracPart of
                    None \<Rightarrow> Inr None
                  | Some f \<Rightarrow>
                      (case index_go pow10u64 (scale - int (length fracPart)) of
                         Inl p \<Rightarrow> Inl (AmountPanic p)
                       | Inr m \<Rightarrow>
                           if v * d > maxUint64 - f * m then Inr None
                           else Inr (Some (v * d + f * m))))
               else Inr (Some (v * d))))"

text \<open>\<^verbatim>\<open>big.Int.SetString(s, 10)\<close> on a string without a sign.\<close>

definition SetString10 :: "string \<Rightarrow> int option" where
  "SetString10 s = (if isDigits s then Some (int (dec_val s)) else None)"

definition parseAmountBig ::
    "'u u128_api \<Rightarrow> string \<Rightarrow> string \<Rightarrow> string \<Rightarrow> int \<Rightarrow> amount_error + 'u" where
  "parseAmountBig L s intPart fracPart scale =
     (case repeat_go CHR ''0'' (scale - int (length fracPart)) of
        Inl p \<Rightarrow> Inl (AmountPanic p)
      | Inr zeros \<Rightarrow>
          (case SetString10 (intPart @ fracPart @ zeros) of
             None \<Rightarrow> Inl (NotANumber s)
           | Some bi \<Rightarrow>
               if bi > maxU128 then Inl (ExceedsUint128 s)
               else Inr (BigIntToUint128 L bi)))"

text \<open>
  The validation of \<^verbatim>\<open>ParseAmount\<close>, up to the split into the two paths. \<open>int32\<close> is the
  conversion of the fraction's length that the code writes.
\<close>

definition validate_amount :: "string \<Rightarrow> int \<Rightarrow> amount_error + string \<times> string" where
  "validate_amount s scale =
     (if scale < 0 \<or> scale \<ge> int (length pow10) then Inl (UnsupportedScale s scale)
      else if s = [] then Inl EmptyAmount
      else case cut CHR ''.'' s of (intPart, fracPart, hasDot) \<Rightarrow>
        if intPart = [] \<or> (hasDot \<and> fracPart = []) then Inl (Malformed s)
        else if \<not> isDigits intPart \<or> (hasDot \<and> \<not> isDigits fracPart) then Inl (OnlyDigits s)
        else if int32 (int (length fracPart)) > scale
          then Inl (TooManyDecimals s (length fracPart) scale)
        else Inr (intPart, fracPart))"

definition ParseAmount :: "'u u128_api \<Rightarrow> string \<Rightarrow> int \<Rightarrow> amount_error + 'u" where
  "ParseAmount L s scale =
     (case validate_amount s scale of
        Inl e \<Rightarrow> Inl e
      | Inr (intPart, fracPart) \<Rightarrow>
          (case parseUint64 intPart fracPart scale of
             Inl e \<Rightarrow> Inl e
           | Inr (Some v) \<Rightarrow> Inr (ToUint128 L v)
           | Inr None \<Rightarrow> parseAmountBig L s intPart fracPart scale))"

subsection \<open>Formatting\<close>

definition formatAmountBig :: "'u u128_api \<Rightarrow> 'u \<Rightarrow> int \<Rightarrow> panic + string" where
  "formatAmountBig L u scale =
     (let bi = BigInt L u in
      if scale = 0 then Inr (dec (nat bi))
      else case index_go pow10 scale of
             Inl p \<Rightarrow> Inl p
           | Inr d \<Rightarrow>
               (let q = dec (nat (bi div d)); r = dec (nat (bi mod d))
                in Inr (q @ ''.'' @ replicate (nat scale - length r) CHR ''0'' @ r)))"

text \<open>\<^verbatim>\<open>for t := r; t >= 10; t /= 10 { digits++ }\<close>\<close>

function digits_loop :: "u64 \<Rightarrow> nat \<Rightarrow> nat" where
  "digits_loop t n = (if t \<ge> 10 then digits_loop (t div 10) (Suc n) else n)"
  by pat_completeness auto
termination
proof (relation "measure (\<lambda>(t, n). unat t)")
  fix t :: u64 and n :: nat
  assume "10 \<le> t"
  then have "10 \<le> unat t" by (simp add: word_le_nat_alt)
  then show "((t div 10, Suc n), (t, n)) \<in> measure (\<lambda>(t, n). unat t)"
    by (simp add: unat_div)
qed simp

declare digits_loop.simps [simp del]

definition formatUint64 :: "u64 \<Rightarrow> int \<Rightarrow> panic + string" where
  "formatUint64 v scale =
     (if scale = 0 then Inr (dec (unat v))
      else case index_go pow10u64 scale of
             Inl p \<Rightarrow> Inl p
           | Inr d \<Rightarrow>
               (let q = v div d; r = v mod d; digits = digits_loop r 1
                in Inr (dec (unat q) @ ''.'' @
                        replicate (nat (scale - int digits)) CHR ''0'' @ dec (unat r))))"

definition FormatAmount :: "'u u128_api \<Rightarrow> 'u \<Rightarrow> int \<Rightarrow> panic + string" where
  "FormatAmount L u scale =
     (case Uint64 L u of (lo, hi) \<Rightarrow>
        if hi = 0 \<and> scale \<ge> 0 \<and> scale < int (length pow10u64) then formatUint64 lo scale
        else formatAmountBig L u scale)"

subsection \<open>The tables hold the exact powers\<close>

lemma unat_pow10u64_entry: "i < 19 \<Longrightarrow> unat (pow10u64_entry i) = 10 ^ i"
proof (induction i)
  case (Suc i)
  then have "(10::nat) ^ Suc i \<le> 10 ^ 18" by (intro power_increasing) simp_all
  with Suc show ?case by (simp add: unat_word_ariths)
qed simp

lemma length_pow10u64 [simp]: "length pow10u64 = 19"
  by (simp add: pow10u64_def)

lemma length_pow10 [simp]: "length pow10 = 19"
  by (simp add: pow10_def)

lemma unat_pow10u64: "i < 19 \<Longrightarrow> unat (pow10u64 ! i) = 10 ^ i"
  by (simp add: pow10u64_def unat_pow10u64_entry nth_map del: upt_rec_numeral)

lemma pow10_nth: "i < 19 \<Longrightarrow> pow10 ! i = 10 ^ i"
  by (simp add: pow10_def nth_map del: upt_rec_numeral)

subsection \<open>Reading digits\<close>

lemma unat_maxUint64 [simp]: "unat maxUint64 = 2 ^ 64 - 1"
  by (simp add: maxUint64_def unsigned_minus_1_eq_mask mask_eq_exp_minus_1)

lemma unat_digit64: "is_digit c \<Longrightarrow> unat (digit64 c) = digit_val c"
proof -
  assume d: "is_digit c"
  have c: "(of_char c :: u8) = word_of_nat (of_char c)"
    by (simp add: of_nat_of_char)
  have "(of_char c :: u8) - 48 = word_of_nat (of_char c - 48)"
    using d by (simp add: c is_digit_def)
  moreover have "of_char c - 48 < (256::nat)" by (rule le_less_trans [OF diff_le_self]) simp
  ultimately show ?thesis
    by (simp add: digit64_def digit_val_def unsigned_ucast_eq take_bit_eq_mod unat_of_nat)
qed

lemma dec_val_Cons: "dec_val (c # s) = digit_val c * 10 ^ length s + dec_val s"
  using dec_val_append [of "[c]" s] dec_val_snoc [of "[]" c] by simp

text \<open>The overflow test of the loop is exact: it fails iff the next step would not fit.\<close>

lemma overflow_test:
  assumes "is_digit c"
  shows "v > (maxUint64 - digit64 c) div 10 \<longleftrightarrow> unat v * 10 + digit_val c \<ge> 2 ^ 64"
proof -
  have d: "digit_val c < 10" and u: "unat (digit64 c) = digit_val c"
    using assms by (simp_all add: digit_val_less unat_digit64)
  then have "digit64 c \<le> maxUint64" by (simp add: maxUint64_def)
  then have "unat ((maxUint64 - digit64 c) div 10) = (2 ^ 64 - 1 - digit_val c) div 10"
    using u by (simp add: unat_div unat_sub)
  with d show ?thesis by (simp add: word_less_nat_alt) linarith
qed

lemma atoi_loop_spec:
  "list_all is_digit s \<Longrightarrow>
     atoiUint64_loop v s =
       (let n = unat v * 10 ^ length s + dec_val s
        in if n < 2 ^ 64 then Some (word_of_nat n) else None)"
proof (induction s arbitrary: v)
  case (Cons c s)
  then have c: "is_digit c" and s: "list_all is_digit s" by simp_all
  let ?m = "unat v * 10 + digit_val c"
  have total: "unat v * 10 ^ length (c # s) + dec_val (c # s) = ?m * 10 ^ length s + dec_val s"
    by (simp add: dec_val_Cons algebra_simps)
  show ?case
  proof (cases "?m < 2 ^ 64")
    case True
    have "unat (v * 10 + digit64 c) = ?m"
      using True unat_digit64 [OF c] by (simp add: unat_word_ariths)
    then show ?thesis
      using True Cons.IH [OF s, of "v * 10 + digit64 c"] overflow_test [OF c, of v]
      by (simp only: atoiUint64_loop.simps Let_def total) simp
  next
    case False
    have "?m \<le> ?m * 10 ^ length s" by simp
    with False have "\<not> ?m * 10 ^ length s + dec_val s < 2 ^ 64" by linarith
    with False show ?thesis
      using overflow_test [OF c, of v]
      by (simp only: atoiUint64_loop.simps Let_def total) simp
  qed
qed (simp add: Let_def)

lemma atoi_spec:
  "list_all is_digit s \<Longrightarrow>
     atoiUint64 s = (if dec_val s < 2 ^ 64 then Some (word_of_nat (dec_val s)) else None)"
  by (simp add: atoiUint64_def atoi_loop_spec)

subsection \<open>The fast path computes the exact value\<close>

text \<open>What a validated amount is worth in minor units.\<close>

definition amount_value :: "string \<Rightarrow> string \<Rightarrow> nat \<Rightarrow> nat" where
  "amount_value intPart fracPart scale =
     dec_val intPart * 10 ^ scale + dec_val fracPart * 10 ^ (scale - length fracPart)"

text \<open>What \<^verbatim>\<open>ParseAmount\<close> has established before it calls either path.\<close>

definition amount_parts :: "string \<Rightarrow> string \<Rightarrow> nat \<Rightarrow> bool" where
  "amount_parts intPart fracPart scale \<longleftrightarrow>
     isDigits intPart \<and> list_all is_digit fracPart \<and> length fracPart \<le> scale \<and> scale < 19"

lemma fraction_bound:
  assumes "amount_parts i f k"
  shows "dec_val f * 10 ^ (k - length f) < 10 ^ k"
proof -
  have "dec_val f < 10 ^ length f" using assms by (simp add: amount_parts_def dec_val_bound)
  then have "dec_val f * 10 ^ (k - length f) < 10 ^ length f * 10 ^ (k - length f)" by simp
  also have "\<dots> = 10 ^ k"
    using assms by (simp add: amount_parts_def flip: power_add)
  finally show ?thesis .
qed

lemma pow10_le: "k < 19 \<Longrightarrow> (10::nat) ^ k \<le> 10 ^ 18"
  by (rule power_increasing) simp_all

lemma div_overflow_test:
  "v > maxUint64 div pow10u64 ! k \<longleftrightarrow> unat v * 10 ^ k \<ge> 2 ^ 64" if "k < 19" for v :: u64
proof -
  have "unat (maxUint64 div pow10u64 ! k) = (2 ^ 64 - 1) div 10 ^ k"
    using that by (simp add: unat_div unat_pow10u64)
  then have "v > maxUint64 div pow10u64 ! k \<longleftrightarrow> \<not> unat v \<le> (2 ^ 64 - 1) div 10 ^ k"
    by (simp add: word_less_nat_alt not_le)
  also have "\<dots> \<longleftrightarrow> \<not> unat v * 10 ^ k \<le> 2 ^ 64 - 1"
    by (subst less_eq_div_iff_mult_less_eq) simp_all
  finally show ?thesis by auto
qed

lemma parseUint64_spec:
  assumes parts: "amount_parts i f k"
  shows "parseUint64 i f (int k) =
           Inr (if amount_value i f k < 2 ^ 64 then Some (word_of_nat (amount_value i f k)) else None)"
proof (cases "dec_val i * 10 ^ k < 2 ^ 64")
  case False
  then have big: "\<not> amount_value i f k < 2 ^ 64" by (simp add: amount_value_def)
  show ?thesis
  proof (cases "dec_val i < 2 ^ 64")
    case True
    then have "atoiUint64 i = Some (word_of_nat (dec_val i))"
      using parts by (simp add: amount_parts_def isDigits_def atoi_spec)
    moreover have "unat (word_of_nat (dec_val i) :: u64) = dec_val i"
      using True by (simp add: unat_of_nat)
    ultimately show ?thesis
      using parts big False by (simp add: parseUint64_def amount_parts_def div_overflow_test)
  next
    case False
    then show ?thesis
      using parts big by (simp add: parseUint64_def amount_parts_def isDigits_def atoi_spec)
  qed
next
  case True
  have k: "k < 19" and len: "length f \<le> k" using parts by (simp_all add: amount_parts_def)
  have "dec_val i * 1 \<le> dec_val i * 10 ^ k" by (intro mult_le_mono) simp_all
  with True have small: "dec_val i < 2 ^ 64" by linarith
  define v where "v = (word_of_nat (dec_val i) :: u64)"
  have v: "unat v = dec_val i" using small by (simp add: v_def unat_of_nat)
  have vd: "unat (v * pow10u64 ! k) = dec_val i * 10 ^ k"
    using True k by (simp add: unat_word_ariths v unat_pow10u64)
  have atoi: "atoiUint64 i = Some v"
    using parts small by (simp add: amount_parts_def isDigits_def atoi_spec v_def)
  show ?thesis
  proof (cases "f = []")
    case True
    have "v * pow10u64 ! k = word_of_nat (amount_value i f k)"
      using True by (simp add: amount_value_def flip: vd)
    moreover have "amount_value i f k < 2 ^ 64"
      using True \<open>dec_val i * 10 ^ k < 2 ^ 64\<close> by (simp add: amount_value_def)
    ultimately show ?thesis
      using True atoi k \<open>dec_val i * 10 ^ k < 2 ^ 64\<close>
      by (simp add: parseUint64_def div_overflow_test v)
  next
    case False
    let ?w = "dec_val f * 10 ^ (k - length f)"
    have w: "?w < 10 ^ 18"
      using fraction_bound [OF parts] pow10_le [OF k] by (rule order.strict_trans2)
    have "dec_val f * 1 \<le> ?w" by (intro mult_le_mono) simp_all
    with w have "dec_val f < 10 ^ 18" by linarith
    then have fsmall: "dec_val f < 2 ^ 64" by simp
    define m where "m = (word_of_nat (dec_val f) :: u64)"
    have m: "unat m = dec_val f" using fsmall by (simp add: m_def unat_of_nat)
    have fatoi: "atoiUint64 f = Some m"
      using parts fsmall by (simp add: amount_parts_def atoi_spec m_def)
    have fm: "unat (m * pow10u64 ! (k - length f)) = ?w"
      using w k by (simp add: unat_word_ariths m unat_pow10u64)
    have "unat (maxUint64 - m * pow10u64 ! (k - length f)) = 2 ^ 64 - 1 - ?w"
      using w by (subst unat_sub) (simp_all add: word_le_nat_alt fm)
    then have test: "v * pow10u64 ! k > maxUint64 - m * pow10u64 ! (k - length f)
        \<longleftrightarrow> \<not> amount_value i f k < 2 ^ 64"
      using w by (simp add: word_less_nat_alt vd amount_value_def) linarith
    have sum: "v * pow10u64 ! k + m * pow10u64 ! (k - length f) = word_of_nat (amount_value i f k)"
      by (simp add: amount_value_def flip: vd fm)
    have idx: "nat (int k - int (length f)) = k - length f" by (simp add: nat_diff_distrib)
    show ?thesis
      using False atoi fatoi k len \<open>dec_val i * 10 ^ k < 2 ^ 64\<close> test sum
      by (simp add: parseUint64_def div_overflow_test v idx)
  qed
qed

subsection \<open>The reference path and the validation\<close>

lemma list_all_zeros [simp]: "list_all is_digit (replicate n CHR ''0'')"
  by (induction n) (simp_all add: is_digit_def)

lemma parseAmountBig_spec:
  assumes parts: "amount_parts i f k"
  shows "parseAmountBig L s i f (int k) =
           (if amount_value i f k < 2 ^ 128
            then Inr (BigIntToUint128 L (int (amount_value i f k)))
            else Inl (ExceedsUint128 s))"
proof -
  let ?zeros = "replicate (k - length f) CHR ''0''"
  have len: "length f \<le> k" using parts by (simp add: amount_parts_def)
  have digits: "isDigits (i @ f @ ?zeros)"
    using parts by (simp add: amount_parts_def isDigits_def)
  have "dec_val (i @ f @ ?zeros) = amount_value i f k"
    using len by (simp add: dec_val_append amount_value_def algebra_simps flip: power_add)
  moreover have "repeat_go CHR ''0'' (int k - int (length f)) = Inr ?zeros"
    using len by (simp add: repeat_go_def nat_diff_distrib)
  ultimately show ?thesis
    using digits by (simp add: parseAmountBig_def SetString10_def maxU128_def)
qed

text \<open>A text shorter than 2 GiB passes the validation only with parts both paths accept.\<close>

lemma validate_amount_parts:
  assumes "validate_amount s scale = Inr (i, f)" and "length s < 2 ^ 31"
  shows "amount_parts i f (nat scale)" and "0 \<le> scale" and "scale < 19"
    and "s = (if f = [] then i else i @ CHR ''.'' # f)"
proof -
  obtain b a h where c: "cut CHR ''.'' s = (b, a, h)" by (cases "cut CHR ''.'' s")
  have len: "length a < 2 ^ 31" using cut_length [OF c] assms(2) by linarith
  then have wid: "int32 (int (length a)) = int (length a)" by (simp add: int32_id)
  show range: "0 \<le> scale" "scale < 19"
    using assms(1) by (auto simp: validate_amount_def split: if_splits)
  have bi: "b = i" and fa: "f = a" and ok: "isDigits b" "h \<longrightarrow> isDigits a"
    and le: "int (length a) \<le> scale"
    using assms(1) c wid by (auto simp: validate_amount_def split: if_splits)
  have parts: "if h then s = b @ CHR ''.'' # a else s = b \<and> a = []"
    using cut_parts [OF c] by simp
  then have "list_all is_digit a" using ok(2) by (auto simp: isDigits_def split: if_splits)
  then show "amount_parts i f (nat scale)"
    using bi fa ok(1) le range by (simp add: amount_parts_def le_nat_iff nat_less_iff)
  show "s = (if f = [] then i else i @ CHR ''.'' # f)"
    using parts bi fa ok(2) by (auto simp: isDigits_def split: if_splits)
qed

lemma validate_amount_complete:
  assumes "amount_parts i f k" and "length f < 2 ^ 31"
  shows "validate_amount (if f = [] then i else i @ CHR ''.'' # f) (int k) = Inr (i, f)"
proof -
  have dot: "\<not> is_digit CHR ''.''" by (simp add: is_digit_def)
  then have "CHR ''.'' \<notin> set i"
    using assms(1) by (auto simp: amount_parts_def isDigits_def list_all_iff)
  then have "cut CHR ''.'' (if f = [] then i else i @ CHR ''.'' # f) = (i, f, f \<noteq> [])"
    by (simp add: cut_absent cut_found)
  then show ?thesis
    using assms by (auto simp: validate_amount_def amount_parts_def isDigits_def int32_id)
qed

lemma ParseAmount_spec:
  assumes ok: "u128_ok L" and v: "validate_amount s scale = Inr (i, f)" and "length s < 2 ^ 31"
  shows "ParseAmount L s scale =
           (let n = amount_value i f (nat scale)
            in if n < 2 ^ 128 then Inr (BigIntToUint128 L (int n)) else Inl (ExceedsUint128 s))"
proof -
  note parts = validate_amount_parts [OF v assms(3)]
  let ?n = "amount_value i f (nat scale)"
  have small: "ToUint128 L (word_of_nat ?n) = BigIntToUint128 L (int ?n)" if "?n < 2 ^ 64"
  proof -
    have "uint (word_of_nat ?n :: u64) = int ?n"
      using that by (simp add: unsigned_of_nat take_bit_nat_eq_self)
    then show ?thesis using u128_to_eq_of_big [OF ok, of "word_of_nat ?n"] by simp
  qed
  have "int (nat scale) = scale" using parts(2) by simp
  then show ?thesis
    using v parts(1) small parseUint64_spec [of i f "nat scale"]
      parseAmountBig_spec [of i f "nat scale" L s]
    by (auto simp: ParseAmount_def Let_def)
qed

subsection \<open>Both formatting paths print the same text\<close>

text \<open>\<open>n\<close> minor units at \<open>k\<close> decimals.\<close>

definition decimal_text :: "nat \<Rightarrow> nat \<Rightarrow> string" where
  "decimal_text n k =
     (if k = 0 then dec n
      else dec (n div 10 ^ k) @ ''.'' @
           replicate (k - length (dec (n mod 10 ^ k))) CHR ''0'' @ dec (n mod 10 ^ k))"

lemma digits_loop_spec: "digits_loop t (Suc n) = n + length (dec (unat t))"
proof (induction t "Suc n" arbitrary: n rule: digits_loop.induct)
  case (1 t)
  show ?case
  proof (cases "t \<ge> 10")
    case True
    then have "\<not> unat t < 10" by (simp add: word_le_nat_alt)
    then have "length (dec (unat t)) = Suc (length (dec (unat t div 10)))"
      by (simp add: dec.simps [of "unat t"])
    with 1 True show ?thesis by (simp add: digits_loop.simps [of t] unat_div)
  next
    case False
    then have "unat t < 10" by (simp add: word_le_nat_alt)
    then have "length (dec (unat t)) = 1" by (simp add: dec.simps [of "unat t"])
    with False show ?thesis by (simp add: digits_loop.simps [of t])
  qed
qed

lemma formatUint64_spec:
  assumes "k < 19"
  shows "formatUint64 v (int k) = Inr (decimal_text (unat v) k)"
proof (cases "k = 0")
  case False
  have "unat (v div pow10u64 ! k) = unat v div 10 ^ k"
    and "unat (v mod pow10u64 ! k) = unat v mod 10 ^ k"
    using assms by (simp_all add: unat_div unat_mod unat_pow10u64)
  with False assms show ?thesis
    using digits_loop_spec [of "v mod pow10u64 ! k" 0]
    by (simp add: formatUint64_def decimal_text_def Let_def nat_diff_distrib)
qed (simp add: formatUint64_def decimal_text_def)

lemma formatAmountBig_spec:
  assumes "u128_ok L" and "k < 19"
  shows "formatAmountBig L u (int k) = Inr (decimal_text (nat (BigInt L u)) k)"
proof (cases "k = 0")
  case False
  have "0 \<le> BigInt L u" using u128_range [OF assms(1)] by simp
  then have "nat (BigInt L u div 10 ^ k) = nat (BigInt L u) div 10 ^ k"
    and "nat (BigInt L u mod 10 ^ k) = nat (BigInt L u) mod 10 ^ k"
    by (simp_all add: nat_div_distrib nat_mod_distrib nat_power_eq)
  with False assms(2) show ?thesis
    by (simp add: formatAmountBig_def decimal_text_def Let_def pow10_nth)
qed (simp add: formatAmountBig_def decimal_text_def)

lemma FormatAmount_spec:
  assumes ok: "u128_ok L" and "k < 19"
  shows "FormatAmount L u (int k) = Inr (decimal_text (nat (BigInt L u)) k)"
proof -
  obtain lo hi where h: "Uint64 L u = (lo, hi)" by (cases "Uint64 L u")
  show ?thesis
  proof (cases "hi = 0")
    case True
    then have "nat (BigInt L u) = unat lo" using u128_halves [OF ok h] by simp
    with True h assms show ?thesis by (simp add: FormatAmount_def formatUint64_spec)
  next
    case False
    with h assms show ?thesis by (simp add: FormatAmount_def formatAmountBig_spec)
  qed
qed

text \<open>The printed text splits back into parts of the same value.\<close>

lemma decimal_text_parts:
  assumes "k < 19"
  shows "\<exists>i f. decimal_text n k = (if f = [] then i else i @ CHR ''.'' # f) \<and>
           amount_parts i f k \<and> amount_value i f k = n \<and> length f = k"
proof (cases "k = 0")
  case True
  then have "decimal_text n k = dec n \<and> amount_parts (dec n) [] k \<and> amount_value (dec n) [] k = n"
    by (simp add: decimal_text_def amount_parts_def isDigits_def amount_value_def)
  with True show ?thesis by (intro exI [of _ "dec n"] exI [of _ "[]"]) simp
next
  case False
  let ?r = "n mod 10 ^ k"
  let ?f = "replicate (k - length (dec ?r)) CHR ''0'' @ dec ?r"
  have le: "length (dec ?r) \<le> k" using False by (intro length_dec_le) simp_all
  then have len: "length ?f = k" by simp
  have "dec_val ?f = ?r" by (simp add: dec_val_append)
  then have "amount_value (dec (n div 10 ^ k)) ?f k = n"
    using len by (simp add: amount_value_def mult.commute)
  moreover have "amount_parts (dec (n div 10 ^ k)) ?f k"
    using assms len by (simp add: amount_parts_def isDigits_def)
  ultimately show ?thesis
    using False len
    by (intro exI [of _ "dec (n div 10 ^ k)"] exI [of _ ?f]) (simp add: decimal_text_def)
qed

lemma decimal_text_length:
  assumes "n < 2 ^ 128" and "k < 19"
  shows "length (decimal_text n k) < 2 ^ 31"
proof -
  have big: "(2::nat) ^ 128 < 10 ^ 39" by simp
  have "length (dec m) \<le> 39" if "m \<le> n" for m
    using that assms(1) big by (intro length_dec_le) linarith+
  then have a: "length (dec n) \<le> 39" "length (dec (n div 10 ^ k)) \<le> 39" by simp_all
  have "0 < k \<Longrightarrow> length (dec (n mod 10 ^ k)) \<le> k" by (intro length_dec_le) simp_all
  with a assms(2) show ?thesis by (auto simp: decimal_text_def)
qed

text \<open>What is printed is read back.\<close>

lemma ParseAmount_decimal_text:
  assumes "u128_ok L" and k: "k < 19"
  shows "ParseAmount L (decimal_text (nat (BigInt L u)) k) (int k) = Inr u"
proof -
  let ?n = "nat (BigInt L u)"
  have n: "int ?n = BigInt L u" using u128_range [OF assms(1)] by simp
  have "?n < 2 ^ 128" using u128_range [OF assms(1), of u] by (simp add: nat_less_iff)
  then have len: "length (decimal_text ?n k) < 2 ^ 31" using k by (rule decimal_text_length)
  obtain i f where t: "decimal_text ?n k = (if f = [] then i else i @ CHR ''.'' # f)"
    and parts: "amount_parts i f k" and val: "amount_value i f k = ?n" and lf: "length f = k"
    using decimal_text_parts [OF k] by blast
  have "validate_amount (decimal_text ?n k) (int k) = Inr (i, f)"
    using validate_amount_complete [OF parts] t lf k by simp
  then show ?thesis
    using ParseAmount_spec [OF assms(1) _ len, of "int k" i f] val n \<open>?n < 2 ^ 128\<close>
      u128_of_big_to_big [OF assms(1), of u]
    by (simp add: Let_def)
qed

lemma FormatAmount_parses:
  assumes "u128_ok L" and "0 \<le> scale" and "scale \<le> 18"
  shows "\<exists>t. FormatAmount L u scale = Inr t \<and> ParseAmount L t scale = Inr u"
proof -
  have k: "nat scale < 19" and sk: "int (nat scale) = scale" using assms by simp_all
  show ?thesis
    using FormatAmount_spec [OF assms(1) k, of u] ParseAmount_decimal_text [OF assms(1) k, of u] sk by simp
qed

subsection \<open>Properties\<close>

text \<open>
  C27: \<^verbatim>\<open>ParseAmount\<close> with its 64-bit fast path gives, on every input that fits in memory
  (below 2 GiB), exactly what the big-integer path gives: the same rejections with the same
  arguments, and the same 128-bit value. No step of the fast path wraps.
\<close>

theorem ParseAmount_fast_path_equiv:
  assumes "u128_ok L" and "length s < 2 ^ 31"
  shows "ParseAmount L s scale =
           (case validate_amount s scale of
              Inl e \<Rightarrow> Inl e
            | Inr (i, f) \<Rightarrow> parseAmountBig L s i f scale)"
proof (cases "validate_amount s scale")
  case (Inr p)
  then obtain i f where v: "validate_amount s scale = Inr (i, f)" by (cases p) auto
  note parts = validate_amount_parts [OF v assms(2)]
  then show ?thesis
    using v ParseAmount_spec [OF assms(1) v assms(2)]
      parseAmountBig_spec [of i f "nat scale" L s]
    by (simp add: Let_def)
qed (simp add: ParseAmount_def)

theorem ParseAmount_fast_path_equiv_witness:
  "u128_ok word_u128 \<and> length ''12.34'' < (2::nat) ^ 31 \<and>
   ParseAmount word_u128 ''12.34'' 2 =
     (case validate_amount ''12.34'' 2 of
        Inl e \<Rightarrow> Inl e
      | Inr (i, f) \<Rightarrow> parseAmountBig word_u128 ''12.34'' i f 2)"
  using word_u128_ok ParseAmount_fast_path_equiv [OF word_u128_ok, of "''12.34''" 2] by simp

text \<open>
  C29: an accepted amount is exact, never rounded. The text is an integer part of at least one
  digit, optionally a dot and at most \<open>scale\<close> digits, and the value is the integer part
  times \<open>10 ^ scale\<close> plus the fraction shifted to minor units; and every such text
  whose value is below \<open>2 ^ 128\<close> is accepted.
\<close>

theorem ParseAmount_accepts_exactly:
  assumes "u128_ok L" and "length s < 2 ^ 31"
  shows "ParseAmount L s scale = Inr u \<longleftrightarrow>
           0 \<le> scale \<and>
           (\<exists>i f. s = (if f = [] then i else i @ CHR ''.'' # f) \<and> amount_parts i f (nat scale) \<and>
                  BigInt L u = int (amount_value i f (nat scale)))"
    (is "?lhs \<longleftrightarrow> ?rhs")
proof
  assume l: ?lhs
  then obtain i f where v: "validate_amount s scale = Inr (i, f)"
    by (auto simp: ParseAmount_def split: sum.splits)
  let ?n = "amount_value i f (nat scale)"
  have "?n < 2 ^ 128" and "u = BigIntToUint128 L (int ?n)"
    using l ParseAmount_spec [OF assms(1) v assms(2)] by (auto simp: Let_def split: if_splits)
  then have "BigInt L u = int ?n" using u128_of_big [OF assms(1), of "int ?n"] by simp
  then show ?rhs using validate_amount_parts [OF v assms(2)] by blast
next
  assume ?rhs
  then obtain i f where s: "s = (if f = [] then i else i @ CHR ''.'' # f)"
    and parts: "amount_parts i f (nat scale)" and scale: "0 \<le> scale"
    and val: "BigInt L u = int (amount_value i f (nat scale))" by blast
  have "length f < 2 ^ 31" using parts by (simp add: amount_parts_def)
  then have v: "validate_amount s scale = Inr (i, f)"
    using validate_amount_complete [OF parts] s scale by simp
  have "int (amount_value i f (nat scale)) < 2 ^ 128"
    using val u128_range [OF assms(1), of u] by simp
  moreover have "BigIntToUint128 L (int (amount_value i f (nat scale))) = u"
    using val u128_of_big_to_big [OF assms(1), of u] by simp
  ultimately show ?lhs
    using ParseAmount_spec [OF assms(1) v assms(2)] by (simp add: Let_def)
qed

theorem ParseAmount_accepts_exactly_witness:
  "u128_ok word_u128 \<and> ParseAmount word_u128 ''12.34'' 2 = Inr 1234"
proof -
  have "amount_parts ''12'' ''34'' (nat 2)" and "amount_value ''12'' ''34'' (nat 2) = 1234"
    by (simp_all add: amount_parts_def isDigits_def is_digit_def amount_value_def dec_val_def
        digit_val_def)
  moreover have "BigInt word_u128 1234 = int 1234" by (simp add: word_u128_def)
  ultimately have "\<exists>i f. ''12.34'' = (if f = [] then i else i @ CHR ''.'' # f) \<and>
      amount_parts i f (nat 2) \<and> BigInt word_u128 1234 = int (amount_value i f (nat 2))"
    by (intro exI [of _ "''12''"] exI [of _ "''34''"]) simp
  then show ?thesis
    using ParseAmount_accepts_exactly [OF word_u128_ok, of "''12.34''" 2 1234] word_u128_ok
    by simp
qed

text \<open>
  C28: what \<^verbatim>\<open>FormatAmount\<close> prints, \<^verbatim>\<open>ParseAmount\<close> reads back at the same scale, over the whole
  128-bit range and for every scale the configuration allows; and the 64-bit formatting
  path prints, byte for byte, what the big-integer path prints.
\<close>

theorem FormatAmount_round_trip:
  assumes "u128_ok L" and "0 \<le> scale" and "scale \<le> 18"
  shows "\<exists>t. FormatAmount L u scale = Inr t \<and> formatAmountBig L u scale = Inr t \<and>
             ParseAmount L t scale = Inr u"
proof -
  have k: "nat scale < 19" and sk: "int (nat scale) = scale" using assms by simp_all
  show ?thesis
    using FormatAmount_spec [OF assms(1) k, of u] formatAmountBig_spec [OF assms(1) k, of u]
      ParseAmount_decimal_text [OF assms(1) k, of u] sk
    by auto
qed

theorem FormatAmount_round_trip_witness:
  "\<exists>t. FormatAmount word_u128 1234 2 = Inr t \<and> formatAmountBig word_u128 1234 2 = Inr t \<and>
       ParseAmount word_u128 t 2 = Inr 1234"
  using FormatAmount_round_trip [OF word_u128_ok, of 2 1234] by simp

text \<open>
  On a text below 2 GiB \<^verbatim>\<open>ParseAmount\<close> never panics, whatever the scale: a malformed
  amount, an unsupported scale and an overflow are all returned as errors.
\<close>

theorem ParseAmount_no_panic:
  assumes "length s < 2 ^ 31"
  shows "ParseAmount L s scale \<noteq> Inl (AmountPanic p)"
proof (cases "validate_amount s scale")
  case (Inl e)
  then have "e \<noteq> AmountPanic p"
    by (auto simp: validate_amount_def split: if_splits prod.splits)
  with Inl show ?thesis by (simp add: ParseAmount_def)
next
  case (Inr q)
  then obtain i f where v: "validate_amount s scale = Inr (i, f)" by (cases q) auto
  note parts = validate_amount_parts [OF v assms]
  then show ?thesis
    using v parseUint64_spec [of i f "nat scale"] parseAmountBig_spec [of i f "nat scale" L s]
    by (auto simp: ParseAmount_def)
qed

theorem ParseAmount_no_panic_witness:
  "ParseAmount word_u128 ''1.2.3'' 2 \<noteq> Inl (AmountPanic IndexOutOfRange)"
  by (rule ParseAmount_no_panic) simp

text \<open>
  The bound of the previous property is needed. The decimals check compares
  \<^verbatim>\<open>int32(len(fracPart))\<close>, which wraps: with \<open>2 ^ 31\<close> zeros after the dot the
  converted length is negative, the check passes, and the power table is read at a negative
  index, a run-time panic instead of the error about too many decimals.
\<close>

theorem ParseAmount_int32_truncation_panics:
  "ParseAmount L (''0.'' @ replicate (2 ^ 31) CHR ''0'') 2 = Inl (AmountPanic IndexOutOfRange)"
proof -
  define f where "f = replicate (2 ^ 31) CHR ''0''"
  have f: "length f = 2 ^ 31" "list_all is_digit f" "dec_val f = 0" by (simp_all add: f_def)
  then have "f \<noteq> []" by auto
  have "int32 (int (length f)) = - (2 ^ 31)"
    unfolding f by (simp add: int32_def)
  then have "validate_amount (''0.'' @ f) 2 = Inr (''0'', f)"
    using f \<open>f \<noteq> []\<close> by (simp add: validate_amount_def isDigits_def is_digit_def)
  moreover have "atoiUint64 ''0'' = Some 0" and "atoiUint64 f = Some 0"
    using f by (simp_all add: atoi_spec is_digit_def dec_val_def digit_val_def)
  moreover have "index_go pow10u64 (2 - int (length f)) = Inl IndexOutOfRange"
    using f by (simp add: index_go_def)
  ultimately have "ParseAmount L (''0.'' @ f) 2 = Inl (AmountPanic IndexOutOfRange)"
    using \<open>f \<noteq> []\<close> by (simp add: ParseAmount_def parseUint64_def)
  then show ?thesis by (simp only: f_def)
qed

end
