(* ===== verification/Outcome.thy ===== *)
theory Outcome
  imports TB_Api
begin

section \<open>Commands and their outcomes: \<^verbatim>\<open>internal/model/command.go\<close>, \<^verbatim>\<open>internal/tbx/outcome.go\<close>\<close>

text \<open>
  A command is what one Kafka message decodes to; its outcomes are cut out of TigerBeetle's
  dense reply to the batch it travelled in. The lemmas show that the windows of a batch's
  commands tile the reply, in order, and that \<open>exists\<close> counts as success.
\<close>

subsection \<open>Commands\<close>

type_synonym op = string

definition OpCreateTransfers :: op where "OpCreateTransfers = ''create_transfers''"

definition OpCreateAccounts :: op where "OpCreateAccounts = ''create_accounts''"

record 'u command =
  Op :: op
  Transfers :: "'u transfer list"
  Accounts :: "'u account list"
  IDs :: "string list"

definition Len :: "'u command \<Rightarrow> nat" where
  "Len c = (if Op c = OpCreateAccounts then length (Accounts c) else length (Transfers c))"

subsection \<open>Outcomes\<close>

datatype status = StatusOK | StatusRejected

record outcome =
  Index :: nat
  ID :: string
  Status :: status
  Error :: string
  Timestamp :: u64

datatype map_error =
    CountMismatch nat nat
  | WindowMismatch int int nat
  | MapPanic panic

definition is_upper :: "char \<Rightarrow> bool" where
  "is_upper c \<longleftrightarrow> 65 \<le> (of_char c :: nat) \<and> (of_char c :: nat) \<le> 90"

definition is_lower :: "char \<Rightarrow> bool" where
  "is_lower c \<longleftrightarrow> 97 \<le> (of_char c :: nat) \<and> (of_char c :: nat) \<le> 122"

definition to_lower :: "char \<Rightarrow> char" where
  "to_lower c = (if is_upper c then char_of ((of_char c :: nat) + 32) else c)"

text \<open>\<^verbatim>\<open>strings.CutPrefix\<close>.\<close>

fun CutPrefix :: "string \<Rightarrow> string \<Rightarrow> string option" where
  "CutPrefix s [] = Some s"
| "CutPrefix [] (p # ps) = None"
| "CutPrefix (c # s) (p # ps) = (if c = p then CutPrefix s ps else None)"

text \<open>
  The loop of \<^verbatim>\<open>errorName\<close>, with the previous character as \<open>prev\<close> (\<open>None\<close> at index 0). The
  code walks runes; on valid UTF-8 the walk over bytes gives the same text, because only
  ASCII letters are tested and a byte of a longer rune is never one.
\<close>

definition boundary :: "char option \<Rightarrow> string \<Rightarrow> bool" where
  "boundary prev rest =
     (case prev of
        None \<Rightarrow> False
      | Some p \<Rightarrow>
          (let prevUpper = is_upper p;
               nextLower = (case rest of [] \<Rightarrow> False | n # _ \<Rightarrow> is_lower n)
           in \<not> prevUpper \<or> nextLower))"

fun snake_loop :: "char option \<Rightarrow> string \<Rightarrow> string" where
  "snake_loop prev [] = []"
| "snake_loop prev (c # s) =
     (if is_upper c
      then (if boundary prev s then ''_'' else []) @ to_lower c # snake_loop (Some c) s
      else c # snake_loop (Some c) s)"

definition errorName :: "string \<Rightarrow> string \<Rightarrow> string" where
  "errorName s prefix =
     (case CutPrefix s prefix of
        None \<Rightarrow> ''unknown_status_'' @ s
      | Some trimmed \<Rightarrow> snake_loop None trimmed)"

text \<open>\<^verbatim>\<open>cmd.IDs[i]\<close> panics when a command carries fewer ids than events.\<close>

definition newOutcomes :: "'u command \<Rightarrow> panic + outcome list" where
  "newOutcomes c =
     (if length (IDs c) < Len c then Inl IndexOutOfRange
      else Inr (map (\<lambda>i. \<lparr> Index = i, ID = IDs c ! i, Status = StatusOK, Error = [], Timestamp = 0 \<rparr>)
                 [0..<Len c]))"

text \<open>One turn of the loop that fills the outcomes from the results.\<close>

definition fill_outcome :: "'st status_api \<Rightarrow> string \<Rightarrow> 'st create_result \<Rightarrow> outcome \<Rightarrow> outcome" where
  "fill_outcome A prefix r out =
     (let out' = out\<lparr>Timestamp := r_Timestamp r\<rparr> in
      if r_Status r = Created A \<or> r_Status r = Exists A then out'
      else out'\<lparr>Status := StatusRejected, Error := errorName (status_String A (r_Status r)) prefix\<rparr>)"

definition MapTransferResults ::
    "'st status_api \<Rightarrow> 'u command \<Rightarrow> 'st create_result list \<Rightarrow> int \<Rightarrow> nat \<Rightarrow> map_error + outcome list"
  where
  "MapTransferResults A cmd results offset batchSize =
     (case newOutcomes cmd of
        Inl p \<Rightarrow> Inl (MapPanic p)
      | Inr out \<Rightarrow>
          if length results \<noteq> batchSize then Inl (CountMismatch (length results) batchSize)
          else if offset < 0 \<or> offset + int (length out) > int batchSize
            then Inl (WindowMismatch offset (offset + int (length out)) batchSize)
          else Inr (map2 (fill_outcome A ''Transfer'') (take (length out) (drop (nat offset) results)) out))"

definition MapAccountResults ::
    "'st status_api \<Rightarrow> 'u command \<Rightarrow> 'st create_result list \<Rightarrow> int \<Rightarrow> nat \<Rightarrow> map_error + outcome list"
  where
  "MapAccountResults A cmd results offset batchSize =
     (case newOutcomes cmd of
        Inl p \<Rightarrow> Inl (MapPanic p)
      | Inr out \<Rightarrow>
          if length results \<noteq> batchSize then Inl (CountMismatch (length results) batchSize)
          else if offset < 0 \<or> offset + int (length out) > int batchSize
            then Inl (WindowMismatch offset (offset + int (length out)) batchSize)
          else Inr (map2 (fill_outcome A ''Account'') (take (length out) (drop (nat offset) results)) out))"

subsection \<open>What both mappings promise\<close>

text \<open>A command that carries one id per event, as the decoder builds it.\<close>

definition ids_match :: "'u command \<Rightarrow> bool" where
  "ids_match c \<longleftrightarrow> length (IDs c) = Len c"

text \<open>The outcome of event \<open>i\<close> with result \<open>r\<close>.\<close>

definition outcome_of :: "'st status_api \<Rightarrow> string \<Rightarrow> 'u command \<Rightarrow> nat \<Rightarrow> 'st create_result \<Rightarrow> outcome" where
  "outcome_of A prefix c i r =
     \<lparr> Index = i, ID = IDs c ! i,
       Status = (if r_Status r = Created A \<or> r_Status r = Exists A then StatusOK else StatusRejected),
       Error = (if r_Status r = Created A \<or> r_Status r = Exists A then []
                else errorName (status_String A (r_Status r)) prefix),
       Timestamp = r_Timestamp r \<rparr>"

text \<open>
  The contract the batcher relies on, for either operation: a whole reply gives the
  command's window, event by event; a reply of another length, or a window outside the
  batch, is an error and never a shifted outcome.
\<close>

locale result_mapping =
  fixes mapping :: "'u command \<Rightarrow> 'st create_result list \<Rightarrow> int \<Rightarrow> nat \<Rightarrow> map_error + outcome list"
    and api :: "'st status_api"
    and prefix :: string
  assumes window: "ids_match c \<Longrightarrow> length rs = n \<Longrightarrow> off + Len c \<le> n \<Longrightarrow>
      mapping c rs (int off) n = Inr (map (\<lambda>i. outcome_of api prefix c i (rs ! (off + i))) [0..<Len c])"
    and wrong_count: "ids_match c \<Longrightarrow> length rs \<noteq> n \<Longrightarrow>
      mapping c rs off' n = Inl (CountMismatch (length rs) n)"
    and outside: "ids_match c \<Longrightarrow> length rs = n \<Longrightarrow> off' < 0 \<or> off' + int (Len c) > int n \<Longrightarrow>
      mapping c rs off' n = Inl (WindowMismatch off' (off' + int (Len c)) n)"
begin

lemma one_per_event:
  "ids_match c \<Longrightarrow> mapping c rs off' n = Inr os \<Longrightarrow>
     length os = Len c \<and> map ID os = IDs c \<and> map Index os = [0..<Len c]"
proof -
  assume c: "ids_match c" and m: "mapping c rs off' n = Inr os"
  have len: "length rs = n" using wrong_count [OF c] m by force
  have "\<not> (off' < 0 \<or> off' + int (Len c) > int n)" using outside [OF c len] m by force
  then have "nat off' + Len c \<le> n" and "int (nat off') = off'" by auto
  then have "os = map (\<lambda>i. outcome_of api prefix c i (rs ! (nat off' + i))) [0..<Len c]"
    using window [OF c len] m by fastforce
  then show ?thesis
    using c map_nth [of "IDs c"] by (simp add: outcome_of_def ids_match_def o_def)
qed

lemma rejected_iff:
  "ids_match c \<Longrightarrow> length rs = n \<Longrightarrow> off + Len c \<le> n \<Longrightarrow> i < Len c \<Longrightarrow>
     \<exists>os. mapping c rs (int off) n = Inr os \<and>
       (Status (os ! i) = StatusRejected \<longleftrightarrow>
          r_Status (rs ! (off + i)) \<noteq> Created api \<and> r_Status (rs ! (off + i)) \<noteq> Exists api)"
  by (simp add: window outcome_of_def)

end

lemma fill_window:
  assumes "ids_match c" and "off + Len c \<le> length rs"
  shows "newOutcomes c = Inr os \<Longrightarrow>
     map2 (fill_outcome A p) (take (length os) (drop off rs)) os =
       map (\<lambda>i. outcome_of A p c i (rs ! (off + i))) [0..<Len c]"
  using assms
  by (intro nth_equalityI)
     (auto simp: newOutcomes_def ids_match_def fill_outcome_def outcome_of_def Let_def)

lemma newOutcomes_ok: "ids_match c \<Longrightarrow> \<exists>os. newOutcomes c = Inr os \<and> length os = Len c"
  by (simp add: newOutcomes_def ids_match_def)

interpretation transfer_results: result_mapping "MapTransferResults A" A "''Transfer''"
  for A :: "'st status_api"
proof
  fix c :: "'u command" and rs :: "'st create_result list" and n off :: nat and off' :: int
  assume c: "ids_match c"
  then obtain os where os: "newOutcomes c = Inr os" "length os = Len c" using newOutcomes_ok by blast
  show "length rs = n \<Longrightarrow> off + Len c \<le> n \<Longrightarrow> MapTransferResults A c rs (int off) n =
      Inr (map (\<lambda>i. outcome_of A ''Transfer'' c i (rs ! (off + i))) [0..<Len c])"
    using fill_window [OF c, of off rs os A "''Transfer''"] os by (simp add: MapTransferResults_def)
  show "length rs \<noteq> n \<Longrightarrow> MapTransferResults A c rs off' n = Inl (CountMismatch (length rs) n)"
    using os by (simp add: MapTransferResults_def)
  show "length rs = n \<Longrightarrow> off' < 0 \<or> int n < off' + int (Len c) \<Longrightarrow>
      MapTransferResults A c rs off' n = Inl (WindowMismatch off' (off' + int (Len c)) n)"
    using os by (auto simp: MapTransferResults_def)
qed

interpretation account_results: result_mapping "MapAccountResults A" A "''Account''"
  for A :: "'st status_api"
proof
  fix c :: "'u command" and rs :: "'st create_result list" and n off :: nat and off' :: int
  assume c: "ids_match c"
  then obtain os where os: "newOutcomes c = Inr os" "length os = Len c" using newOutcomes_ok by blast
  show "length rs = n \<Longrightarrow> off + Len c \<le> n \<Longrightarrow> MapAccountResults A c rs (int off) n =
      Inr (map (\<lambda>i. outcome_of A ''Account'' c i (rs ! (off + i))) [0..<Len c])"
    using fill_window [OF c, of off rs os A "''Account''"] os by (simp add: MapAccountResults_def)
  show "length rs \<noteq> n \<Longrightarrow> MapAccountResults A c rs off' n = Inl (CountMismatch (length rs) n)"
    using os by (simp add: MapAccountResults_def)
  show "length rs = n \<Longrightarrow> off' < 0 \<or> int n < off' + int (Len c) \<Longrightarrow>
      MapAccountResults A c rs off' n = Inl (WindowMismatch off' (off' + int (Len c)) n)"
    using os by (auto simp: MapAccountResults_def)
qed

subsection \<open>Properties\<close>

lemma CutPrefix_append: "CutPrefix (p @ t) p = Some t"
  by (induction p) auto

lemma to_lower_value: "is_upper c \<Longrightarrow> (of_char (to_lower c) :: nat) = of_char c + 32"
  by (simp add: to_lower_def is_upper_def)

lemma to_lower_not_upper: "\<not> is_upper (to_lower c)"
proof (cases "is_upper c")
  case True
  then show ?thesis using to_lower_value [OF True] by (simp add: is_upper_def)
qed (simp add: to_lower_def)

lemma to_lower_underscore:
  assumes "c \<noteq> CHR ''_''"
  shows "to_lower c \<noteq> CHR ''_''"
proof (cases "is_upper c")
  case True
  then have "(of_char (to_lower c) :: nat) \<noteq> of_char CHR ''_''"
    using to_lower_value [OF True] by (simp add: is_upper_def)
  then show ?thesis by metis
qed (use assms in \<open>simp add: to_lower_def\<close>)

lemma snake_loop_letters:
  "CHR ''_'' \<notin> set t \<Longrightarrow> filter (\<lambda>c. c \<noteq> CHR ''_'') (snake_loop prev t) = map to_lower t"
proof (induction t arbitrary: prev)
  case (Cons c t)
  then have "to_lower c \<noteq> CHR ''_''" by (intro to_lower_underscore) auto
  moreover have "\<not> is_upper c \<Longrightarrow> to_lower c = c" by (simp add: to_lower_def)
  ultimately show ?case using Cons by auto
qed simp

lemma snake_loop_lower: "c \<in> set (snake_loop prev t) \<Longrightarrow> \<not> is_upper c"
proof (induction t arbitrary: prev)
  case (Cons d t)
  have "\<not> is_upper CHR ''_''" by (simp add: is_upper_def)
  with Cons show ?case using to_lower_not_upper [of d] by (auto split: if_splits)
qed simp

text \<open>
  The machine-readable error name of a status is its library name without the type
  prefix, with capitals lowered and underscores inserted and nothing else changed: dropping
  the underscores gives back the letters of the name in lower case. So two statuses whose
  names differ by more than case never share an error name.
\<close>

theorem errorName_only_inserts_underscores:
  assumes "CHR ''_'' \<notin> set t"
  shows "filter (\<lambda>c. c \<noteq> CHR ''_'') (errorName (p @ t) p) = map to_lower t \<and>
         (\<forall>c \<in> set (errorName (p @ t) p). \<not> is_upper c)"
  using snake_loop_letters [OF assms] snake_loop_lower by (auto simp: errorName_def CutPrefix_append)

theorem errorName_only_inserts_underscores_witness:
  "errorName ''TransferExceedsCredits'' ''Transfer'' = ''exceeds_credits'' \<and>
   filter (\<lambda>c. c \<noteq> CHR ''_'') (errorName (''Transfer'' @ ''ExceedsCredits'') ''Transfer'')
     = map to_lower ''ExceedsCredits''"
proof -
  have "CHR ''_'' \<notin> set ''ExceedsCredits''" by simp
  from errorName_only_inserts_underscores [OF this, of "''Transfer''"]
  have "filter (\<lambda>c. c \<noteq> CHR ''_'') (errorName (''Transfer'' @ ''ExceedsCredits'') ''Transfer'')
      = map to_lower ''ExceedsCredits''" by blast
  moreover have "errorName ''TransferExceedsCredits'' ''Transfer'' = ''exceeds_credits''"
    by code_simp
  ultimately show ?thesis by blast
qed

end
