(* ===== verification/Offsets.thy ===== *)
theory Offsets
  imports Prelude "HOL-Library.AList"
begin

section \<open>Offset tracking: \<^verbatim>\<open>internal/sink/offsets.go\<close>\<close>

text \<open>
  Which records of a poll are finished, and how far each partition may be committed. A Go map
  is an association list with distinct keys, in the order a \<^verbatim>\<open>range\<close> loop would visit it; the
  lemmas show that no result depends on that order. Offsets and epochs are integers: a Kafka
  offset never comes near the end of \<^verbatim>\<open>int64\<close>.
\<close>

subsection \<open>Records and state\<close>

text \<open>The fields of \<^verbatim>\<open>kgo.Record\<close> and \<^verbatim>\<open>kgo.EpochOffset\<close> the program uses; bytes are strings.\<close>

record krecord =
  k_Topic :: string
  k_Partition :: int
  k_Offset :: int
  k_LeaderEpoch :: int
  k_Key :: string
  k_Value :: string
  k_Timestamp :: int

record epoch_offset =
  eo_Epoch :: int
  eo_Offset :: int

type_synonym partitionKey = "string \<times> int"

type_synonym 'v per_partition = "(string \<times> (int \<times> 'v) list) list"

definition key_of :: "krecord \<Rightarrow> partitionKey" where
  "key_of r = (k_Topic r, k_Partition r)"

record partitionState =
  st_pending :: "(int \<times> int) list"
  st_done :: "(int \<times> int) list"
  st_committed :: int
  st_lowest :: int
  st_highest :: int
  st_forgotten :: bool

type_synonym offsets = "(partitionKey \<times> partitionState) list"

definition NewOffsets :: offsets where
  "NewOffsets = []"

definition fresh_state :: partitionState where
  "fresh_state = \<lparr> st_pending = [], st_done = [], st_committed = -1, st_lowest = -1, st_highest = 0,
                   st_forgotten = False \<rparr>"

definition tombstone :: partitionState where
  "tombstone = \<lparr> st_pending = [], st_done = [], st_committed = 0, st_lowest = 0, st_highest = 0,
                 st_forgotten = True \<rparr>"

subsection \<open>Operations\<close>

definition track_state :: "krecord \<Rightarrow> partitionState \<Rightarrow> partitionState" where
  "track_state r st = st\<lparr>
     st_pending := AList.update (k_Offset r) (k_LeaderEpoch r) (st_pending st),
     st_highest := (if k_Offset r > st_highest st then k_Offset r else st_highest st),
     st_lowest := (if st_lowest st < 0 \<or> k_Offset r < st_lowest st then k_Offset r else st_lowest st)\<rparr>"

definition Track :: "krecord \<Rightarrow> offsets \<Rightarrow> offsets" where
  "Track r os =
     (let k = key_of r;
          st = (case map_of os k of
                  None \<Rightarrow> fresh_state
                | Some st \<Rightarrow> if st_forgotten st then fresh_state else st)
      in AList.update k (track_state r st) os)"

definition Done :: "krecord \<Rightarrow> offsets \<Rightarrow> offsets" where
  "Done r os =
     (case map_of os (key_of r) of
        None \<Rightarrow> os
      | Some st \<Rightarrow>
          if st_forgotten st then os
          else if map_of (st_pending st) (k_Offset r) = None then os
          else AList.update (key_of r)
                 (st\<lparr>st_pending := AList.delete (k_Offset r) (st_pending st),
                     st_done := AList.update (k_Offset r) (k_LeaderEpoch r) (st_done st)\<rparr>) os)"

definition minOffset :: "(int \<times> 'v) list \<Rightarrow> int" where
  "minOffset m =
     fst (fold (\<lambda>(off, _) (mn, first). if first \<or> off < mn then (off, False) else (mn, first)) m (0, True))"

definition maxOffset :: "(int \<times> 'v) list \<Rightarrow> int" where
  "maxOffset m =
     fst (fold (\<lambda>(off, _) (mx, first). if first \<or> off > mx then (off, False) else (mx, first)) m (0, True))"

text \<open>A two-level Go map as the loops fill it, and reading it.\<close>

definition put2 :: "string \<Rightarrow> int \<Rightarrow> 'v \<Rightarrow> 'v per_partition \<Rightarrow> 'v per_partition" where
  "put2 t p v out =
     AList.update t (AList.update p v (case map_of out t of None \<Rightarrow> [] | Some tp \<Rightarrow> tp)) out"

definition get2 :: "'v per_partition \<Rightarrow> string \<Rightarrow> int \<Rightarrow> 'v option" where
  "get2 out t p = (case map_of out t of None \<Rightarrow> None | Some tp \<Rightarrow> map_of tp p)"

definition collect2 :: "('s \<Rightarrow> 'v option) \<Rightarrow> (partitionKey \<times> 's) list \<Rightarrow> 'v per_partition" where
  "collect2 f os = fold (\<lambda>((t, p), st) out. case f st of None \<Rightarrow> out | Some v \<Rightarrow> put2 t p v out) os []"

text \<open>The bodies of the loops; \<open>None\<close> is \<^verbatim>\<open>continue\<close>.\<close>

definition commit_point :: "partitionState \<Rightarrow> epoch_offset option" where
  "commit_point st =
     (if st_pending st = [] \<and> st_done st = [] then None
      else
        let watermark = (if st_pending st \<noteq> [] then minOffset (st_pending st)
                         else maxOffset (st_done st) + 1)
        in if watermark \<le> st_committed st then None
           else case map_of (st_done st) (watermark - 1) of
                  None \<Rightarrow> None
                | Some epoch \<Rightarrow> Some \<lparr> eo_Epoch = epoch, eo_Offset = watermark \<rparr>)"

definition rewind_point :: "partitionState \<Rightarrow> epoch_offset option" where
  "rewind_point st =
     (if st_forgotten st \<or> st_pending st = [] then None
      else
        let offset = minOffset (st_pending st) in
        Some \<lparr> eo_Epoch = (case map_of (st_done st) (offset - 1) of None \<Rightarrow> -1 | Some e \<Rightarrow> e),
               eo_Offset = offset \<rparr>)"

definition lag_of :: "partitionState \<Rightarrow> int option" where
  "lag_of st =
     (if st_forgotten st then None
      else
        let committed = (if st_committed st < 0 then st_lowest st else st_committed st)
        in Some (st_highest st + 1 - committed))"

definition Commitable :: "offsets \<Rightarrow> epoch_offset per_partition" where
  "Commitable os = collect2 commit_point os"

definition Pending :: "offsets \<Rightarrow> epoch_offset per_partition" where
  "Pending os = collect2 rewind_point os"

definition CommitLag :: "offsets \<Rightarrow> int per_partition" where
  "CommitLag os = collect2 lag_of os"

definition mark_one :: "partitionKey \<Rightarrow> epoch_offset \<Rightarrow> offsets \<Rightarrow> offsets" where
  "mark_one k eo os =
     (case map_of os k of
        None \<Rightarrow> os
      | Some st \<Rightarrow>
          if st_forgotten st then os
          else AList.update k
                 (st\<lparr>st_committed := eo_Offset eo,
                     st_done := filter (\<lambda>(off, _). \<not> off < eo_Offset eo) (st_done st)\<rparr>) os)"

definition MarkCommitted :: "epoch_offset per_partition \<Rightarrow> offsets \<Rightarrow> offsets" where
  "MarkCommitted committed os =
     fold (\<lambda>(topic, parts) os. fold (\<lambda>(part, eo) os. mark_one (topic, part) eo os) parts os) committed os"

definition Forget :: "string \<Rightarrow> int \<Rightarrow> offsets \<Rightarrow> offsets" where
  "Forget topic part os = AList.update (topic, part) tombstone os"

definition InFlight :: "offsets \<Rightarrow> nat" where
  "InFlight os = fold (\<lambda>(_, st) n. n + length (st_pending st)) os 0"

subsection \<open>The loops compute what they name\<close>

lemma min_loop:
  "fold (\<lambda>(off, _) (mn, first). if first \<or> off < mn then (off, False) else (mn, first)) m (a, False) =
     (Min (insert a (fst ` set m)), False)"
proof (induction m arbitrary: a)
  case (Cons x m)
  have "Min (insert a (insert (fst x) A)) = (if fst x < a then Min (insert (fst x) A) else Min (insert a A))"
    if "finite A" for A
    using that by (cases "A = {}") (auto simp: min_def)
  with Cons show ?case by (cases x) auto
qed simp

lemma minOffset_eq: "m \<noteq> [] \<Longrightarrow> minOffset m = Min (fst ` set m)"
  by (cases m) (auto simp: minOffset_def min_loop)

lemma max_loop:
  "fold (\<lambda>(off, _) (mx, first). if first \<or> off > mx then (off, False) else (mx, first)) m (a, False) =
     (Max (insert a (fst ` set m)), False)"
proof (induction m arbitrary: a)
  case (Cons x m)
  have "Max (insert a (insert (fst x) A)) = (if fst x > a then Max (insert (fst x) A) else Max (insert a A))"
    if "finite A" for A
    using that by (cases "A = {}") (auto simp: max_def)
  with Cons show ?case by (cases x) auto
qed simp

lemma maxOffset_eq: "m \<noteq> [] \<Longrightarrow> maxOffset m = Max (fst ` set m)"
  by (cases m) (auto simp: maxOffset_def max_loop)

lemma minOffset_le: "x \<in> fst ` set m \<Longrightarrow> minOffset m \<le> x"
  by (subst minOffset_eq) auto

lemma minOffset_mem: "m \<noteq> [] \<Longrightarrow> minOffset m \<in> fst ` set m"
  by (simp add: minOffset_eq)

lemma maxOffset_ge: "x \<in> fst ` set m \<Longrightarrow> x \<le> maxOffset m"
  by (subst maxOffset_eq) auto

lemma maxOffset_mem: "m \<noteq> [] \<Longrightarrow> maxOffset m \<in> fst ` set m"
  by (simp add: maxOffset_eq)

lemma get2_put2: "get2 (put2 t p v out) t' p' = (if t' = t \<and> p' = p then Some v else get2 out t' p')"
  by (auto simp: get2_def put2_def AList.update_conv' split: option.splits)

lemma get2_fold:
  "distinct (map fst os) \<Longrightarrow>
     get2 (fold (\<lambda>((t, p), st) out. case f st of None \<Rightarrow> out | Some v \<Rightarrow> put2 t p v out) os out) t p =
       (case map_of os (t, p) of None \<Rightarrow> get2 out t p
        | Some st \<Rightarrow> (case f st of None \<Rightarrow> get2 out t p | Some v \<Rightarrow> Some v))"
proof (induction os arbitrary: out)
  case (Cons x os)
  obtain t' p' st where x: "x = ((t', p'), st)" by (metis prod.exhaust)
  show ?case
  proof (cases "(t', p') = (t, p)")
    case True
    with Cons.prems x have "map_of os (t, p) = None" by (auto simp: map_of_eq_None_iff)
    with Cons x True show ?thesis by (auto simp: get2_put2 split: option.splits)
  next
    case False
    with Cons x show ?thesis by (auto simp: get2_put2 split: option.splits)
  qed
qed simp

text \<open>What each reading loop gives, whatever the order of the map.\<close>

lemma get2_collect2:
  "distinct (map fst os) \<Longrightarrow>
     get2 (collect2 f os) t p = (case map_of os (t, p) of None \<Rightarrow> None | Some st \<Rightarrow> f st)"
  using get2_fold [of os f "[]" t p] by (simp add: collect2_def get2_def split: option.splits)

subsection \<open>Well-formed states\<close>

definition state_ok :: "partitionState \<Rightarrow> bool" where
  "state_ok st \<longleftrightarrow> distinct (map fst (st_pending st)) \<and> distinct (map fst (st_done st))"

definition offsets_ok :: "offsets \<Rightarrow> bool" where
  "offsets_ok os \<longleftrightarrow> distinct (map fst os) \<and> (\<forall>k st. map_of os k = Some st \<longrightarrow> state_ok st)"

lemma offsets_ok_update: "offsets_ok os \<Longrightarrow> state_ok st \<Longrightarrow> offsets_ok (AList.update k st os)"
  by (auto simp: offsets_ok_def AList.distinct_update AList.update_conv' split: if_splits)

lemma offsets_okD: "offsets_ok os \<Longrightarrow> map_of os k = Some st \<Longrightarrow> state_ok st"
  unfolding offsets_ok_def by blast

lemma distinct_filter_fst: "distinct (map fst xs) \<Longrightarrow> distinct (map fst (filter P xs))"
  by (induction xs) auto

lemma distinct_delete: "distinct (map fst xs) \<Longrightarrow> distinct (map fst (AList.delete k xs))"
  by (simp add: AList.distinct_delete)

lemma state_ok_track: "state_ok st \<Longrightarrow> state_ok (track_state r st)"
  by (simp add: state_ok_def track_state_def AList.distinct_update)

lemma offsets_ok_Track: "offsets_ok os \<Longrightarrow> offsets_ok (Track r os)"
  by (auto simp: Track_def Let_def fresh_state_def state_ok_def
      intro!: offsets_ok_update state_ok_track dest: offsets_okD split: option.splits)

lemma offsets_ok_Done: "offsets_ok os \<Longrightarrow> offsets_ok (Done r os)"
  by (auto simp: Done_def state_ok_def AList.distinct_update distinct_delete
      intro!: offsets_ok_update dest: offsets_okD split: option.splits)

lemma offsets_ok_Forget: "offsets_ok os \<Longrightarrow> offsets_ok (Forget t p os)"
  by (auto simp: Forget_def tombstone_def state_ok_def intro!: offsets_ok_update)

lemma offsets_ok_mark_one: "offsets_ok os \<Longrightarrow> offsets_ok (mark_one k eo os)"
  by (auto simp: mark_one_def state_ok_def distinct_filter_fst
      intro!: offsets_ok_update dest: offsets_okD split: option.splits)

lemma fold_preserves: "P a \<Longrightarrow> (\<And>x a. P a \<Longrightarrow> P (f x a)) \<Longrightarrow> P (fold f xs a)"
  by (induction xs arbitrary: a) auto

lemma offsets_ok_Mark: "offsets_ok os \<Longrightarrow> offsets_ok (MarkCommitted c os)"
  unfolding MarkCommitted_def
  by (rule fold_preserves, assumption) (auto intro!: fold_preserves offsets_ok_mark_one)


subsection \<open>The specification\<close>

text \<open>
  What a consumer must know: per assigned partition, the offsets it has tracked since the
  assignment and those of them it has not finished since it last tracked them; \<open>None\<close> is a
  partition that is not assigned. A history of calls is interpreted on both levels.
\<close>

datatype offset_event =
    TrackE krecord
  | DoneE krecord
  | MarkE "epoch_offset per_partition"
  | ForgetE string int

record part_spec =
  seen :: "int set"
  unfinished :: "int set"

type_synonym tracker_spec = "partitionKey \<Rightarrow> part_spec option"

fun spec_step :: "offset_event \<Rightarrow> tracker_spec \<Rightarrow> tracker_spec" where
  "spec_step (TrackE r) a =
     (let old = (case a (key_of r) of None \<Rightarrow> \<lparr> seen = {}, unfinished = {} \<rparr> | Some ps \<Rightarrow> ps) in
      a(key_of r \<mapsto> \<lparr> seen = insert (k_Offset r) (seen old),
                      unfinished = insert (k_Offset r) (unfinished old) \<rparr>))"
| "spec_step (DoneE r) a =
     (case a (key_of r) of
        None \<Rightarrow> a
      | Some ps \<Rightarrow> a(key_of r \<mapsto> ps\<lparr>unfinished := unfinished ps - {k_Offset r}\<rparr>))"
| "spec_step (MarkE c) a = a"
| "spec_step (ForgetE t p) a = a((t, p) := None)"

fun offset_step :: "offset_event \<Rightarrow> offsets \<Rightarrow> offsets" where
  "offset_step (TrackE r) os = Track r os"
| "offset_step (DoneE r) os = Done r os"
| "offset_step (MarkE c) os = MarkCommitted c os"
| "offset_step (ForgetE t p) os = Forget t p os"

text \<open>
  What the caller guarantees: offsets are those of a log, and a mark never moves a watermark
  back (the sink marks what \<open>Commitable\<close> gave it, under one mutex).
\<close>

definition event_ok :: "offsets \<Rightarrow> offset_event \<Rightarrow> bool" where
  "event_ok os e \<longleftrightarrow>
     (case e of
        TrackE r \<Rightarrow> 0 \<le> k_Offset r
      | MarkE c \<Rightarrow>
          distinct (map fst c) \<and> (\<forall>(t, parts) \<in> set c. distinct (map fst parts)) \<and>
          (\<forall>t p eo st. get2 c t p = Some eo \<longrightarrow> map_of os (t, p) = Some st \<longrightarrow> st_committed st \<le> eo_Offset eo)
      | _ \<Rightarrow> True)"

fun history_ok :: "offsets \<Rightarrow> offset_event list \<Rightarrow> bool" where
  "history_ok os [] = True"
| "history_ok os (e # es) = (event_ok os e \<and> history_ok (offset_step e os) es)"

definition after :: "offset_event list \<Rightarrow> offsets" where
  "after es = fold offset_step es NewOffsets"

definition spec_after :: "offset_event list \<Rightarrow> tracker_spec" where
  "spec_after es = fold spec_step es (\<lambda>_. None)"

subsection \<open>Refinement\<close>

definition keys :: "(int \<times> 'v) list \<Rightarrow> int set" where
  "keys m = fst ` set m"

lemma keys_dom: "keys m = dom (map_of m)"
  by (simp add: keys_def dom_map_of_conv_image_fst)

lemma keys_simps [simp]:
  "keys [] = {}" "keys (x # m) = insert (fst x) (keys m)"
  "keys (AList.update k v m) = insert k (keys m)" "keys (AList.delete k m) = keys m - {k}"
  by (simp_all add: keys_def) (simp_all add: keys_dom [unfolded keys_def] AList.update_conv' AList.delete_conv')

lemma keys_filter: "keys (filter (\<lambda>(off, _). P off) m) = {x \<in> keys m. P x}"
  by (force simp: keys_def)

lemma keys_map_of: "map_of m x = None \<longleftrightarrow> x \<notin> keys m"
  by (auto simp: keys_def map_of_eq_None_iff)

definition refines_state :: "partitionState \<Rightarrow> part_spec \<Rightarrow> bool" where
  "refines_state st ps \<longleftrightarrow>
     keys (st_pending st) = unfinished ps \<and>
     unfinished ps \<subseteq> seen ps \<and> keys (st_done st) \<subseteq> seen ps \<and>
     finite (seen ps) \<and> seen ps \<noteq> {} \<and> (\<forall>x \<in> seen ps. 0 \<le> x) \<and>
     st_highest st = Max (seen ps) \<and> st_lowest st = Min (seen ps) \<and>
     (\<forall>x \<in> seen ps. x \<in> unfinished ps \<or> x \<in> keys (st_done st) \<or> x < st_committed st) \<and>
     -1 \<le> st_committed st"

fun refines_key :: "partitionState option \<Rightarrow> part_spec option \<Rightarrow> bool" where
  "refines_key None a = (a = None)"
| "refines_key (Some st) a =
     (if st_forgotten st then a = None \<and> st = tombstone else \<exists>ps. a = Some ps \<and> refines_state st ps)"

definition refines :: "offsets \<Rightarrow> tracker_spec \<Rightarrow> bool" where
  "refines os a \<longleftrightarrow> offsets_ok os \<and> (\<forall>k. refines_key (map_of os k) (a k))"

lemma max_if: "max x y = (if y < x then x else (y :: int))" "min x y = (if x < y then x else (y :: int))"
  by auto

lemma Max_insert_if: "finite A \<Longrightarrow> A \<noteq> {} \<Longrightarrow> Max (insert x A) = (if x > Max A then x else Max (A :: int set))"
  using Max.insert [of A x] unfolding max_if by blast

lemma Min_insert_if: "finite A \<Longrightarrow> A \<noteq> {} \<Longrightarrow> Min (insert x A) = (if x < Min A then x else Min (A :: int set))"
  using Min.insert [of A x] unfolding max_if by blast

lemma refines_track_state:
  assumes "refines_state st ps" and "0 \<le> k_Offset r"
  shows "refines_state (track_state r st)
     \<lparr> seen = insert (k_Offset r) (seen ps), unfinished = insert (k_Offset r) (unfinished ps) \<rparr>"
proof -
  have fin: "finite (seen ps)" "seen ps \<noteq> {}" using assms(1) unfolding refines_state_def by blast+
  have ends: "st_highest st = Max (seen ps)" "st_lowest st = Min (seen ps)"
    using assms(1) unfolding refines_state_def by blast+
  have "\<not> Min (seen ps) < 0"
    using assms(1) Min_in [OF fin] unfolding refines_state_def by (meson not_less)
  then have "\<not> st_lowest st < 0" unfolding ends .
  then have "st_highest (track_state r st) = Max (insert (k_Offset r) (seen ps))"
    and "st_lowest (track_state r st) = Min (insert (k_Offset r) (seen ps))"
    unfolding Max_insert_if [OF fin] Min_insert_if [OF fin] ends [symmetric]
    by (simp_all add: track_state_def)
  moreover have "keys (st_pending (track_state r st)) = insert (k_Offset r) (unfinished ps)"
    "st_done (track_state r st) = st_done st" "st_committed (track_state r st) = st_committed st"
    using assms(1) by (auto simp: refines_state_def track_state_def)
  ultimately show ?thesis using assms unfolding refines_state_def by auto
qed

lemma refines_track_fresh:
  "0 \<le> k_Offset r \<Longrightarrow>
     refines_state (track_state r fresh_state) \<lparr> seen = {k_Offset r}, unfinished = {k_Offset r} \<rparr>"
  by (auto simp: refines_state_def track_state_def fresh_state_def)

lemma refines_update:
  assumes "refines os a" and "state_ok st" and "\<not> st_forgotten st" and "refines_state st ps"
  shows "refines (AList.update k st os) (a(k \<mapsto> ps))"
  using assms offsets_ok_update [of os st k] unfolding refines_def by (auto simp: AList.update_conv')

lemma refinesD:
  assumes "refines os a"
  shows "offsets_ok os" "refines_key (map_of os k) (a k)"
  using assms unfolding refines_def by blast+

lemma refines_Track:
  assumes "refines os a" and "0 \<le> k_Offset r"
  shows "refines (Track r os) (spec_step (TrackE r) a)"
proof -
  note key = refinesD(2) [OF assms(1), of "key_of r"]
  note ok = refinesD(1) [OF assms(1)]
  define st where "st = (case map_of os (key_of r) of
                  None \<Rightarrow> fresh_state
                | Some st \<Rightarrow> if st_forgotten st then fresh_state else st)"
  define old where "old = (case a (key_of r) of None \<Rightarrow> \<lparr> seen = {}, unfinished = {} \<rparr> | Some ps \<Rightarrow> ps)"
  have "refines_state (track_state r st)
      \<lparr> seen = insert (k_Offset r) (seen old), unfinished = insert (k_Offset r) (unfinished old) \<rparr>"
    using key assms(2) refines_track_state refines_track_fresh
    by (auto simp: st_def old_def split: option.splits if_splits)
  moreover have "state_ok (track_state r st)"
    using offsets_okD [OF ok] by (intro state_ok_track)
      (auto simp: st_def fresh_state_def state_ok_def split: option.splits)
  moreover have "\<not> st_forgotten (track_state r st)"
    by (auto simp: st_def track_state_def fresh_state_def split: option.splits)
  ultimately have "refines (AList.update (key_of r) (track_state r st) os)
      (a(key_of r \<mapsto> \<lparr> seen = insert (k_Offset r) (seen old), unfinished = insert (k_Offset r) (unfinished old) \<rparr>))"
    by (intro refines_update [OF assms(1)])
  then show ?thesis by (simp add: Track_def Let_def st_def old_def)
qed

lemma refines_Done:
  assumes "refines os a"
  shows "refines (Done r os) (spec_step (DoneE r) a)"
proof (cases "map_of os (key_of r)")
  case None
  with refinesD(2) [OF assms, of "key_of r"] assms show ?thesis by (simp add: Done_def)
next
  case (Some st)
  note key = refinesD(2) [OF assms, of "key_of r", unfolded Some]
  show ?thesis
  proof (cases "st_forgotten st")
    case True
    with key Some assms show ?thesis by (simp add: Done_def)
  next
    case False
    with key obtain ps where ps: "a (key_of r) = Some ps" "refines_state st ps" by auto
    show ?thesis
    proof (cases "map_of (st_pending st) (k_Offset r)")
      case None
      then have "unfinished ps - {k_Offset r} = unfinished ps"
        using ps(2) by (auto simp: refines_state_def keys_map_of)
      then have "ps\<lparr>unfinished := unfinished ps - {k_Offset r}\<rparr> = ps" by simp
      then have "spec_step (DoneE r) a = a" using ps(1) by (auto simp: fun_upd_idem)
      with Some False None assms show ?thesis by (simp add: Done_def)
    next
      case (Some e)
      then have "k_Offset r \<in> unfinished ps"
        using ps(2) keys_map_of [of "st_pending st" "k_Offset r"] by (auto simp: refines_state_def)
      moreover have "state_ok st" using offsets_okD [OF refinesD(1) [OF assms] \<open>map_of os (key_of r) = Some st\<close>] .
      ultimately show ?thesis
        using Some False \<open>map_of os (key_of r) = Some st\<close> ps assms
        by (auto simp: Done_def refines_state_def state_ok_def AList.distinct_update distinct_delete
            intro!: refines_update)
    qed
  qed
qed


lemma refines_Forget: "refines os a \<Longrightarrow> refines (Forget t p os) (spec_step (ForgetE t p) a)"
  using offsets_ok_Forget [of os t p]
  unfolding refines_def by (auto simp: Forget_def AList.update_conv' tombstone_def)

lemma refines_mark_one:
  assumes "refines os a"
    and "\<And>st. map_of os k = Some st \<Longrightarrow> st_committed st \<le> eo_Offset eo"
  shows "refines (mark_one k eo os) a"
proof (cases "map_of os k")
  case None
  with assms(1) show ?thesis by (simp add: mark_one_def)
next
  case (Some st)
  note key = refinesD(2) [OF assms(1), of k, unfolded Some]
  show ?thesis
  proof (cases "st_forgotten st")
    case True
    with Some assms(1) show ?thesis by (simp add: mark_one_def)
  next
    case False
    with key obtain ps where ps: "a k = Some ps" "refines_state st ps" by auto
    let ?st = "st\<lparr>st_committed := eo_Offset eo,
                   st_done := filter (\<lambda>(off, _). \<not> off < eo_Offset eo) (st_done st)\<rparr>"
    have "refines_state ?st ps"
      using ps(2) assms(2) [OF Some] by (auto simp: refines_state_def keys_filter)
    moreover have "state_ok ?st"
      using offsets_okD [OF refinesD(1) [OF assms(1)] Some] by (simp add: state_ok_def distinct_filter_fst)
    ultimately have "refines (AList.update k ?st os) (a(k \<mapsto> ps))"
      using False by (intro refines_update [OF assms(1)]) auto
    then show ?thesis using Some False ps(1) by (simp add: mark_one_def fun_upd_idem)
  qed
qed

lemma mark_one_other: "k' \<noteq> k \<Longrightarrow> map_of (mark_one k eo os) k' = map_of os k'"
  by (auto simp: mark_one_def AList.update_conv' split: option.splits)

lemma refines_mark_parts:
  assumes "refines os a" and "distinct (map fst parts)"
    and "\<And>p eo st. map_of parts p = Some eo \<Longrightarrow> map_of os (t, p) = Some st \<Longrightarrow> st_committed st \<le> eo_Offset eo"
  shows "refines (fold (\<lambda>(part, eo) os. mark_one (t, part) eo os) parts os) a"
  using assms
proof (induction parts arbitrary: os)
  case (Cons x parts)
  obtain p eo where x: "x = (p, eo)" by (cases x)
  have "refines (mark_one (t, p) eo os) a"
    using Cons.prems(3) [of p eo] x by (intro refines_mark_one [OF Cons.prems(1)]) simp
  then have "refines (fold (\<lambda>(part, eo) os. mark_one (t, part) eo os) parts (mark_one (t, p) eo os)) a"
  proof (rule Cons.IH)
    show "distinct (map fst parts)" using Cons.prems(2) by simp
    fix p' eo' st
    assume *: "map_of parts p' = Some eo'" "map_of (mark_one (t, p) eo os) (t, p') = Some st"
    have "p \<notin> fst ` set parts" using Cons.prems(2) x by simp
    then have "p' \<noteq> p" using *(1) by (metis map_of_eq_None_iff option.distinct(1))
    then show "st_committed st \<le> eo_Offset eo'"
      using * Cons.prems(3) [of p' eo' st] x by (simp add: mark_one_other)
  qed
  then show ?case using x by simp
qed simp

lemma mark_parts_other:
  "fst k \<noteq> t \<Longrightarrow> map_of (fold (\<lambda>(part, eo) os. mark_one (t, part) eo os) parts os) k = map_of os k"
  by (induction parts arbitrary: os) (auto simp: mark_one_other prod_eq_iff)

lemma refines_Mark:
  assumes "refines os a" and "event_ok os (MarkE c)"
  shows "refines (MarkCommitted c os) a"
proof -
  have "distinct (map fst c)" "\<forall>(t, parts) \<in> set c. distinct (map fst parts)"
    and "\<And>t p eo st. get2 c t p = Some eo \<Longrightarrow> map_of os (t, p) = Some st \<Longrightarrow> st_committed st \<le> eo_Offset eo"
    using assms(2) by (auto simp: event_ok_def)
  with assms(1) show ?thesis
    unfolding MarkCommitted_def
  proof (induction c arbitrary: os)
    case (Cons x c)
    obtain t parts where x: "x = (t, parts)" by (cases x)
    let ?os = "fold (\<lambda>(part, eo) os. mark_one (t, part) eo os) parts os"
    have r: "refines ?os a"
    proof (rule refines_mark_parts [OF Cons.prems(1)])
      show "distinct (map fst parts)" using Cons.prems(3) x by simp
      show "map_of parts p = Some eo \<Longrightarrow> map_of os (t, p) = Some st \<Longrightarrow> st_committed st \<le> eo_Offset eo"
        for p eo st
        using Cons.prems(4) [of t p eo st] x by (simp add: get2_def)
    qed
    have "t \<notin> fst ` set c" using Cons.prems(2) x by simp
    then have none: "map_of c t = None" by (simp add: map_of_eq_None_iff)
    have "st_committed st \<le> eo_Offset eo"
      if "get2 c t' p = Some eo" "map_of ?os (t', p) = Some st" for t' p eo st
    proof -
      have "t' \<noteq> t" using that(1) none by (auto simp: get2_def)
      with that Cons.prems(4) [of t' p eo st] x show ?thesis by (simp add: get2_def mark_parts_other)
    qed
    with r Cons.prems x show ?case by (auto intro!: Cons.IH)
  qed simp
qed

lemma refines_step: "refines os a \<Longrightarrow> event_ok os e \<Longrightarrow> refines (offset_step e os) (spec_step e a)"
  by (cases e) (auto simp: event_ok_def simp del: spec_step.simps(1,2,4)
      intro: refines_Track refines_Done refines_Forget refines_Mark [unfolded event_ok_def])

lemma refines_after:
  assumes "history_ok NewOffsets es"
  shows "refines (after es) (spec_after es)"
proof -
  have "refines os a \<Longrightarrow> history_ok os es \<Longrightarrow> refines (fold offset_step es os) (fold spec_step es a)" for os a
    by (induction es arbitrary: os a) (auto intro: refines_step simp del: offset_step.simps spec_step.simps)
  moreover have "refines NewOffsets (\<lambda>_. None)" by (simp add: refines_def NewOffsets_def offsets_ok_def)
  ultimately show ?thesis using assms by (simp add: after_def spec_after_def)
qed


subsection \<open>The interface the sink relies on\<close>

text \<open>
  A tracker, for its clients: which offsets of a partition are open, how each call changes
  them, and that a commit point never passes an open one while a rewind goes back to the
  first. \<open>ok\<close> is the provider's own invariant.
\<close>

locale commit_tracker =
  fixes ok :: "'s \<Rightarrow> bool"
    and track :: "krecord \<Rightarrow> 's \<Rightarrow> 's"
    and finish :: "krecord \<Rightarrow> 's \<Rightarrow> 's"
    and forget :: "string \<Rightarrow> int \<Rightarrow> 's \<Rightarrow> 's"
    and commit_at :: "'s \<Rightarrow> partitionKey \<Rightarrow> int option"
    and rewind_at :: "'s \<Rightarrow> partitionKey \<Rightarrow> int option"
    and open_at :: "'s \<Rightarrow> partitionKey \<Rightarrow> int set"
  assumes ok_track: "ok s \<Longrightarrow> ok (track r s)"
    and ok_finish: "ok s \<Longrightarrow> ok (finish r s)"
    and ok_forget: "ok s \<Longrightarrow> ok (forget t p s)"
    and open_track: "ok s \<Longrightarrow> open_at (track r s) k =
          (if k = key_of r then insert (k_Offset r) (open_at s k) else open_at s k)"
    and open_finish: "ok s \<Longrightarrow> open_at (finish r s) k =
          (if k = key_of r then open_at s k - {k_Offset r} else open_at s k)"
    and open_forget: "ok s \<Longrightarrow> open_at (forget t p s) k = (if k = (t, p) then {} else open_at s k)"
    and commit_safe: "ok s \<Longrightarrow> commit_at s k = Some w \<Longrightarrow> x \<in> open_at s k \<Longrightarrow> w \<le> x"
    and rewind_first: "ok s \<Longrightarrow>
          rewind_at s k = (if open_at s k = {} then None else Some (Min (open_at s k)))"
    and open_finite: "ok s \<Longrightarrow> finite (open_at s k)"
begin

definition offsets_in :: "krecord list \<Rightarrow> partitionKey \<Rightarrow> int set" where
  "offsets_in rs k = k_Offset ` {r \<in> set rs. key_of r = k}"

lemma offsets_in_Cons:
  "offsets_in (r # rs) k = (if key_of r = k then insert (k_Offset r) (offsets_in rs k) else offsets_in rs k)"
  by (auto simp: offsets_in_def)

lemma track_all: "ok s \<Longrightarrow> ok (fold track rs s) \<and> open_at (fold track rs s) k = open_at s k \<union> offsets_in rs k"
  by (induction rs arbitrary: s) (auto simp: ok_track open_track offsets_in_Cons offsets_in_def [of "[]"])

lemma finish_all: "ok s \<Longrightarrow> ok (fold finish ds s) \<and> open_at (fold finish ds s) k = open_at s k - offsets_in ds k"
  by (induction ds arbitrary: s) (auto simp: ok_finish open_finish offsets_in_Cons offsets_in_def [of "[]"])

lemma still_open:
  assumes "ok s" and "r \<in> set rs" and "k_Offset r \<notin> offsets_in ds (key_of r)"
  shows "k_Offset r \<in> open_at (fold finish ds (fold track rs s)) (key_of r)"
  using track_all [OF assms(1)] finish_all assms(2,3) by (auto simp: offsets_in_def)

text \<open>A record that was tracked and not finished is never passed by a commit, and a rewind reaches it.\<close>

lemma unfinished_not_committed:
  assumes "ok s" and "r \<in> set rs" and "k_Offset r \<notin> offsets_in ds (key_of r)"
  shows "commit_at (fold finish ds (fold track rs s)) (key_of r) = Some w \<Longrightarrow> w \<le> k_Offset r"
    and "\<exists>w. rewind_at (fold finish ds (fold track rs s)) (key_of r) = Some w \<and> w \<le> k_Offset r"
proof -
  let ?s = "fold finish ds (fold track rs s)"
  have ok: "ok ?s" using track_all finish_all assms(1) by blast
  have mem: "k_Offset r \<in> open_at ?s (key_of r)"
    using assms by (rule still_open)
  then show "commit_at ?s (key_of r) = Some w \<Longrightarrow> w \<le> k_Offset r" using commit_safe [OF ok] by blast
  show "\<exists>w. rewind_at ?s (key_of r) = Some w \<and> w \<le> k_Offset r"
    using rewind_first [OF ok] open_finite [OF ok] mem by (auto intro!: Min_le)
qed

end

definition open_at :: "offsets \<Rightarrow> partitionKey \<Rightarrow> int set" where
  "open_at os k =
     (case map_of os k of None \<Rightarrow> {} | Some st \<Rightarrow> if st_forgotten st then {} else keys (st_pending st))"

definition commit_at :: "offsets \<Rightarrow> partitionKey \<Rightarrow> int option" where
  "commit_at os k = map_option eo_Offset (get2 (Commitable os) (fst k) (snd k))"

definition rewind_at :: "offsets \<Rightarrow> partitionKey \<Rightarrow> int option" where
  "rewind_at os k = map_option eo_Offset (get2 (Pending os) (fst k) (snd k))"

lemma get2_Commitable:
  "offsets_ok os \<Longrightarrow> get2 (Commitable os) t p = (case map_of os (t, p) of None \<Rightarrow> None | Some st \<Rightarrow> commit_point st)"
  by (simp add: Commitable_def get2_collect2 offsets_ok_def)

lemma get2_Pending:
  "offsets_ok os \<Longrightarrow> get2 (Pending os) t p = (case map_of os (t, p) of None \<Rightarrow> None | Some st \<Rightarrow> rewind_point st)"
  by (simp add: Pending_def get2_collect2 offsets_ok_def)

lemma get2_CommitLag:
  "offsets_ok os \<Longrightarrow> get2 (CommitLag os) t p = (case map_of os (t, p) of None \<Rightarrow> None | Some st \<Rightarrow> lag_of st)"
  by (simp add: CommitLag_def get2_collect2 offsets_ok_def)

lemma keys_empty: "keys m = {} \<longleftrightarrow> m = []"
  by (simp add: keys_def)

lemma keys_Some: "map_of m x = Some y \<Longrightarrow> x \<in> keys m"
  using keys_map_of [of m x] by simp

lemma minOffset_below: "x \<in> keys m \<Longrightarrow> minOffset m \<le> x"
  by (simp add: keys_def minOffset_le)

lemma commit_point_safe:
  assumes "commit_point st = Some eo"
  shows "\<forall>x \<in> keys (st_pending st). eo_Offset eo \<le> x" and "eo_Offset eo - 1 \<in> keys (st_done st)"
    and "map_of (st_done st) (eo_Offset eo - 1) = Some (eo_Epoch eo)"
    and "st_committed st < eo_Offset eo"
  using assms
  by (auto simp: commit_point_def Let_def split: if_splits option.splits dest: minOffset_below keys_Some)

lemma rewind_point_eq:
  "map_option eo_Offset (rewind_point st) =
     (if st_forgotten st \<or> keys (st_pending st) = {} then None else Some (Min (keys (st_pending st))))"
  by (auto simp: rewind_point_def Let_def keys_empty minOffset_eq) (simp add: keys_def minOffset_eq)

interpretation tracker: commit_tracker offsets_ok Track Done Forget commit_at rewind_at open_at
proof
  fix os :: offsets and r k t p w x
  assume ok: "offsets_ok os"
  show "offsets_ok (Track r os)" "offsets_ok (Done r os)" "offsets_ok (Forget t p os)"
    using ok by (rule offsets_ok_Track offsets_ok_Done offsets_ok_Forget)+
  show "open_at (Track r os) k = (if k = key_of r then insert (k_Offset r) (open_at os k) else open_at os k)"
    by (auto simp: open_at_def Track_def Let_def AList.update_conv' track_state_def fresh_state_def split: option.splits)
  show "open_at (Done r os) k = (if k = key_of r then open_at os k - {k_Offset r} else open_at os k)"
    by (auto simp: open_at_def Done_def AList.update_conv' keys_map_of split: option.splits if_splits)
  show "open_at (Forget t p os) k = (if k = (t, p) then {} else open_at os k)"
    by (auto simp: open_at_def Forget_def AList.update_conv' tombstone_def)
  show "finite (open_at os k)"
    by (auto simp: open_at_def keys_def split: option.splits)
  show "rewind_at os k = (if open_at os k = {} then None else Some (Min (open_at os k)))"
  proof -
    have "rewind_at os k = (case map_of os k of None \<Rightarrow> None | Some st \<Rightarrow> map_option eo_Offset (rewind_point st))"
      by (simp add: rewind_at_def get2_Pending [OF ok] split: option.split)
    then show ?thesis by (simp add: rewind_point_eq open_at_def split: option.split)
  qed
  show "w \<le> x" if "commit_at os k = Some w" "x \<in> open_at os k"
    using that get2_Commitable [OF ok, of "fst k" "snd k"] commit_point_safe(1)
    by (auto simp: commit_at_def open_at_def split: option.splits if_splits)
qed


subsection \<open>Marking\<close>

definition mark_state :: "epoch_offset \<Rightarrow> partitionState \<Rightarrow> partitionState" where
  "mark_state eo st =
     (if st_forgotten st then st
      else st\<lparr>st_committed := eo_Offset eo, st_done := filter (\<lambda>(off, _). \<not> off < eo_Offset eo) (st_done st)\<rparr>)"

lemma mark_one_same: "map_of (mark_one k eo os) k = map_option (mark_state eo) (map_of os k)"
  by (auto simp: mark_one_def mark_state_def AList.update_conv' split: option.splits)

lemma mark_parts_same:
  "distinct (map fst parts) \<Longrightarrow>
     map_of (fold (\<lambda>(part, eo) os. mark_one (t, part) eo os) parts os) (t, p) =
       (case map_of parts p of None \<Rightarrow> map_of os (t, p) | Some eo \<Rightarrow> map_option (mark_state eo) (map_of os (t, p)))"
proof (induction parts arbitrary: os)
  case (Cons x parts)
  obtain p' eo where x: "x = (p', eo)" by (cases x)
  show ?case
  proof (cases "p' = p")
    case True
    with Cons.prems x have "map_of parts p = None" by (simp add: map_of_eq_None_iff)
    with Cons x True show ?thesis by (simp add: mark_one_same)
  next
    case False
    with Cons x show ?thesis by (simp add: mark_one_other split: option.split)
  qed
qed simp

lemma map_of_Mark:
  "distinct (map fst c) \<Longrightarrow> \<forall>(t, parts) \<in> set c. distinct (map fst parts) \<Longrightarrow>
     map_of (MarkCommitted c os) (t, p) =
       (case get2 c t p of None \<Rightarrow> map_of os (t, p) | Some eo \<Rightarrow> map_option (mark_state eo) (map_of os (t, p)))"
  unfolding MarkCommitted_def
proof (induction c arbitrary: os)
  case (Cons x c)
  obtain t' parts where x: "x = (t', parts)" by (cases x)
  show ?case
  proof (cases "t' = t")
    case True
    with Cons.prems x have "map_of c t = None" by (simp add: map_of_eq_None_iff)
    then have "get2 c t p = None" by (simp add: get2_def)
    with Cons x True show ?thesis by (simp add: mark_parts_same get2_def split: option.split)
  next
    case False
    with Cons x show ?thesis by (simp add: mark_parts_other get2_def split: option.split)
  qed
qed (simp add: get2_def)

definition distinct2 :: "'v per_partition \<Rightarrow> bool" where
  "distinct2 c \<longleftrightarrow> distinct (map fst c) \<and> (\<forall>(t, parts) \<in> set c. distinct (map fst parts))"

lemma distinct2_alt:
  "distinct2 c \<longleftrightarrow> distinct (map fst c) \<and> (\<forall>t parts. map_of c t = Some parts \<longrightarrow> distinct (map fst parts))"
  unfolding distinct2_def by (auto dest: map_of_SomeD)

lemma distinct2_put2: "distinct2 c \<Longrightarrow> distinct2 (put2 t p v c)"
  unfolding distinct2_alt put2_def
  by (auto simp: AList.distinct_update AList.update_conv' split: if_splits option.splits)

lemma distinct2_collect2: "distinct2 (collect2 f os)"
  unfolding collect2_def
  by (rule fold_preserves) (auto simp: distinct2_put2 distinct2_def [of "[]"] split: option.splits)

lemma commit_point_marked:
  assumes "commit_point st = Some eo" and "\<not> st_forgotten st"
  shows "commit_point (mark_state eo st) = None"
proof (cases "st_pending st = []")
  case True
  with assms have eo: "eo_Offset eo = maxOffset (st_done st) + 1" and ne: "st_done st \<noteq> []"
    by (auto simp: commit_point_def Let_def split: if_splits option.splits)
  have "off < eo_Offset eo" if "(off, e) \<in> set (st_done st)" for off e
    using maxOffset_ge [of off "st_done st"] that eo by force
  then have "filter (\<lambda>(off, _). \<not> off < eo_Offset eo) (st_done st) = []"
    by (auto simp: filter_empty_conv)
  with True assms show ?thesis by (auto simp: mark_state_def commit_point_def)
next
  case False
  with assms have "eo_Offset eo = minOffset (st_pending st)"
    by (auto simp: commit_point_def Let_def split: if_splits option.splits)
  with False assms show ?thesis by (auto simp: mark_state_def commit_point_def)
qed


text \<open>An offset offered for commit is one past a seen record, and nothing below it is unfinished.\<close>

lemma commit_covers:
  assumes r: "refines os a" and c: "get2 (Commitable os) t p = Some eo"
  shows "\<exists>ps. a (t, p) = Some ps \<and>
     eo_Offset eo - 1 \<in> seen ps \<and> (\<forall>x \<in> seen ps. x < eo_Offset eo \<longrightarrow> x \<notin> unfinished ps)"
proof -
  obtain st where st: "map_of os (t, p) = Some st" "commit_point st = Some eo"
    using c get2_Commitable [OF refinesD(1) [OF r]] by (auto split: option.splits)
  have "\<not> st_forgotten st"
    using refinesD(2) [OF r, of "(t, p)"] st by (auto simp: tombstone_def commit_point_def split: if_splits)
  then obtain ps where ps: "a (t, p) = Some ps" "refines_state st ps"
    using refinesD(2) [OF r, of "(t, p)"] st(1) by auto
  have "\<forall>x \<in> unfinished ps. eo_Offset eo \<le> x"
    using commit_point_safe(1) [OF st(2)] ps(2) by (simp add: refines_state_def)
  moreover have "eo_Offset eo - 1 \<in> seen ps"
    using commit_point_safe(2) [OF st(2)] ps(2) by (auto simp: refines_state_def)
  ultimately show ?thesis using ps(1) by (auto simp: not_less [symmetric])
qed


subsection \<open>Properties\<close>

text \<open>
  C31: only a finished prefix is offered for commit: after any history of calls, the offset
  offered for a partition is one past a record of the current assignment, and every record of
  that assignment below it is finished; a partition that is not assigned is not offered.
\<close>

theorem commitable_covers_only_finished:
  assumes "history_ok NewOffsets es" and "get2 (Commitable (after es)) t p = Some eo"
  shows "\<exists>ps. spec_after es (t, p) = Some ps \<and>
     eo_Offset eo - 1 \<in> seen ps \<and> (\<forall>x \<in> seen ps. x < eo_Offset eo \<longrightarrow> x \<notin> unfinished ps)"
  using commit_covers [OF refines_after [OF assms(1)] assms(2)] .

text \<open>
  A drained partition is committed to its end: when every record of the assignment is
  finished, the partition either has no lag, or the offset offered is the one after the last
  record. So finishing everything always lets the group move past everything.
\<close>

theorem drained_partition_commits_to_the_end:
  assumes "history_ok NewOffsets es" and "spec_after es (t, p) = Some ps" and "unfinished ps = {}"
  shows "(\<exists>l. get2 (CommitLag (after es)) t p = Some l \<and> l \<le> 0) \<or>
         map_option eo_Offset (get2 (Commitable (after es)) t p) = Some (Max (seen ps) + 1)"
proof -
  note r = refines_after [OF assms(1)]
  note ok = refinesD(1) [OF r]
  obtain st where st: "map_of (after es) (t, p) = Some st" "\<not> st_forgotten st" "refines_state st ps"
    using refinesD(2) [OF r, of "(t, p)"] assms(2)
    by (cases "map_of (after es) (t, p)") (auto split: if_splits)
  have ps: "finite (seen ps)" "seen ps \<noteq> {}" "\<forall>x \<in> seen ps. 0 \<le> x" "st_highest st = Max (seen ps)"
    "keys (st_done st) \<subseteq> seen ps" "st_pending st = []"
    "\<forall>x \<in> seen ps. x \<in> keys (st_done st) \<or> x < st_committed st"
    using st(3) assms(3) by (auto simp: refines_state_def keys_empty)
  have top: "Max (seen ps) \<in> seen ps" using ps(1,2) by simp
  show ?thesis
  proof (cases "Max (seen ps) < st_committed st")
    case True
    with top ps(3) have "0 \<le> st_committed st" by force
    with True ps(4) st get2_CommitLag [OF ok] show ?thesis by (auto simp: lag_of_def Let_def)
  next
    case False
    with top ps(7) have "Max (seen ps) \<in> keys (st_done st)" by blast
    moreover have "maxOffset (st_done st) = Max (seen ps)"
    proof (rule antisym)
      have "st_done st \<noteq> []" using \<open>Max (seen ps) \<in> keys (st_done st)\<close> by auto
      from maxOffset_mem [OF this] ps(5) have "maxOffset (st_done st) \<in> seen ps" by (auto simp: keys_def)
      with ps(1) show "maxOffset (st_done st) \<le> Max (seen ps)" by simp
      show "Max (seen ps) \<le> maxOffset (st_done st)"
        using \<open>Max (seen ps) \<in> keys (st_done st)\<close> by (simp add: keys_def maxOffset_ge)
    qed
    ultimately show ?thesis
      using False ps(6) st get2_Commitable [OF ok, of t p] keys_map_of [of "st_done st" "Max (seen ps)"]
      by (auto simp: commit_point_def Let_def keys_empty [symmetric] split: option.splits)
  qed
qed

text \<open>
  C32: a rewind goes back exactly to the first unfinished record of each assigned partition,
  and a partition with nothing unfinished, or not assigned, is not rewound.
\<close>

theorem pending_rewinds_to_first_unfinished:
  assumes "history_ok NewOffsets es"
  shows "map_option eo_Offset (get2 (Pending (after es)) t p) =
     (case spec_after es (t, p) of
        None \<Rightarrow> None
      | Some ps \<Rightarrow> if unfinished ps = {} then None else Some (Min (unfinished ps)))"
proof -
  note r = refines_after [OF assms]
  show ?thesis
    using refinesD(2) [OF r, of "(t, p)"] get2_Pending [OF refinesD(1) [OF r], of t p]
    by (cases "map_of (after es) (t, p)")
       (auto simp: rewind_point_eq refines_state_def split: if_splits)
qed

text \<open>
  A commit is never repeated: right after what \<^verbatim>\<open>Commitable\<close> offered is marked committed,
  nothing is offered for any partition, and no finished offset below its watermark is kept.
\<close>

theorem marked_commit_is_not_repeated:
  assumes "history_ok NewOffsets es"
  shows "get2 (Commitable (MarkCommitted (Commitable (after es)) (after es))) t p = None \<and>
     (\<forall>eo st. get2 (Commitable (after es)) t p = Some eo \<longrightarrow>
        map_of (MarkCommitted (Commitable (after es)) (after es)) (t, p) = Some st \<longrightarrow>
        st_committed st = eo_Offset eo \<and> (\<forall>x \<in> keys (st_done st). eo_Offset eo \<le> x))"
proof -
  note r = refines_after [OF assms]
  note ok = refinesD(1) [OF r]
  note d = distinct2_collect2 [of commit_point "after es", folded Commitable_def, unfolded distinct2_def]
  note mark = map_of_Mark [OF d [THEN conjunct1] d [THEN conjunct2], of "after es" t p]
  have live: "\<not> st_forgotten st" if "map_of (after es) (t, p) = Some st" "commit_point st = Some eo" for st eo
    using refinesD(2) [OF r, of "(t, p)"] that by (auto simp: tombstone_def commit_point_def split: if_splits)
  note now = get2_Commitable [OF ok, of t p]
  note later = get2_Commitable [OF offsets_ok_Mark [OF ok], of _ t p]
  show ?thesis
  proof (cases "get2 (Commitable (after es)) t p")
    case None
    then show ?thesis using now later mark by (simp split: option.splits)
  next
    case (Some eo)
    then obtain st where st: "map_of (after es) (t, p) = Some st" "commit_point st = Some eo"
      using now by (auto split: option.splits)
    then show ?thesis
      using Some later mark commit_point_marked [OF st(2) live [OF st]] live [OF st]
      by (auto simp: mark_state_def keys_filter)
  qed
qed


subsection \<open>Witnesses\<close>

text \<open>Records 5 and 6 are tracked, 5 finishes; then 6 finishes too.\<close>

definition rec_at :: "int \<Rightarrow> krecord" where
  "rec_at off = \<lparr> k_Topic = ''t'', k_Partition = 0, k_Offset = off, k_LeaderEpoch = 3, k_Key = [],
                 k_Value = [], k_Timestamp = 0 \<rparr>"

definition half_done :: "offset_event list" where
  "half_done = [TrackE (rec_at 5), TrackE (rec_at 6), DoneE (rec_at 5)]"

definition all_done :: "offset_event list" where
  "all_done = half_done @ [DoneE (rec_at 6)]"

lemma rec_at_simps [simp]: "key_of (rec_at off) = (''t'', 0)" "k_Offset (rec_at off) = off"
  by (simp_all add: rec_at_def key_of_def)

lemma histories: "history_ok NewOffsets half_done" "history_ok NewOffsets all_done"
  by (simp_all add: half_done_def all_done_def event_ok_def)

lemma spec_of_histories:
  "spec_after half_done (''t'', 0) = Some \<lparr> seen = {5, 6}, unfinished = {6} \<rparr>"
  "spec_after all_done (''t'', 0) = Some \<lparr> seen = {5, 6}, unfinished = {} \<rparr>"
  by (auto simp: half_done_def all_done_def spec_after_def Let_def)

lemma commitable_half: "get2 (Commitable (after half_done)) ''t'' 0 = Some \<lparr> eo_Epoch = 3, eo_Offset = 6 \<rparr>"
  by code_simp

theorem commitable_covers_only_finished_witness:
  "\<exists>ps. spec_after half_done (''t'', 0) = Some ps \<and> 5 \<in> seen ps \<and> (\<forall>x \<in> seen ps. x < 6 \<longrightarrow> x \<notin> unfinished ps)"
  using commitable_covers_only_finished [OF histories(1) commitable_half] by simp

theorem drained_partition_commits_to_the_end_witness:
  "(\<exists>l. get2 (CommitLag (after all_done)) ''t'' 0 = Some l \<and> l \<le> 0) \<or>
   map_option eo_Offset (get2 (Commitable (after all_done)) ''t'' 0) = Some 7"
  using drained_partition_commits_to_the_end [OF histories(2) spec_of_histories(2)] by simp

theorem pending_rewinds_to_first_unfinished_witness:
  "map_option eo_Offset (get2 (Pending (after half_done)) ''t'' 0) = Some 6"
  using pending_rewinds_to_first_unfinished [OF histories(1), of "''t''" 0] by (simp add: spec_of_histories)

theorem marked_commit_is_not_repeated_witness:
  "get2 (Commitable (MarkCommitted (Commitable (after half_done)) (after half_done))) ''t'' 0 = None"
  using marked_commit_is_not_repeated [OF histories(1)] by blast

end
