(* ===== verification/Emit.thy ===== *)
theory Emit
  imports Outcome Config Offsets
begin

section \<open>Publishing outcomes and dead letters: \<^verbatim>\<open>internal/emit/emitter.go\<close>\<close>

text \<open>
  A publication is a promise: handed to the producer at once, resolved later by the broker's
  callback, claimed by at most one \<^verbatim>\<open>Wait\<close>. The emitter keeps the failures nobody has claimed,
  because a commit after them would lose the record; \<^verbatim>\<open>Flush\<close> reports them. A publication is
  named by its index, in hand-off order. The JSON encoder (generated code), the time format and
  the clock are parameters.
\<close>

subsection \<open>Messages\<close>

datatype reason = ReasonPoison | ReasonReject

fun reason_text :: "reason \<Rightarrow> string" where
  "reason_text ReasonPoison = ''poison''"
| "reason_text ReasonReject = ''reject''"

definition HeaderReason :: string where "HeaderReason = ''x-kafkatb-reason''"
definition HeaderError :: string where "HeaderError = ''x-kafkatb-error''"
definition HeaderDetail :: string where "HeaderDetail = ''x-kafkatb-detail''"
definition HeaderSrcTopic :: string where "HeaderSrcTopic = ''x-kafkatb-src-topic''"
definition HeaderSrcPartition :: string where "HeaderSrcPartition = ''x-kafkatb-src-partition''"
definition HeaderSrcOffset :: string where "HeaderSrcOffset = ''x-kafkatb-src-offset''"
definition HeaderSrcTimestamp :: string where "HeaderSrcTimestamp = ''x-kafkatb-src-timestamp''"
definition HeaderAttemptTS :: string where "HeaderAttemptTS = ''x-kafkatb-attempt-ts''"

record out_record =
  o_Topic :: string
  o_Key :: string
  o_Value :: string
  o_Headers :: "(string \<times> string) list"

record source =
  src_Topic :: string
  src_Partition :: int
  src_Offset :: int

record result_entry =
  e_Index :: int
  e_ID :: string
  e_Status :: string
  e_Error :: string

record results_message =
  rm_Source :: source
  rm_Results :: "result_entry slice"
  rm_EmitTS :: string

record emit_params =
  DLQ_topic :: string
  Results_topic :: string
  RFC3339Nano :: "int \<Rightarrow> string"
  Marshal :: "results_message \<Rightarrow> string + string"

text \<open>\<^verbatim>\<open>strconv.FormatInt(n, 10)\<close>.\<close>

definition itoa :: "int \<Rightarrow> string" where
  "itoa n = (if n < 0 then CHR ''-'' # dec (nat (- n)) else dec (nat n))"

fun status_text :: "status \<Rightarrow> string" where
  "status_text StatusOK = ''ok''"
| "status_text StatusRejected = ''rejected''"

subsection \<open>State\<close>

text \<open>
  \<open>p_e\<close> is whether the promise is tracked (\<^verbatim>\<open>p.e\<close> is not nil). \<open>produced\<close> and \<open>reported\<close> record
  history: the records in the order of the \<^verbatim>\<open>Produce\<close> calls, and the publications whose
  failure a \<^verbatim>\<open>Flush\<close> has returned.
\<close>

record publication =
  p_e :: bool
  p_done :: bool
  p_err :: "string option"
  p_taken :: bool

record emitter =
  pubs :: "publication list"
  untaken :: "(nat \<times> string) list"
  order :: "nat list"
  produced :: "(nat \<times> out_record) list"
  reported :: "nat set"

definition New_emitter :: emitter where
  "New_emitter = \<lparr> pubs = [], untaken = [], order = [], produced = [], reported = {} \<rparr>"

subsection \<open>Operations\<close>

definition Resolved :: "string option \<Rightarrow> publication" where
  "Resolved err = \<lparr> p_e = False, p_done = True, p_err = err, p_taken = False \<rparr>"

definition addFailure :: "nat \<Rightarrow> string \<Rightarrow> emitter \<Rightarrow> emitter" where
  "addFailure p err s = s\<lparr>untaken := AList.update p err (untaken s), order := order s @ [p]\<rparr>"

definition takeFailure :: "nat \<Rightarrow> emitter \<Rightarrow> emitter" where
  "takeFailure p s = s\<lparr>untaken := AList.delete p (untaken s)\<rparr>"

definition new_pub :: "publication \<Rightarrow> emitter \<Rightarrow> nat \<times> emitter" where
  "new_pub p s = (length (pubs s), s\<lparr>pubs := pubs s @ [p]\<rparr>)"

definition produce :: "out_record \<Rightarrow> emitter \<Rightarrow> nat \<times> emitter" where
  "produce out s =
     (let (p, s') = new_pub \<lparr> p_e = True, p_done = False, p_err = None, p_taken = False \<rparr> s
      in (p, s'\<lparr>produced := produced s' @ [(p, out)]\<rparr>))"

text \<open>The callback of \<^verbatim>\<open>Produce\<close>: the error is stored and tracked before \<^verbatim>\<open>done\<close> is closed.\<close>

definition callback :: "string \<Rightarrow> nat \<Rightarrow> string option \<Rightarrow> emitter \<Rightarrow> emitter" where
  "callback what p err s =
     (case err of
        None \<Rightarrow> s\<lparr>pubs := (pubs s)[p := (pubs s ! p)\<lparr>p_done := True\<rparr>]\<rparr>
      | Some e \<Rightarrow>
          let e' = what @ '': '' @ e in
          addFailure p e' (s\<lparr>pubs := (pubs s)[p := (pubs s ! p)\<lparr>p_done := True, p_err := Some e'\<rparr>]\<rparr>))"

definition failed :: "string \<Rightarrow> emitter \<Rightarrow> nat \<times> emitter" where
  "failed err s =
     (let (p, s') = new_pub ((Resolved (Some err))\<lparr>p_e := True\<rparr>) s in (p, addFailure p err s'))"

definition take_pub :: "nat \<Rightarrow> emitter \<Rightarrow> string option \<times> emitter" where
  "take_pub p s =
     (let pub = pubs s ! p in
      (p_err pub,
       if p_err pub \<noteq> None \<and> p_e pub \<and> \<not> p_taken pub
       then takeFailure p (s\<lparr>pubs := (pubs s)[p := pub\<lparr>p_taken := True\<rparr>]\<rparr>)
       else s))"

text \<open>
  \<^verbatim>\<open>Wait\<close>: the outcome of the publication, or the context's error, or (\<open>None\<close>) still waiting.
\<close>

datatype wait_result = Acked | Nacked string | CtxDone

definition Wait :: "bool \<Rightarrow> nat \<Rightarrow> emitter \<Rightarrow> (wait_result \<times> emitter) option" where
  "Wait ctx_done p s =
     (if p_done (pubs s ! p) then
        (case take_pub p s of
           (None, s') \<Rightarrow> Some (Acked, s')
         | (Some e, s') \<Rightarrow> Some (Nacked e, s'))
      else if ctx_done then Some (CtxDone, s) else None)"

definition DLQ_record :: "emit_params \<Rightarrow> int \<Rightarrow> krecord \<Rightarrow> reason \<Rightarrow> string \<Rightarrow> string \<Rightarrow> out_record" where
  "DLQ_record E now rec rsn errName detail =
     \<lparr> o_Topic = DLQ_topic E, o_Key = k_Key rec, o_Value = k_Value rec,
       o_Headers =
         [(HeaderReason, reason_text rsn),
          (HeaderError, errName),
          (HeaderDetail, detail),
          (HeaderSrcTopic, k_Topic rec),
          (HeaderSrcPartition, itoa (k_Partition rec)),
          (HeaderSrcOffset, itoa (k_Offset rec)),
          (HeaderSrcTimestamp, RFC3339Nano E (k_Timestamp rec)),
          (HeaderAttemptTS, RFC3339Nano E now)] \<rparr>"

definition DLQ ::
    "emit_params \<Rightarrow> int \<Rightarrow> krecord \<Rightarrow> reason \<Rightarrow> string \<Rightarrow> string \<Rightarrow> emitter \<Rightarrow> nat \<times> emitter" where
  "DLQ E now rec rsn errName detail s = produce (DLQ_record E now rec rsn errName detail) s"

definition results_of :: "emit_params \<Rightarrow> int \<Rightarrow> krecord \<Rightarrow> outcome list \<Rightarrow> results_message" where
  "results_of E now rec outcomes =
     \<lparr> rm_Source = \<lparr> src_Topic = k_Topic rec, src_Partition = k_Partition rec, src_Offset = k_Offset rec \<rparr>,
       rm_Results = Some (map (\<lambda>o'. \<lparr> e_Index = int (Index o'), e_ID = ID o', e_Status = status_text (Status o'),
                               e_Error = Error o' \<rparr>) outcomes),
       rm_EmitTS = RFC3339Nano E now \<rparr>"

definition Results :: "emit_params \<Rightarrow> int \<Rightarrow> krecord \<Rightarrow> outcome list \<Rightarrow> emitter \<Rightarrow> nat \<times> emitter" where
  "Results E now rec outcomes s =
     (if Results_topic E = [] then new_pub (Resolved None) s
      else
        (case Marshal E (results_of E now rec outcomes) of
           Inl err \<Rightarrow> failed (''marshal results: '' @ err) s
         | Inr body \<Rightarrow>
             produce \<lparr> o_Topic = Results_topic E, o_Key = k_Key rec, o_Value = body, o_Headers = [] \<rparr> s))"

text \<open>
  \<^verbatim>\<open>Flush\<close>, after the client's own flush (whose error is returned as it is). The second
  component of the error is \<^verbatim>\<open>firstErr\<close>, nil when no entry of \<^verbatim>\<open>order\<close> is tracked.
\<close>

datatype flush_error = ProducerError string | Unacknowledged nat "string option"

fun first_error :: "(nat \<times> string) list \<Rightarrow> nat list \<Rightarrow> string option" where
  "first_error m [] = None"
| "first_error m (p # ps) = (case map_of m p of Some err \<Rightarrow> Some err | None \<Rightarrow> first_error m ps)"

definition Flush :: "string option \<Rightarrow> emitter \<Rightarrow> flush_error option \<times> emitter" where
  "Flush client_err s =
     (case client_err of
        Some e \<Rightarrow> (Some (ProducerError e), s)
      | None \<Rightarrow>
          if untaken s = [] then (None, s)
          else (Some (Unacknowledged (length (untaken s)) (first_error (untaken s) (order s))),
                s\<lparr>untaken := [], order := [], reported := reported s \<union> fst ` set (untaken s)\<rparr>))"

subsection \<open>Steps\<close>

text \<open>
  The calls of the sink, the callbacks of the producer, and \<^verbatim>\<open>Flush\<close>. What the code relies on
  of the producer: each callback comes once, and \<^verbatim>\<open>Flush\<close> of the client returns nil only when
  every record handed to it has had its callback.
\<close>

inductive emit_step :: "emit_params \<Rightarrow> emitter \<Rightarrow> emitter \<Rightarrow> bool" for E where
  dlq: "emit_step E s (snd (DLQ E now rec rsn errName detail s))"
| results: "emit_step E s (snd (Results E now rec outcomes s))"
| callback: "p < length (pubs s) \<Longrightarrow> \<not> p_done (pubs s ! p) \<Longrightarrow> emit_step E s (callback what p err s)"
| wait: "p < length (pubs s) \<Longrightarrow> Wait ctx p s = Some (res, t) \<Longrightarrow> emit_step E s t"
| flush_failed: "emit_step E s (snd (Flush (Some e) s))"
| flush: "\<forall>p \<in> set (pubs s). p_done p \<Longrightarrow> emit_step E s (snd (Flush None s))"

inductive_cases emit_stepE: "emit_step E s t"

abbreviation emit_reaches :: "emit_params \<Rightarrow> emitter \<Rightarrow> bool" where
  "emit_reaches E s \<equiv> reachable (emit_step E) New_emitter s"

subsection \<open>Tracking\<close>

text \<open>Every failed publication is claimed, tracked or reported; only those are tracked.\<close>

definition pub_ok :: "emitter \<Rightarrow> nat \<Rightarrow> bool" where
  "pub_ok s p \<longleftrightarrow>
     (let pub = pubs s ! p in
      (p_err pub \<noteq> None \<longrightarrow> p_done pub \<and> p_e pub) \<and>
      (p_err pub \<noteq> None \<longrightarrow> p_taken pub \<or> p \<in> fst ` set (untaken s) \<or> p \<in> reported s) \<and>
      (p \<in> fst ` set (untaken s) \<longrightarrow>
         p_err pub \<noteq> None \<and> \<not> p_taken pub \<and> p \<in> set (order s) \<and> p \<notin> reported s) \<and>
      (p \<in> reported s \<longrightarrow> p_done pub))"

definition emitter_ok :: "emitter \<Rightarrow> bool" where
  "emitter_ok s \<longleftrightarrow>
     (\<forall>p < length (pubs s). pub_ok s p) \<and>
     (\<forall>p \<in> fst ` set (untaken s) \<union> reported s. p < length (pubs s)) \<and> distinct (map fst (untaken s))"


lemma untaken_update: "fst ` set (AList.update p e m) = insert p (fst ` set m)"
  by (metis AList.dom_update insert_def Un_commute dom_map_of_conv_image_fst insert_is_Un)

lemma untaken_delete: "fst ` set (AList.delete p m) = fst ` set m - {p}"
  by (simp add: AList.delete_conv' dom_map_of_conv_image_fst [symmetric])

lemma emitter_ok_new_pub:
  assumes "emitter_ok s" and "p_err p = None"
  shows "emitter_ok (snd (new_pub p s))"
proof -
  have "length (pubs s) \<notin> fst ` set (untaken s) \<union> reported s"
    using assms(1) unfolding emitter_ok_def by blast
  then show ?thesis
    using assms by (auto simp: emitter_ok_def pub_ok_def new_pub_def nth_append less_Suc_eq Let_def)
qed

lemma emitter_ok_produced: "emitter_ok (s\<lparr>produced := x\<rparr>) = emitter_ok s"
  by (simp add: emitter_ok_def pub_ok_def)

lemma emitter_ok_produce: "emitter_ok s \<Longrightarrow> emitter_ok (snd (produce out s))"
  using emitter_ok_new_pub [of s "\<lparr> p_e = True, p_done = False, p_err = None, p_taken = False \<rparr>"]
  by (simp add: produce_def Let_def split_beta emitter_ok_produced)

lemma emitter_okD:
  assumes "emitter_ok s"
  shows "p < length (pubs s) \<Longrightarrow> pub_ok s p" "p \<in> fst ` set (untaken s) \<Longrightarrow> p < length (pubs s)"
    "p \<in> reported s \<Longrightarrow> p < length (pubs s)" "distinct (map fst (untaken s))"
  using assms unfolding emitter_ok_def by blast+

lemma emitter_ok_failed:
  assumes "emitter_ok s"
  shows "emitter_ok (snd (failed err s))"
proof -
  let ?t = "snd (failed err s)" and ?n = "length (pubs s)"
  note d = emitter_okD [OF assms]
  have t: "pubs ?t = pubs s @ [(Resolved (Some err))\<lparr>p_e := True\<rparr>]" "untaken ?t = AList.update ?n err (untaken s)"
    "order ?t = order s @ [?n]" "reported ?t = reported s"
    by (simp_all add: failed_def new_pub_def addFailure_def)
  have fresh: "?n \<notin> reported s" using d(3) by blast
  have "pub_ok ?t q" if "q < length (pubs ?t)" for q
  proof (cases "q = ?n")
    case True
    then show ?thesis using fresh by (simp add: pub_ok_def t untaken_update Resolved_def Let_def)
  next
    case False
    with that have "q < ?n" by (simp add: t)
    with d(1) [OF this] False show ?thesis by (simp add: pub_ok_def t untaken_update nth_append Let_def)
  qed
  moreover have "q < length (pubs ?t)" if "q \<in> fst ` set (untaken ?t) \<union> reported ?t" for q
  proof -
    have "q = ?n \<or> q < ?n" using that d(2,3) unfolding t untaken_update by blast
    then show ?thesis by (auto simp: t)
  qed
  moreover have "distinct (map fst (untaken ?t))" using d(4) unfolding t by (simp add: AList.distinct_update)
  ultimately show ?thesis unfolding emitter_ok_def by blast
qed

lemma emitter_ok_callback:
  assumes "emitter_ok s" and "p < length (pubs s)" and "\<not> p_done (pubs s ! p)" and "p_e (pubs s ! p)"
    and "\<not> p_taken (pubs s ! p)"
  shows "emitter_ok (callback what p err s)"
proof (cases err)
  case None
  then show ?thesis using assms
    by (auto simp: emitter_ok_def pub_ok_def callback_def nth_list_update Let_def)
next
  case (Some e)
  then show ?thesis using assms
    by (auto simp: emitter_ok_def pub_ok_def callback_def addFailure_def nth_list_update Let_def
        untaken_update AList.distinct_update)
qed

lemma emitter_ok_take:
  assumes "emitter_ok s" and "p < length (pubs s)"
  shows "emitter_ok (snd (take_pub p s))"
proof (cases "p_err (pubs s ! p) \<noteq> None \<and> p_e (pubs s ! p) \<and> \<not> p_taken (pubs s ! p)")
  case True
  let ?t = "takeFailure p (s\<lparr>pubs := (pubs s)[p := (pubs s ! p)\<lparr>p_taken := True\<rparr>]\<rparr>)"
  note d = emitter_okD [OF assms(1)]
  have t: "pubs ?t = (pubs s)[p := (pubs s ! p)\<lparr>p_taken := True\<rparr>]" "untaken ?t = AList.delete p (untaken s)"
    "order ?t = order s" "reported ?t = reported s"
    by (simp_all add: takeFailure_def)
  have "pub_ok ?t q" if "q < length (pubs ?t)" for q
    using d(1) [of q] that assms(2) by (auto simp: pub_ok_def t untaken_delete nth_list_update Let_def)
  moreover have "q < length (pubs ?t)" if "q \<in> fst ` set (untaken ?t) \<union> reported ?t" for q
    using that d(2,3) [of q] unfolding t untaken_delete by auto
  moreover have "distinct (map fst (untaken ?t))" using d(4) unfolding t by (simp add: AList.distinct_delete)
  ultimately have "emitter_ok ?t" unfolding emitter_ok_def by blast
  with True show ?thesis by (simp add: take_pub_def Let_def)
next
  case False
  then have "snd (take_pub p s) = s" unfolding take_pub_def Let_def by (simp only: snd_conv if_False)
  with assms(1) show ?thesis by simp
qed

lemma emitter_ok_Flush: "emitter_ok s \<Longrightarrow> emitter_ok (snd (Flush err s))"
  by (auto simp: emitter_ok_def pub_ok_def Flush_def Let_def split: option.splits)

text \<open>A publication whose callback is due is tracked and unclaimed.\<close>

definition due_ok :: "emitter \<Rightarrow> bool" where
  "due_ok s \<longleftrightarrow> (\<forall>p \<in> set (pubs s). \<not> p_done p \<longrightarrow> p_e p \<and> \<not> p_taken p)"

lemma take_fst: "fst (take_pub p s) = p_err (pubs s ! p)"
  by (simp add: take_pub_def Let_def)

lemma Wait_cases:
  "Wait ctx p s = Some (res, t) \<Longrightarrow> t = s \<or> p_done (pubs s ! p) \<and> t = snd (take_pub p s)"
  by (auto simp: Wait_def split: if_splits prod.splits option.splits)

lemma due_ok_step: "emit_step E s t \<Longrightarrow> due_ok s \<Longrightarrow> due_ok t"
proof (erule emit_stepE)
  fix p ctx res
  assume "due_ok s" "p < length (pubs s)" "Wait ctx p s = Some (res, t)"
  then show "due_ok t"
    by (auto dest!: Wait_cases simp: due_ok_def take_pub_def takeFailure_def Let_def split: if_splits
        dest!: set_update_subset_insert [THEN subsetD])
qed (auto simp: due_ok_def DLQ_def Results_def produce_def new_pub_def failed_def addFailure_def
      Resolved_def callback_def Flush_def Let_def split: option.splits sum.splits if_splits
      dest!: set_update_subset_insert [THEN subsetD])

lemma emitter_ok_step:
  assumes "emit_step E s t" and "due_ok s" and "emitter_ok s"
  shows "emitter_ok t"
  using assms(1)
proof cases
  case (dlq now rec rsn errName detail)
  then show ?thesis using emitter_ok_produce [OF assms(3)] by (simp add: DLQ_def)
next
  case (results now rec outcomes)
  then show ?thesis
    using emitter_ok_produce [OF assms(3)] emitter_ok_failed [OF assms(3)]
      emitter_ok_new_pub [OF assms(3), of "Resolved None"]
    by (auto simp: Results_def Resolved_def split: sum.splits)
next
  case (callback p what err)
  then show ?thesis using emitter_ok_callback [OF assms(3)] assms(2) by (auto simp: due_ok_def)
next
  case (wait p ctx res)
  then show ?thesis using emitter_ok_take [OF assms(3)] assms(3) by (auto dest: Wait_cases)
next
  case (flush_failed e)
  then show ?thesis using emitter_ok_Flush [OF assms(3)] by simp
next
  case flush
  then show ?thesis using emitter_ok_Flush [OF assms(3)] by simp
qed

lemma emit_reaches_ok: "emit_reaches E s \<Longrightarrow> due_ok s \<and> emitter_ok s"
proof (erule reachable_invariant)
  show "due_ok New_emitter \<and> emitter_ok New_emitter"
    by (simp add: due_ok_def emitter_ok_def New_emitter_def)
qed (use due_ok_step emitter_ok_step in blast)


subsection \<open>Properties\<close>

lemma first_error_some: "p \<in> set ps \<Longrightarrow> map_of m p = Some e \<Longrightarrow> first_error m ps \<noteq> None"
  by (induction ps) (auto split: option.splits)

lemma Flush_reports:
  assumes "emitter_ok s" and "untaken s \<noteq> []"
  shows "\<exists>n e. fst (Flush None s) = Some (Unacknowledged n (Some e)) \<and> n = length (untaken s)"
proof -
  obtain p e m where m: "untaken s = (p, e) # m" using assms(2) by (cases "untaken s") auto
  have "\<forall>q \<in> fst ` set (untaken s). q < length (pubs s) \<and> pub_ok s q"
    using assms(1) unfolding emitter_ok_def by blast
  then have "p \<in> set (order s)" unfolding pub_ok_def Let_def using m by simp
  then have "first_error (untaken s) (order s) \<noteq> None" using m first_error_some [of p "order s" "untaken s" e] by simp
  then obtain e' where "first_error (untaken s) (order s) = Some e'" by auto
  then show ?thesis using assms(2) by (simp add: Flush_def)
qed

text \<open>
  C33: no publication is lost behind a flush: when \<^verbatim>\<open>Flush\<close> returns nil, each publication handed
  to the producer so far is acknowledged by the broker, or its failure was returned by \<^verbatim>\<open>Wait\<close>
  to its caller, or an earlier \<^verbatim>\<open>Flush\<close> reported it; otherwise \<^verbatim>\<open>Flush\<close> returns an error that
  names a failure and counts the unclaimed ones.
\<close>

theorem flush_accounts_for_every_publication:
  assumes "emit_reaches E s" and "\<forall>p \<in> set (pubs s). p_done p" and "p < length (pubs s)"
  shows "if fst (Flush None s) = None
         then p_err (pubs s ! p) = None \<or> p_taken (pubs s ! p) \<or> p \<in> reported s
         else (\<exists>n e. fst (Flush None s) = Some (Unacknowledged n (Some e)) \<and>
                     n = card {q. q < length (pubs s) \<and> p_err (pubs s ! q) \<noteq> None \<and>
                                  \<not> p_taken (pubs s ! q) \<and> q \<notin> reported s})"
proof (cases "untaken s = []")
  case True
  then show ?thesis
    using emit_reaches_ok [OF assms(1)] assms(3) by (auto simp: Flush_def emitter_ok_def pub_ok_def Let_def)
next
  case False
  note ok = conjunct2 [OF emit_reaches_ok [OF assms(1)]]
  have "fst ` set (untaken s) = {q. q < length (pubs s) \<and> p_err (pubs s ! q) \<noteq> None \<and>
                                  \<not> p_taken (pubs s ! q) \<and> q \<notin> reported s}"
    using ok unfolding emitter_ok_def pub_ok_def Let_def by blast
  moreover have "card (fst ` set (untaken s)) = length (untaken s)"
    using ok distinct_card [of "map fst (untaken s)"] by (simp add: emitter_ok_def)
  ultimately show ?thesis using Flush_reports [OF ok False] by auto
qed


lemma itoa_inj: "itoa m = itoa n \<longleftrightarrow> m = n"
proof -
  have neg: "dec k \<noteq> CHR ''-'' # s" for k s
  proof
    assume "dec k = CHR ''-'' # s"
    then have "is_digit CHR ''-''" by (metis dec_digits list.pred_inject(2))
    then show False by (simp add: is_digit_def)
  qed
  then show ?thesis using neg [symmetric] by (auto simp: itoa_def dec_inj split: if_splits)
qed

text \<open>
  A dead letter can be replayed and traced: it carries the original key and value
  unchanged, and its source headers determine the record's topic, partition and offset.
\<close>

theorem dead_letter_identifies_its_record:
  assumes "o_Headers (DLQ_record E now rec rsn errName detail) = o_Headers (DLQ_record E now' rec' rsn' errName' detail')"
  shows "k_Topic rec = k_Topic rec' \<and> k_Partition rec = k_Partition rec' \<and> k_Offset rec = k_Offset rec' \<and>
     rsn = rsn' \<and> errName = errName' \<and>
     o_Value (DLQ_record E now rec rsn errName detail) = k_Value rec \<and>
     o_Key (DLQ_record E now rec rsn errName detail) = k_Key rec"
  using assms by (cases rsn; cases rsn') (simp_all add: DLQ_record_def itoa_inj)

definition failing_round :: "out_record \<Rightarrow> emitter \<Rightarrow> emitter" where
  "failing_round out s =
     (let (p, s1) = produce out s;
          s2 = callback ''produce dlq'' p (Some ''timeout'') s1;
          s3 = snd (take_pub p s2)
      in snd (Flush None s3))"

lemma delete_update: "p \<notin> fst ` set m \<Longrightarrow> AList.delete p (AList.update p e m) = m"
  by (induction m) (auto simp: AList.delete_eq filter_id_conv intro!: filter_True)

text \<open>
  A retry loop around one failing publication leaks: \<^verbatim>\<open>Wait\<close> removes a claimed failure
  from \<^verbatim>\<open>untaken\<close> but not from \<^verbatim>\<open>order\<close>, and a \<^verbatim>\<open>Flush\<close> with nothing unclaimed returns nil
  without resetting it. After \<open>n\<close> rounds of a publication that fails, is waited for and is
  followed by a flush, nothing is tracked but \<^verbatim>\<open>order\<close> holds \<open>n\<close> publications.
\<close>

theorem claimed_failures_stay_in_order:
  "untaken ((failing_round out ^^ n) New_emitter) = [] \<and>
   length (order ((failing_round out ^^ n) New_emitter)) = n"
proof (induction n)
  case (Suc n)
  have "untaken (failing_round out s) = [] \<and> length (order (failing_round out s)) = Suc (length (order s))"
    if "untaken s = []" for s
    using that
    by (simp add: failing_round_def produce_def new_pub_def callback_def addFailure_def take_pub_def
        takeFailure_def Flush_def Let_def nth_append AList.delete_eq)
  with Suc show ?case by simp
qed (simp add: New_emitter_def)

subsection \<open>Witnesses\<close>

definition demo_emit :: emit_params where
  "demo_emit = \<lparr> DLQ_topic = ''dlq'', Results_topic = [], RFC3339Nano = itoa, Marshal = (\<lambda>_. Inr []) \<rparr>"

definition demo_failed :: emitter where
  "demo_failed = callback ''produce dlq'' 0 (Some ''timeout'')
     (snd (DLQ demo_emit 0 (rec_at 5) ReasonPoison ''decode'' [] New_emitter))"

lemma demo_failed_reaches: "emit_reaches demo_emit demo_failed"
proof -
  have "emit_reaches demo_emit (snd (DLQ demo_emit 0 (rec_at 5) ReasonPoison ''decode'' [] New_emitter))"
    by (rule reachable.next_state [where s = New_emitter]) (rule reachable.start, rule emit_step.dlq)
  then show ?thesis
    unfolding demo_failed_def
    by (rule reachable.next_state)
       (rule emit_step.callback, simp_all add: DLQ_def produce_def new_pub_def New_emitter_def)
qed

lemma demo_failed_pubs: "pubs demo_failed = [\<lparr> p_e = True, p_done = True,
    p_err = Some ''produce dlq: timeout'', p_taken = False \<rparr>]" "reported demo_failed = {}"
  by code_simp+

theorem flush_accounts_for_every_publication_witness:
  "fst (Flush None demo_failed) \<noteq> None"
  using flush_accounts_for_every_publication [OF demo_failed_reaches, of 0]
  by (simp add: demo_failed_pubs split: if_splits)

theorem dead_letter_identifies_its_record_witness:
  "o_Value (DLQ_record demo_emit 1 (rec_at 5) ReasonPoison ''decode'' []) = k_Value (rec_at 5)"
  using dead_letter_identifies_its_record [OF refl] by blast

end
