(* ===== verification/Cdc_Message.thy ===== *)
theory Cdc_Message
  imports Ids Amount Registry Emit
begin

section \<open>Change-event messages: \<^verbatim>\<open>internal/cdc/message.go\<close>\<close>

text \<open>
  How one change event becomes a Kafka record: names from the registries, amounts at the
  ledger's scale, ids as UUID strings, and the checkpoint that makes the output topic the job's
  only state. The generated JSON encoder is a parameter (\<open>Wire\<close> puts it in place) that says, besides the text, whether it
  fitted the scratch buffer it was given.
\<close>

subsection \<open>Messages\<close>

definition HeaderEventType :: string where "HeaderEventType = ''event_type''"
definition HeaderLedger :: string where "HeaderLedger = ''ledger''"
definition HeaderTransferCode :: string where "HeaderTransferCode = ''transfer_code''"
definition HeaderDebitAccountCode :: string where "HeaderDebitAccountCode = ''debit_account_code''"
definition HeaderCreditAccountCode :: string where "HeaderCreditAccountCode = ''credit_account_code''"
definition HeaderTimestamp :: string where "HeaderTimestamp = ''timestamp''"

text \<open>\<^verbatim>\<open>types.ChangeEvent\<close> of the client library, with the fields the encoder reads.\<close>

record 'u account_snapshot =
  sn_ID :: 'u
  sn_DebitsPending :: 'u
  sn_DebitsPosted :: 'u
  sn_CreditsPending :: 'u
  sn_CreditsPosted :: 'u
  sn_UserData128 :: 'u
  sn_UserData64 :: u64
  sn_UserData32 :: u32
  sn_Code :: u16
  sn_Flags :: u16
  sn_Timestamp :: u64

record 'u change_event =
  ce_Type :: u8
  ce_Timestamp :: u64
  ce_Ledger :: u32
  ce_TransferID :: 'u
  ce_TransferAmount :: 'u
  ce_TransferPendingID :: 'u
  ce_TransferUserData128 :: 'u
  ce_TransferUserData64 :: u64
  ce_TransferUserData32 :: u32
  ce_TransferTimeout :: u32
  ce_TransferCode :: u16
  ce_TransferFlags :: u16
  ce_TransferTimestamp :: u64
  ce_DebitAccount :: "'u account_snapshot"
  ce_CreditAccount :: "'u account_snapshot"

record transfer_msg =
  tm_ID :: string
  tm_Amount :: string
  tm_PendingID :: string
  tm_UserData128 :: string
  tm_UserData64 :: u64
  tm_UserData32 :: u32
  tm_Timeout :: string
  tm_Code :: string
  tm_Flags :: "string slice"
  tm_Timestamp :: string

record account_msg =
  am_ID :: string
  am_DebitsPending :: string
  am_DebitsPosted :: string
  am_CreditsPending :: string
  am_CreditsPosted :: string
  am_UserData128 :: string
  am_UserData64 :: u64
  am_UserData32 :: u32
  am_Code :: string
  am_Flags :: "string slice"
  am_Timestamp :: string

record cdc_message =
  m_Type :: string
  m_Timestamp :: string
  m_Checkpoint :: string
  m_Ledger :: string
  m_Transfer :: transfer_msg
  m_DebitAccount :: account_msg
  m_CreditAccount :: account_msg

text \<open>The libraries the encoder calls; \<open>change_types\<close> are the five constants, in the map's order.\<close>

record 'u cdc_lib =
  u128 :: "'u u128_api"
  uuid :: uuid_api
  change_types :: "u8 list"
  MarshalEasyJSON :: "nat \<Rightarrow> cdc_message \<Rightarrow> string + string \<times> bool"
  UnmarshalEasyJSON :: "string \<Rightarrow> string + cdc_message"

subsection \<open>The encoder\<close>

type_synonym gap = "string \<times> nat"

text \<open>\<open>warnings\<close> are the gaps logged, in order; of the scratch buffer only its capacity matters.\<close>

record encoder =
  topic :: string
  partitionKey :: string
  reg :: registry
  warned :: "gap list"
  warnings :: "gap list"
  scratch :: nat

definition scratchSize :: nat where "scratchSize = 2048"

definition NewEncoder :: "cdc_cfg \<Rightarrow> registry \<Rightarrow> encoder" where
  "NewEncoder cfg r =
     \<lparr> topic = cdc_Topic cfg,
       partitionKey = (if PartitionKey cfg = [] then PartitionKeyDebitAccountID else PartitionKey cfg),
       reg = r, warned = [], warnings = [], scratch = scratchSize \<rparr>"

definition first :: "string \<Rightarrow> nat \<Rightarrow> encoder \<Rightarrow> bool \<times> encoder" where
  "first kind v e =
     (if (kind, v) \<in> set (warned e) then (False, e) else (True, e\<lparr>warned := (kind, v) # warned e\<rparr>))"

definition warn_once :: "string \<Rightarrow> nat \<Rightarrow> encoder \<Rightarrow> encoder" where
  "warn_once kind v e =
     (case first kind v e of (True, e') \<Rightarrow> e'\<lparr>warnings := warnings e' @ [(kind, v)]\<rparr> | (False, e') \<Rightarrow> e')"

definition FormatUint :: "('w :: len) word \<Rightarrow> string" where
  "FormatUint v = dec (unat v)"

definition enc_ledger :: "'u change_event \<Rightarrow> encoder \<Rightarrow> (string \<times> int) \<times> encoder" where
  "enc_ledger ev e =
     (case LedgerName (reg e) (ce_Ledger ev) of
        Inl _ \<Rightarrow> ((FormatUint (ce_Ledger ev), 0), warn_once ''ledger'' (unat (ce_Ledger ev)) e)
      | Inr name \<Rightarrow>
          (case ScaleByLedgerID (reg e) (ce_Ledger ev) of
             Inl _ \<Rightarrow> ((name, 0), e)
           | Inr scale \<Rightarrow> ((name, scale), e)))"

definition enc_code :: "u16 \<Rightarrow> encoder \<Rightarrow> string \<times> encoder" where
  "enc_code v e =
     (case CodeName (reg e) v of
        Inl _ \<Rightarrow> (FormatUint v, warn_once ''code'' (unat v) e)
      | Inr name \<Rightarrow> (name, e))"

definition eventTypeNames :: "'u cdc_lib \<Rightarrow> u8 \<Rightarrow> string option" where
  "eventTypeNames G v =
     map_of (zip (change_types G)
       [''single_phase'', ''two_phase_pending'', ''two_phase_posted'', ''two_phase_voided'',
        ''two_phase_expired'']) v"

definition eventType :: "'u cdc_lib \<Rightarrow> 'u change_event \<Rightarrow> encoder \<Rightarrow> string \<times> encoder" where
  "eventType G ev e =
     (case eventTypeNames G (ce_Type ev) of
        Some name \<Rightarrow> (name, e)
      | None \<Rightarrow> (FormatUint (ce_Type ev), warn_once ''event_type'' (unat (ce_Type ev)) e))"

text \<open>The registry's names start from a nil slice; a message carries an empty one instead.\<close>

definition flagList :: "string slice \<Rightarrow> string slice" where
  "flagList names = (if names = None then Some [] else names)"

lemma flagList_appended [simp]: "flagList (appended xs) = Some xs"
  by (simp add: flagList_def appended_def)

definition optionalID :: "'u cdc_lib \<Rightarrow> 'u \<Rightarrow> string" where
  "optionalID G u = (if u = zero_id (u128 G) then [] else FormatID (u128 G) (uuid G) u)"

text \<open>
  \<^verbatim>\<open>time.Duration.String\<close> of whole seconds; a \<^verbatim>\<open>uint32\<close> of them is within \<^verbatim>\<open>int64\<close> nanoseconds.
\<close>

definition seconds_String :: "nat \<Rightarrow> string" where
  "seconds_String n =
     (if n < 60 then dec n @ ''s''
      else if n < 3600 then dec (n div 60) @ ''m'' @ dec (n mod 60) @ ''s''
      else dec (n div 3600) @ ''h'' @ dec (n div 60 mod 60) @ ''m'' @ dec (n mod 60) @ ''s'')"

definition timeout :: "u32 \<Rightarrow> string" where
  "timeout seconds = (if seconds = 0 then [] else seconds_String (unat seconds))"

text \<open>\<^verbatim>\<open>FormatAmount\<close> can panic (a scale outside its table), which aborts the whole record.\<close>

definition account_of ::
    "'u cdc_lib \<Rightarrow> int \<Rightarrow> 'u account_snapshot \<Rightarrow> string \<Rightarrow> panic + account_msg" where
  "account_of G scale a code =
     bindE (FormatAmount (u128 G) (sn_DebitsPending a) scale) (\<lambda>dp.
     bindE (FormatAmount (u128 G) (sn_DebitsPosted a) scale) (\<lambda>dq.
     bindE (FormatAmount (u128 G) (sn_CreditsPending a) scale) (\<lambda>cp.
     bindE (FormatAmount (u128 G) (sn_CreditsPosted a) scale) (\<lambda>cq.
     Inr \<lparr> am_ID = FormatID (u128 G) (uuid G) (sn_ID a), am_DebitsPending = dp, am_DebitsPosted = dq,
           am_CreditsPending = cp, am_CreditsPosted = cq, am_UserData128 = optionalID G (sn_UserData128 a),
           am_UserData64 = sn_UserData64 a, am_UserData32 = sn_UserData32 a, am_Code = code,
           am_Flags = flagList (appended (AccountFlagNames (sn_Flags a))), am_Timestamp = FormatUint (sn_Timestamp a) \<rparr>))))"

definition transfer_of :: "'u cdc_lib \<Rightarrow> int \<Rightarrow> 'u change_event \<Rightarrow> string \<Rightarrow> panic + transfer_msg" where
  "transfer_of G scale ev code =
     bindE (FormatAmount (u128 G) (ce_TransferAmount ev) scale) (\<lambda>amount.
     Inr \<lparr> tm_ID = FormatID (u128 G) (uuid G) (ce_TransferID ev), tm_Amount = amount,
           tm_PendingID = optionalID G (ce_TransferPendingID ev),
           tm_UserData128 = optionalID G (ce_TransferUserData128 ev),
           tm_UserData64 = ce_TransferUserData64 ev, tm_UserData32 = ce_TransferUserData32 ev,
           tm_Timeout = timeout (ce_TransferTimeout ev), tm_Code = code,
           tm_Flags = flagList (appended (TransferFlagNames (ce_TransferFlags ev))),
           tm_Timestamp = FormatUint (ce_TransferTimestamp ev) \<rparr>)"

text \<open>The message of an event, with the gaps met on the way noted in the encoder.\<close>

definition message_of ::
    "'u cdc_lib \<Rightarrow> 'u change_event \<Rightarrow> u64 \<Rightarrow> encoder \<Rightarrow> (panic + cdc_message) \<times> encoder" where
  "message_of G ev checkpoint e =
     (let ((ledger, scale), e1) = enc_ledger ev e;
          (ty, e2) = eventType G ev e1;
          (tcode, e3) = enc_code (ce_TransferCode ev) e2;
          (dcode, e4) = enc_code (sn_Code (ce_DebitAccount ev)) e3;
          (ccode, e5) = enc_code (sn_Code (ce_CreditAccount ev)) e4
      in (bindE (transfer_of G scale ev tcode) (\<lambda>t.
          bindE (account_of G scale (ce_DebitAccount ev) dcode) (\<lambda>d.
          bindE (account_of G scale (ce_CreditAccount ev) ccode) (\<lambda>c.
          Inr \<lparr> m_Type = ty, m_Timestamp = FormatUint (ce_Timestamp ev), m_Checkpoint = FormatUint checkpoint,
                m_Ledger = ledger, m_Transfer = t, m_DebitAccount = d, m_CreditAccount = c \<rparr>))), e5))"

definition enc_key :: "encoder \<Rightarrow> cdc_message \<Rightarrow> string" where
  "enc_key e msg =
     (if partitionKey e = PartitionKeyCreditAccountID then am_ID (m_CreditAccount msg)
      else if partitionKey e = PartitionKeyLedger then m_Ledger msg
      else if partitionKey e = PartitionKeyTransferID then tm_ID (m_Transfer msg)
      else am_ID (m_DebitAccount msg))"

definition marshal :: "'u cdc_lib \<Rightarrow> cdc_message \<Rightarrow> encoder \<Rightarrow> (string + string) \<times> encoder" where
  "marshal G msg e =
     (case MarshalEasyJSON G (scratch e) msg of
        Inl err \<Rightarrow> (Inl err, e\<lparr>scratch := scratchSize\<rparr>)
      | Inr (body, True) \<Rightarrow> (Inr body, e)
      | Inr (body, False) \<Rightarrow> (Inr body, e\<lparr>scratch := 2 * length body\<rparr>))"

datatype record_error = MarshalFailed u64 string

definition Record ::
    "'u cdc_lib \<Rightarrow> 'u change_event \<Rightarrow> u64 \<Rightarrow> encoder \<Rightarrow> (panic + (record_error + out_record)) \<times> encoder" where
  "Record G ev checkpoint e =
     (case message_of G ev checkpoint e of
        (Inl p, e1) \<Rightarrow> (Inl p, e1)
      | (Inr msg, e1) \<Rightarrow>
          (case marshal G msg e1 of
             (Inl err, e2) \<Rightarrow> (Inr (Inl (MarshalFailed (ce_Timestamp ev) err)), e2)
           | (Inr body, e2) \<Rightarrow>
               (Inr (Inr \<lparr> o_Topic = topic e2, o_Key = enc_key e2 msg, o_Value = body,
                  o_Headers = [(HeaderEventType, m_Type msg), (HeaderLedger, m_Ledger msg),
                    (HeaderTransferCode, tm_Code (m_Transfer msg)),
                    (HeaderDebitAccountCode, am_Code (m_DebitAccount msg)),
                    (HeaderCreditAccountCode, am_Code (m_CreditAccount msg)),
                    (HeaderTimestamp, m_Timestamp msg)] \<rparr>), e2)))"

subsection \<open>What the encoder keeps\<close>

definition same_enc :: "encoder \<Rightarrow> encoder \<Rightarrow> bool" where
  "same_enc e e' \<longleftrightarrow> topic e' = topic e \<and> partitionKey e' = partitionKey e \<and> reg e' = reg e"

lemma same_enc_refl [simp]: "same_enc e e"
  by (simp add: same_enc_def)

lemma same_enc_trans: "same_enc a b \<Longrightarrow> same_enc b c \<Longrightarrow> same_enc a c"
  by (simp add: same_enc_def)

lemma warn_once_enc: "same_enc e (warn_once k v e)" "scratch (warn_once k v e) = scratch e"
  by (auto simp: warn_once_def first_def same_enc_def)

lemma enc_ledger_enc: "same_enc e (snd (enc_ledger ev e))"
  by (auto simp: enc_ledger_def warn_once_enc split: sum.split)

lemma enc_code_enc: "same_enc e (snd (enc_code v e))"
  by (auto simp: enc_code_def warn_once_enc split: sum.split)

lemma eventType_enc: "same_enc e (snd (eventType G ev e))"
  by (auto simp: eventType_def warn_once_enc split: option.split)

text \<open>The names and the scale depend on the registry alone.\<close>

definition ledger_text :: "registry \<Rightarrow> u32 \<Rightarrow> string \<times> int" where
  "ledger_text r i =
     (case LedgerName r i of Inl _ \<Rightarrow> (FormatUint i, 0)
      | Inr n \<Rightarrow> (n, case ScaleByLedgerID r i of Inl _ \<Rightarrow> 0 | Inr k \<Rightarrow> k))"

definition code_text :: "registry \<Rightarrow> u16 \<Rightarrow> string" where
  "code_text r v = (case CodeName r v of Inl _ \<Rightarrow> FormatUint v | Inr n \<Rightarrow> n)"

definition type_text :: "'u cdc_lib \<Rightarrow> u8 \<Rightarrow> string" where
  "type_text G v = (case eventTypeNames G v of None \<Rightarrow> FormatUint v | Some n \<Rightarrow> n)"

lemma enc_texts:
  "fst (enc_ledger ev e) = ledger_text (reg e) (ce_Ledger ev)"
  "fst (enc_code v e) = code_text (reg e) v"
  "fst (eventType G ev e) = type_text G (ce_Type ev)"
  by (cases "LedgerName (reg e) (ce_Ledger ev)"; cases "ScaleByLedgerID (reg e) (ce_Ledger ev)")
     (simp_all add: enc_ledger_def ledger_text_def enc_code_def code_text_def eventType_def type_text_def
      del: lookup_Inr split: sum.split option.split)

definition message_text :: "'u cdc_lib \<Rightarrow> registry \<Rightarrow> 'u change_event \<Rightarrow> u64 \<Rightarrow> panic + cdc_message" where
  "message_text G r ev checkpoint =
     (let (ledger, scale) = ledger_text r (ce_Ledger ev) in
      bindE (transfer_of G scale ev (code_text r (ce_TransferCode ev))) (\<lambda>t.
      bindE (account_of G scale (ce_DebitAccount ev) (code_text r (sn_Code (ce_DebitAccount ev)))) (\<lambda>d.
      bindE (account_of G scale (ce_CreditAccount ev) (code_text r (sn_Code (ce_CreditAccount ev)))) (\<lambda>c.
      Inr \<lparr> m_Type = type_text G (ce_Type ev), m_Timestamp = FormatUint (ce_Timestamp ev),
            m_Checkpoint = FormatUint checkpoint, m_Ledger = ledger, m_Transfer = t,
            m_DebitAccount = d, m_CreditAccount = c \<rparr>))))"

text \<open>The gaps of one event, in the order they are met.\<close>

definition gaps_of :: "'u cdc_lib \<Rightarrow> registry \<Rightarrow> 'u change_event \<Rightarrow> gap list" where
  "gaps_of G r ev =
     (if ledgerNames r (ce_Ledger ev) = None then [(''ledger'', unat (ce_Ledger ev))] else []) @
     (if eventTypeNames G (ce_Type ev) = None then [(''event_type'', unat (ce_Type ev))] else []) @
     concat (map (\<lambda>v. if codeNames r v = None then [(''code'', unat v)] else [])
       [ce_TransferCode ev, sn_Code (ce_DebitAccount ev), sn_Code (ce_CreditAccount ev)])"

lemma enc_effects:
  "snd (enc_ledger ev e) = (if ledgerNames (reg e) (ce_Ledger ev) = None
     then warn_once ''ledger'' (unat (ce_Ledger ev)) e else e)"
  "snd (enc_code v e) = (if codeNames (reg e) v = None then warn_once ''code'' (unat v) e else e)"
  "snd (eventType G ev e) = (if eventTypeNames G (ce_Type ev) = None
     then warn_once ''event_type'' (unat (ce_Type ev)) e else e)"
  by (auto simp: enc_ledger_def enc_code_def eventType_def LedgerName_def CodeName_def ScaleByLedgerID_def
      split: option.split sum.split)

lemma reg_warn [simp]: "reg (warn_once k v e) = reg e"
  using warn_once_enc(1) [of e k v] by (simp add: same_enc_def)

lemma message_of_split:
  "message_of G ev c e = (message_text G (reg e) ev c, fold (\<lambda>(k, v). warn_once k v) (gaps_of G (reg e) ev) e)"
proof -
  define e1 where "e1 = snd (enc_ledger ev e)"
  define e2 where "e2 = snd (eventType G ev e1)"
  define e3 where "e3 = snd (enc_code (ce_TransferCode ev) e2)"
  define e4 where "e4 = snd (enc_code (sn_Code (ce_DebitAccount ev)) e3)"
  define e5 where "e5 = snd (enc_code (sn_Code (ce_CreditAccount ev)) e4)"
  note defs = e1_def e2_def e3_def e4_def e5_def
  have regs: "reg e1 = reg e" "reg e2 = reg e" "reg e3 = reg e" "reg e4 = reg e"
    by (simp_all add: defs enc_effects)
  have steps: "enc_ledger ev e = (ledger_text (reg e) (ce_Ledger ev), e1)"
    "eventType G ev e1 = (type_text G (ce_Type ev), e2)"
    "enc_code (ce_TransferCode ev) e2 = (code_text (reg e) (ce_TransferCode ev), e3)"
    "enc_code (sn_Code (ce_DebitAccount ev)) e3 = (code_text (reg e) (sn_Code (ce_DebitAccount ev)), e4)"
    "enc_code (sn_Code (ce_CreditAccount ev)) e4 = (code_text (reg e) (sn_Code (ce_CreditAccount ev)), e5)"
    by (auto simp: defs regs [unfolded defs] intro!: prod_eqI simp flip: enc_texts)
      (simp_all add: enc_texts enc_effects)
  have "e5 = fold (\<lambda>(k, v). warn_once k v) (gaps_of G (reg e) ev) e"
    by (simp add: defs enc_effects gaps_of_def)
  then show ?thesis
    by (simp add: message_of_def steps message_text_def Let_def split: prod.split)
qed

text \<open>Every gap is warned about once.\<close>

definition warned_ok :: "encoder \<Rightarrow> bool" where
  "warned_ok e \<longleftrightarrow> distinct (warnings e) \<and> set (warnings e) = set (warned e)"

lemma warn_once_ok: "warned_ok e \<Longrightarrow> warned_ok (warn_once k v e) \<and> set (warned (warn_once k v e)) = insert (k, v) (set (warned e))"
  by (auto simp: warned_ok_def warn_once_def first_def)

lemma warn_all_ok:
  "warned_ok e \<Longrightarrow> warned_ok (fold (\<lambda>(k, v). warn_once k v) gs e) \<and>
     set (warned (fold (\<lambda>(k, v). warn_once k v) gs e)) = set (warned e) \<union> set gs"
proof (induction gs arbitrary: e)
  case (Cons g gs)
  obtain k v where g: "g = (k, v)" by (cases g)
  show ?case using Cons.IH [of "warn_once k v e"] warn_once_ok [OF Cons.prems, of k v] g by auto
qed simp

lemma warn_all_enc: "same_enc e (fold (\<lambda>(k, v). warn_once k v) gs e)"
  by (induction gs arbitrary: e) (auto intro: same_enc_trans warn_once_enc)

lemma marshal_enc: "same_enc e (snd (marshal G msg e))"
  "warned (snd (marshal G msg e)) = warned e" "warnings (snd (marshal G msg e)) = warnings e"
  by (auto simp: marshal_def same_enc_def split: sum.split bool.split prod.split)

lemma Record_enc:
  "same_enc e (snd (Record G ev c e)) \<and>
   (warned_ok e \<longrightarrow> warned_ok (snd (Record G ev c e)) \<and>
      set (warned (snd (Record G ev c e))) = set (warned e) \<union> set (gaps_of G (reg e) ev))"
proof -
  let ?e = "fold (\<lambda>(k, v). warn_once k v) (gaps_of G (reg e) ev) e"
  have "snd (Record G ev c e) = ?e \<or> (\<exists>msg. snd (Record G ev c e) = snd (marshal G msg ?e))"
    by (auto simp: Record_def message_of_split split: sum.split prod.split)
      (metis snd_conv)+
  then show ?thesis
    using warn_all_ok [of e "gaps_of G (reg e) ev"] warn_all_enc [of e "gaps_of G (reg e) ev"] marshal_enc(1) [of ?e G]
      marshal_enc(2,3) [of G _ ?e]
    by (auto simp: warned_ok_def intro: same_enc_trans)
qed

text \<open>What a published record is: the message's text with its key and headers.\<close>

lemma Record_Inr:
  assumes "Record G ev c e = (Inr (Inr rec), e')"
  shows "\<exists>msg cap fit. message_text G (reg e) ev c = Inr msg \<and> MarshalEasyJSON G cap msg = Inr (o_Value rec, fit) \<and>
     o_Topic rec = topic e \<and> o_Key rec = enc_key e msg"
proof -
  let ?e = "fold (\<lambda>(k, v). warn_once k v) (gaps_of G (reg e) ev) e"
  obtain msg where msg: "message_text G (reg e) ev c = Inr msg"
    using assms by (auto simp: Record_def message_of_split split: sum.splits)
  obtain body e2 where m: "marshal G msg ?e = (Inr body, e2)"
    using assms msg by (auto simp: Record_def message_of_split split: sum.splits prod.splits)
  have "same_enc e e2" using marshal_enc(1) [of ?e G msg] warn_all_enc m same_enc_trans by (metis snd_conv)
  moreover have "\<exists>fit. MarshalEasyJSON G (scratch ?e) msg = Inr (body, fit)"
    using m by (auto simp: marshal_def split: sum.splits prod.splits bool.splits)
  moreover have "o_Topic rec = topic e2" "o_Key rec = enc_key e2 msg" "o_Value rec = body"
    using assms msg m by (auto simp: Record_def message_of_split)
  moreover from \<open>same_enc e e2\<close> have "topic e2 = topic e" "enc_key e2 msg = enc_key e msg"
    by (simp_all add: same_enc_def enc_key_def)
  ultimately show ?thesis using msg by metis
qed

subsection \<open>Properties\<close>

text \<open>What reading a message with the sink's parsers gives.\<close>

definition account_reads_back :: "'u cdc_lib \<Rightarrow> int \<Rightarrow> 'u account_snapshot \<Rightarrow> account_msg \<Rightarrow> bool" where
  "account_reads_back G k a m \<longleftrightarrow>
     ParseAmount (u128 G) (am_DebitsPending m) k = Inr (sn_DebitsPending a) \<and>
     ParseAmount (u128 G) (am_DebitsPosted m) k = Inr (sn_DebitsPosted a) \<and>
     ParseAmount (u128 G) (am_CreditsPending m) k = Inr (sn_CreditsPending a) \<and>
     ParseAmount (u128 G) (am_CreditsPosted m) k = Inr (sn_CreditsPosted a) \<and>
     (sn_ID a \<noteq> zero_id (u128 G) \<longrightarrow> ParseID (u128 G) (uuid G) (am_ID m) = Inr (sn_ID a))"

definition message_reads_back :: "'u cdc_lib \<Rightarrow> int \<Rightarrow> 'u change_event \<Rightarrow> cdc_message \<Rightarrow> bool" where
  "message_reads_back G k ev msg \<longleftrightarrow>
     ParseAmount (u128 G) (tm_Amount (m_Transfer msg)) k = Inr (ce_TransferAmount ev) \<and>
     (ce_TransferID ev \<noteq> zero_id (u128 G) \<longrightarrow>
        ParseID (u128 G) (uuid G) (tm_ID (m_Transfer msg)) = Inr (ce_TransferID ev)) \<and>
     (if ce_TransferPendingID ev = zero_id (u128 G) then tm_PendingID (m_Transfer msg) = []
      else ParseID (u128 G) (uuid G) (tm_PendingID (m_Transfer msg)) = Inr (ce_TransferPendingID ev)) \<and>
     account_reads_back G k (ce_DebitAccount ev) (m_DebitAccount msg) \<and>
     account_reads_back G k (ce_CreditAccount ev) (m_CreditAccount msg)"

lemma account_of_reads_back:
  assumes "u128_ok (u128 G)" and "uuid_ok (uuid G)" and "0 \<le> k" and "k \<le> 18"
  shows "\<exists>m. account_of G k a code = Inr m \<and> am_Code m = code \<and> account_reads_back G k a m"
proof -
  note amounts = FormatAmount_parses [OF assms(1,3,4)]
  obtain t1 t2 t3 t4 where
    "FormatAmount (u128 G) (sn_DebitsPending a) k = Inr t1" "ParseAmount (u128 G) t1 k = Inr (sn_DebitsPending a)"
    "FormatAmount (u128 G) (sn_DebitsPosted a) k = Inr t2" "ParseAmount (u128 G) t2 k = Inr (sn_DebitsPosted a)"
    "FormatAmount (u128 G) (sn_CreditsPending a) k = Inr t3" "ParseAmount (u128 G) t3 k = Inr (sn_CreditsPending a)"
    "FormatAmount (u128 G) (sn_CreditsPosted a) k = Inr t4" "ParseAmount (u128 G) t4 k = Inr (sn_CreditsPosted a)"
    using amounts by meson
  then show ?thesis
    using ParseID_FormatID [OF assms(1,2)] by (simp add: account_of_def account_reads_back_def)
qed

lemma transfer_of_reads_back:
  assumes "u128_ok (u128 G)" and "0 \<le> k" and "k \<le> 18"
  shows "\<exists>t. transfer_of G k ev code = Inr t \<and> tm_Code t = code \<and>
     ParseAmount (u128 G) (tm_Amount t) k = Inr (ce_TransferAmount ev) \<and>
     tm_ID t = FormatID (u128 G) (uuid G) (ce_TransferID ev) \<and>
     tm_PendingID t = optionalID G (ce_TransferPendingID ev) \<and>
     tm_Flags t = Some (TransferFlagNames (ce_TransferFlags ev))"
  using FormatAmount_parses [OF assms, of "ce_TransferAmount ev"]
  by (auto simp: transfer_of_def)

lemma ledger_text_scale:
  assumes "registry_ok r" and "ledger_text r i = (name, k)"
  shows "0 \<le> k \<and> k \<le> 18"
proof (cases "LedgerName r i")
  case (Inr n)
  with registry_okD(1) [OF assms(1) Inr] assms(2) show ?thesis by (auto simp: ledger_text_def simp del: lookup_Inr)
qed (use assms(2) in \<open>simp add: ledger_text_def\<close>)

lemma message_text_total:
  assumes "u128_ok (u128 G)" and "registry_ok r"
  shows "\<exists>msg. message_text G r ev c = Inr msg"
proof -
  obtain name k where lt: "ledger_text r (ce_Ledger ev) = (name, k)" by fastforce
  then have k: "0 \<le> k" "k \<le> 18" using ledger_text_scale [OF assms(2) lt] by simp_all
  note some = FormatAmount_parses [OF assms(1) k]
  have "\<exists>m. account_of G k a code = Inr m" for a code
    using some [of "sn_DebitsPending a"] some [of "sn_DebitsPosted a"] some [of "sn_CreditsPending a"]
      some [of "sn_CreditsPosted a"] by (auto simp: account_of_def)
  then obtain acc where acc: "account_of G k a code = Inr (acc a code)" for a code by metis
  show ?thesis using some [of "ce_TransferAmount ev"] by (auto simp: message_text_def lt transfer_of_def acc)
qed

text \<open>
  C35: no change event is lost to the registry, and what is published speaks the sink's own
  vocabulary: a message is built for every event; when the ledger is registered, its name is
  the one the sink maps back to that ledger and every amount parses back at that ledger's
  scale; when it is not, the ledger is its decimal number and every amount parses back in minor
  units; ids parse back, an absent pending id is an empty field, a registered code parses back,
  and the transfer's flag names parse back to its flags.
\<close>

theorem message_reads_back_in_the_sinks_vocabulary:
  assumes "u128_ok (u128 G)" and "uuid_ok (uuid G)" and "registry_ok (reg e)" and "transfer_mask_ok to16"
  shows "\<exists>msg. fst (message_of G ev c e) = Inr msg \<and>
     (case LedgerName (reg e) (ce_Ledger ev) of
        Inr name \<Rightarrow> m_Ledger msg = name \<and>
          (\<exists>l. Ledger (reg e) name = Inr l \<and> ledger_ID l = ce_Ledger ev \<and> message_reads_back G (Scale l) ev msg)
      | Inl _ \<Rightarrow> m_Ledger msg = FormatUint (ce_Ledger ev) \<and> message_reads_back G 0 ev msg) \<and>
     (\<forall>n. CodeName (reg e) (ce_TransferCode ev) = Inr n \<longrightarrow>
        tm_Code (m_Transfer msg) = n \<and> Code (reg e) n = Inr (ce_TransferCode ev)) \<and>
     (\<forall>f. to16 f = ce_TransferFlags ev \<longrightarrow> TransferFlags (elems (tm_Flags (m_Transfer msg))) = Inr f)"
proof -
  obtain name k where lt: "ledger_text (reg e) (ce_Ledger ev) = (name, k)" by fastforce
  have k: "0 \<le> k \<and> k \<le> 18" using ledger_text_scale [OF assms(3) lt] .
  obtain t where t: "transfer_of G k ev (code_text (reg e) (ce_TransferCode ev)) = Inr t"
    "tm_Code t = code_text (reg e) (ce_TransferCode ev)"
    "ParseAmount (u128 G) (tm_Amount t) k = Inr (ce_TransferAmount ev)"
    "tm_ID t = FormatID (u128 G) (uuid G) (ce_TransferID ev)"
    "tm_PendingID t = optionalID G (ce_TransferPendingID ev)"
    "tm_Flags t = Some (TransferFlagNames (ce_TransferFlags ev))"
    using transfer_of_reads_back [OF assms(1), of k] k by metis
  obtain d where d: "account_of G k (ce_DebitAccount ev) (code_text (reg e) (sn_Code (ce_DebitAccount ev))) = Inr d"
    "account_reads_back G k (ce_DebitAccount ev) d"
    using account_of_reads_back [OF assms(1,2), of k] k by metis
  obtain a where a: "account_of G k (ce_CreditAccount ev) (code_text (reg e) (sn_Code (ce_CreditAccount ev))) = Inr a"
    "account_reads_back G k (ce_CreditAccount ev) a"
    using account_of_reads_back [OF assms(1,2), of k] k by metis
  define msg where "msg = \<lparr> m_Type = type_text G (ce_Type ev), m_Timestamp = FormatUint (ce_Timestamp ev),
            m_Checkpoint = FormatUint c, m_Ledger = name, m_Transfer = t, m_DebitAccount = d, m_CreditAccount = a \<rparr>"
  have fst: "fst (message_of G ev c e) = Inr msg"
    by (simp add: message_of_split message_text_def lt t(1) d(1) a(1) msg_def)
  have reads: "message_reads_back G k ev msg"
    using t d(2) a(2) ParseID_FormatID [OF assms(1,2)]
    by (simp add: message_reads_back_def msg_def optionalID_def)
  have led: "case LedgerName (reg e) (ce_Ledger ev) of
        Inr name \<Rightarrow> m_Ledger msg = name \<and>
          (\<exists>l. Ledger (reg e) name = Inr l \<and> ledger_ID l = ce_Ledger ev \<and> message_reads_back G (Scale l) ev msg)
      | Inl _ \<Rightarrow> m_Ledger msg = FormatUint (ce_Ledger ev) \<and> message_reads_back G 0 ev msg"
  proof (cases "LedgerName (reg e) (ce_Ledger ev)")
    case Inl
    with lt reads show ?thesis by (simp add: ledger_text_def msg_def)
  next
    case (Inr n)
    with registry_okD(1) [OF assms(3) Inr] lt reads show ?thesis
      by (auto simp: ledger_text_def msg_def simp del: lookup_Inr)
  qed
  have "TransferFlags (elems (tm_Flags (m_Transfer msg))) = Inr f" if "to16 f = ce_TransferFlags ev" for f
  proof -
    have "bit (ce_TransferFlags ev) b = transfer_bits f b" for b
      using assms(4) unfolding transfer_mask_ok_def that [symmetric] by blast
    from transfer_vocab.round_trip [OF this] show ?thesis
      by (simp add: msg_def TransferFlags_def TransferFlagNames_def t(6))
  qed
  moreover have "tm_Code (m_Transfer msg) = n \<and> Code (reg e) n = Inr (ce_TransferCode ev)"
    if "CodeName (reg e) (ce_TransferCode ev) = Inr n" for n
    using registry_okD(2) [OF assms(3) that] t(2) that by (simp add: msg_def code_text_def del: lookup_Inr)
  ultimately show ?thesis using fst led by blast
qed

fun encode_all :: "'u cdc_lib \<Rightarrow> ('u change_event \<times> u64) list \<Rightarrow> encoder \<Rightarrow> encoder" where
  "encode_all G [] e = e"
| "encode_all G ((ev, c) # evs) e = encode_all G evs (snd (Record G ev c e))"

lemma encode_all_ok:
  "warned_ok e \<Longrightarrow> warned_ok (encode_all G evs e) \<and>
     set (warned (encode_all G evs e)) = set (warned e) \<union> (\<Union>(ev, c) \<in> set evs. set (gaps_of G (reg e) ev))"
proof (induction evs arbitrary: e)
  case (Cons x evs)
  obtain ev c where x: "x = (ev, c)" by (cases x)
  have "reg (snd (Record G ev c e)) = reg e" using Record_enc [of e G ev c] by (simp add: same_enc_def)
  then show ?case using Cons.IH [of "snd (Record G ev c e)"] Record_enc [of e G ev c] Cons.prems x by auto
qed simp

text \<open>
  A gap in the registry is reported once, however many events meet it: after any run of
  events through a new encoder, the gaps warned about are exactly those the events have, each
  once.
\<close>

theorem each_gap_is_reported_once:
  "distinct (warnings (encode_all G evs (NewEncoder cfg r))) \<and>
   set (warnings (encode_all G evs (NewEncoder cfg r))) = (\<Union>(ev, c) \<in> set evs. set (gaps_of G r ev))"
proof -
  have "warned_ok (NewEncoder cfg r)" "set (warned (NewEncoder cfg r)) = {}" "reg (NewEncoder cfg r) = r"
    by (simp_all add: warned_ok_def NewEncoder_def)
  with encode_all_ok [of "NewEncoder cfg r" G evs] show ?thesis by (simp add: warned_ok_def)
qed


subsection \<open>Witnesses\<close>

text \<open>The text of a message is its checkpoint, with its length in front, and its timestamp.\<close>

definition no_account_msg :: account_msg where
  "no_account_msg = \<lparr> am_ID = [], am_DebitsPending = [], am_DebitsPosted = [], am_CreditsPending = [],
     am_CreditsPosted = [], am_UserData128 = [], am_UserData64 = 0, am_UserData32 = 0, am_Code = [],
     am_Flags = Some [], am_Timestamp = [] \<rparr>"

definition stub_message :: "string \<Rightarrow> string \<Rightarrow> cdc_message" where
  "stub_message c t = \<lparr> m_Type = [], m_Timestamp = t, m_Checkpoint = c, m_Ledger = [],
     m_Transfer = \<lparr> tm_ID = [], tm_Amount = [], tm_PendingID = [], tm_UserData128 = [], tm_UserData64 = 0,
       tm_UserData32 = 0, tm_Timeout = [], tm_Code = [], tm_Flags = Some [], tm_Timestamp = [] \<rparr>,
     m_DebitAccount = no_account_msg, m_CreditAccount = no_account_msg \<rparr>"

definition demo_lib :: "128 word cdc_lib" where
  "demo_lib = \<lparr> u128 = word_u128, uuid = raw_uuid, change_types = [0, 1, 2, 3, 4],
     MarshalEasyJSON = (\<lambda>_ m. Inr (dec (length (m_Checkpoint m)) @ CHR ''/'' # m_Checkpoint m @ m_Timestamp m, True)),
     UnmarshalEasyJSON = (\<lambda>s. case cut CHR ''/'' s of
         (n, rest, True) \<Rightarrow> Inr (stub_message (take (dec_val n) rest) (drop (dec_val n) rest))
       | _ \<Rightarrow> Inl ''parse error'') \<rparr>"

definition demo_snapshot :: "128 word account_snapshot" where
  "demo_snapshot = \<lparr> sn_ID = 5, sn_DebitsPending = 0, sn_DebitsPosted = 1234, sn_CreditsPending = 0,
     sn_CreditsPosted = 0, sn_UserData128 = 0, sn_UserData64 = 0, sn_UserData32 = 0, sn_Code = 1, sn_Flags = 0,
     sn_Timestamp = 1 \<rparr>"

definition event_at :: "u64 \<Rightarrow> 128 word change_event" where
  "event_at ts = \<lparr> ce_Type = 0, ce_Timestamp = ts, ce_Ledger = 1, ce_TransferID = 7, ce_TransferAmount = 1234,
     ce_TransferPendingID = 0, ce_TransferUserData128 = 0, ce_TransferUserData64 = 0, ce_TransferUserData32 = 0,
     ce_TransferTimeout = 0, ce_TransferCode = 1, ce_TransferFlags = 0, ce_TransferTimestamp = ts,
     ce_DebitAccount = demo_snapshot, ce_CreditAccount = demo_snapshot \<rparr>"

lemma sample_registry_ok: "registry_ok sample_registry"
  unfolding sample_registry_def
  by (rule NewRegistry_ok) (auto simp: numbers_unique_def enumerates_def sample_config_def split: if_splits)

theorem message_reads_back_in_the_sinks_vocabulary_witness:
  "\<exists>msg. fst (message_of demo_lib (event_at 9) 3 (NewEncoder (CDC sample_config) sample_registry)) = Inr msg \<and>
     m_Ledger msg = ''USD'' \<and> ParseAmount word_u128 (tm_Amount (m_Transfer msg)) 2 = Inr 1234"
proof -
  let ?e = "NewEncoder (CDC sample_config) sample_registry"
  have ok: "u128_ok (u128 demo_lib)" "uuid_ok (uuid demo_lib)" "registry_ok (reg ?e)"
    by (simp_all add: demo_lib_def word_u128_ok raw_uuid_ok NewEncoder_def sample_registry_ok)
  have led: "LedgerName (reg ?e) (ce_Ledger (event_at 9)) = Inr ''USD''"
    "Ledger (reg ?e) ''USD'' = Inr \<lparr> ledger_ID = 1, Scale = 2 \<rparr>"
    by (simp_all add: NewEncoder_def event_at_def sample_registry_def NewRegistry_def index_names_def sample_config_def)
  show ?thesis
    using message_reads_back_in_the_sinks_vocabulary [OF ok word_transfer_mask_ok, of "event_at 9" 3] led
    by (auto simp: message_reads_back_def demo_lib_def event_at_def simp del: lookup_Inr)
qed

end
