(* ===== verification/Cdc_Cursor.thy ===== *)
theory Cdc_Cursor
  imports Cdc_Message
begin

section \<open>The cursor: \<^verbatim>\<open>internal/cdc/cursor.go\<close>\<close>

text \<open>
  The job keeps its progress in the output topic. \<^verbatim>\<open>Resume\<close> reads the last record of every
  partition and takes the highest checkpoint claimed. What the admin client lists is an argument,
  and so is the consumer, as a function of the partitions and offsets it is told to consume
  from; the model says what the code makes of them.
\<close>

subsection \<open>Reading a claim\<close>

definition recordCheckpoint :: "'u cdc_lib \<Rightarrow> string \<Rightarrow> u64 option" where
  "recordCheckpoint G value =
     (case UnmarshalEasyJSON G value of
        Inl _ \<Rightarrow> None
      | Inr msg \<Rightarrow> map_option of_nat (ParseUint 64 (m_Checkpoint msg)))"

text \<open>The generated codec reads back the checkpoint and the timestamp it wrote; \<open>Wire\<close> proves it does.\<close>

definition codec_ok :: "'u cdc_lib \<Rightarrow> bool" where
  "codec_ok G \<longleftrightarrow>
     (\<forall>cap msg body fit. list_all is_digit (m_Checkpoint msg) \<longrightarrow> list_all is_digit (m_Timestamp msg) \<longrightarrow>
        MarshalEasyJSON G cap msg = Inr (body, fit) \<longrightarrow>
        (\<exists>msg'. UnmarshalEasyJSON G body = Inr msg' \<and> m_Checkpoint msg' = m_Checkpoint msg \<and>
           m_Timestamp msg' = m_Timestamp msg))"

lemma message_text_checkpoint:
  "message_text G r ev c = Inr msg \<Longrightarrow> m_Checkpoint msg = FormatUint c \<and> m_Timestamp msg = FormatUint (ce_Timestamp ev)"
  by (auto simp: message_text_def Let_def bindE_Inr split: prod.splits)

lemma Record_checkpoint:
  assumes "codec_ok G" and "Record G ev c e = (Inr (Inr rec), e')"
  shows "recordCheckpoint G (o_Value rec) = Some c"
proof -
  obtain msg cap fit where m: "message_text G (reg e) ev c = Inr msg" "MarshalEasyJSON G cap msg = Inr (o_Value rec, fit)"
    using Record_Inr [OF assms(2)] by blast
  have "list_all is_digit (m_Checkpoint msg)" "list_all is_digit (m_Timestamp msg)"
    using message_text_checkpoint [OF m(1)] by (simp_all add: FormatUint_def)
  then obtain msg' where "UnmarshalEasyJSON G (o_Value rec) = Inr msg'" "m_Checkpoint msg' = FormatUint c"
    using assms(1) m message_text_checkpoint [OF m(1)] unfolding codec_ok_def by metis
  moreover have "unat c < 2 ^ 64" by simp
  ultimately show ?thesis by (simp add: recordCheckpoint_def FormatUint_def)
qed

subsection \<open>The tails\<close>

datatype list_error = UnknownTopicOrPartition | OtherListError string

record listed_offset =
  lo_Offset :: int
  lo_Err :: "list_error option"

datatype cursor_error =
    KafkaClient string
  | ListStartOffsets string
  | ListEndOffsets string
  | ListEndPartition int list_error
  | ReadingTail string
  | ReadingPartition int string

definition tail_of ::
    "(int \<times> listed_offset) list \<Rightarrow> int \<times> listed_offset \<Rightarrow>
       (int \<times> int) list \<times> cursor_error option \<Rightarrow> (int \<times> int) list \<times> cursor_error option" where
  "tail_of starts = (\<lambda>(p, fin) (tails, listErr).
     case lo_Err fin of
       Some err \<Rightarrow> if err = UnknownTopicOrPartition then (tails, listErr) else (tails, Some (ListEndPartition p err))
     | None \<Rightarrow>
         let start = (case map_of starts p of
                None \<Rightarrow> 0
              | Some s \<Rightarrow> if lo_Err s \<noteq> None then 0 else lo_Offset s)
         in if lo_Offset fin \<le> start then (tails, listErr)
            else (AList.update p (lo_Offset fin - 1) tails, listErr))"

definition tailOffsets ::
    "string + (int \<times> listed_offset) list \<Rightarrow> string + (int \<times> listed_offset) list \<Rightarrow>
       cursor_error + (int \<times> int) list" where
  "tailOffsets starts ends =
     bindE (case starts of Inl e \<Rightarrow> Inl (ListStartOffsets e) | Inr s \<Rightarrow> Inr s) (\<lambda>s.
     bindE (case ends of Inl e \<Rightarrow> Inl (ListEndOffsets e) | Inr en \<Rightarrow> Inr en) (\<lambda>en.
     case fold (tail_of s) en ([], None) of
       (_, Some err) \<Rightarrow> Inl err
     | (tails, None) \<Rightarrow> Inr tails))"

subsection \<open>Resuming\<close>

text \<open>
  One \<^verbatim>\<open>PollFetches\<close>: the scan's context is done, or fetch errors and records arrived. A record
  of a partition already accounted for is ignored. The offset of a record is only logged.
\<close>

record tail_record =
  tr_Partition :: int
  tr_Offset :: int
  tr_Value :: string

datatype tail_poll = ScanTimeout string | Fetches "(int \<times> string) list" "tail_record list"

type_synonym scan = "(int \<times> int) list \<times> nat \<times> u64"

definition take_tail :: "'u cdc_lib \<Rightarrow> tail_record \<Rightarrow> scan \<Rightarrow> scan" where
  "take_tail G = (\<lambda>rec (tails, pending, checkpoint).
     if map_of tails (tr_Partition rec) = None then (tails, pending, checkpoint)
     else (AList.delete (tr_Partition rec) tails, pending - 1,
           case recordCheckpoint G (tr_Value rec) of
             None \<Rightarrow> checkpoint
           | Some ts \<Rightarrow> if ts > checkpoint then ts else checkpoint))"

text \<open>\<open>None\<close>: still polling when the polls given have been used up.\<close>

fun scan_loop :: "'u cdc_lib \<Rightarrow> tail_poll list \<Rightarrow> scan \<Rightarrow> (cursor_error + u64) option" where
  "scan_loop G polls (tails, 0, checkpoint) = Some (Inr checkpoint)"
| "scan_loop G [] (tails, Suc n, checkpoint) = None"
| "scan_loop G (ScanTimeout e # polls) (tails, Suc n, checkpoint) = Some (Inl (ReadingTail e))"
| "scan_loop G (Fetches errs recs # polls) (tails, Suc n, checkpoint) =
     (if errs \<noteq> [] then Some (Inl (ReadingPartition (fst (last errs)) (snd (last errs))))
      else scan_loop G polls (fold (take_tail G) recs (tails, Suc n, checkpoint)))"

text \<open>\<open>consume tails\<close> is what the client polls after \<^verbatim>\<open>kgo.ConsumePartitions\<close> of \<open>tails\<close>.\<close>

definition Resume ::
    "'u cdc_lib \<Rightarrow> string option \<Rightarrow> string + (int \<times> listed_offset) list \<Rightarrow>
       string + (int \<times> listed_offset) list \<Rightarrow> string option \<Rightarrow>
       ((int \<times> int) list \<Rightarrow> tail_poll list) \<Rightarrow> (cursor_error + u64) option" where
  "Resume G admin_err starts ends client_err consume =
     (case admin_err of Some e \<Rightarrow> Some (Inl (KafkaClient e))
      | None \<Rightarrow>
          (case tailOffsets starts ends of
             Inl e \<Rightarrow> Some (Inl e)
           | Inr tails \<Rightarrow>
               if tails = [] then Some (Inr 0)
               else (case client_err of
                       Some e \<Rightarrow> Some (Inl (KafkaClient e))
                     | None \<Rightarrow> scan_loop G (consume tails) (tails, length tails, 0))))"

subsection \<open>What the scan finds\<close>

text \<open>The highest of some claims, zero when there is none.\<close>

definition highest :: "u64 option list \<Rightarrow> u64" where
  "highest cs = fold (\<lambda>c m. case c of None \<Rightarrow> m | Some ts \<Rightarrow> if ts > m then ts else m) cs 0"

lemma highest_fold:
  "fold (\<lambda>c m. case c of None \<Rightarrow> m | Some ts \<Rightarrow> if ts > m then ts else m) cs m =
     Max (insert m {ts. Some ts \<in> set cs})"
proof (induction cs arbitrary: m)
  case (Cons c cs)
  have fin: "finite {ts. Some ts \<in> set cs}"
    by (rule finite_subset [of _ "the ` set cs"]) (force, simp)
  show ?case
  proof (cases c)
    case None
    then have "{ts. Some ts \<in> set (c # cs)} = {ts. Some ts \<in> set cs}" by auto
    with Cons None show ?thesis by simp
  next
    case (Some t)
    then have "{ts. Some ts \<in> set (c # cs)} = insert t {ts. Some ts \<in> set cs}" by auto
    moreover have "Max (insert m (insert t A)) = (if t > m then Max (insert t A) else Max (insert m A))"
      if "finite A" for A using that by (cases "A = {}") (auto simp: max_def)
    ultimately show ?thesis using Cons Some fin by simp
  qed
qed simp

lemma highest_Max: "highest cs = Max (insert 0 {ts. Some ts \<in> set cs})"
  by (simp add: highest_def highest_fold)

definition claims_of :: "'u cdc_lib \<Rightarrow> (int \<times> string) list \<Rightarrow> int set \<Rightarrow> u64 set" where
  "claims_of G recs P = {c. \<exists>p \<in> P. \<exists>v. map_of recs p = Some v \<and> recordCheckpoint G v = Some c}"

lemma claims_of_finite: "finite (claims_of G recs P)"
proof (rule finite_subset)
  show "claims_of G recs P \<subseteq> (\<lambda>v. the (recordCheckpoint G v)) ` snd ` set recs"
    by (force simp: claims_of_def dest: map_of_SomeD)
qed simp

text \<open>After some records: the partitions seen are dropped, and the first record of each counts.\<close>

definition values_of :: "tail_record list \<Rightarrow> (int \<times> string) list" where
  "values_of recs = map (\<lambda>r. (tr_Partition r, tr_Value r)) recs"

lemma values_of_simps [simp]:
  "values_of [] = []" "values_of (r # recs) = (tr_Partition r, tr_Value r) # values_of recs"
  "values_of (xs @ ys) = values_of xs @ values_of ys"
  by (simp_all add: values_of_def)

lemma take_tails:
  assumes "distinct (map fst tails)" and "n = length tails"
  shows "\<exists>tails' m. fold (take_tail G) recs (tails, n, ck) =
     (tails', m, Max (insert ck (claims_of G (values_of recs) (fst ` set tails)))) \<and>
     distinct (map fst tails') \<and> m = length tails' \<and> fst ` set tails' = fst ` set tails - fst ` set (values_of recs)"
  using assms
proof (induction recs arbitrary: tails n ck)
  case Nil
  then show ?case by (simp add: claims_of_def)
next
  case (Cons r recs)
  obtain p x v where r: "r = \<lparr> tr_Partition = p, tr_Offset = x, tr_Value = v \<rparr>" by (cases r)
  show ?case
  proof (cases "map_of tails p")
    case None
    then have p: "p \<notin> fst ` set tails" by (simp add: map_of_eq_None_iff)
    then have "claims_of G (values_of (r # recs)) (fst ` set tails) = claims_of G (values_of recs) (fst ` set tails)"
      by (auto simp: claims_of_def r)
    moreover have "fst ` set tails - fst ` set (values_of (r # recs)) = fst ` set tails - fst ` set (values_of recs)" using p r by auto
    ultimately show ?thesis using Cons.IH [OF Cons.prems] None r by (simp add: take_tail_def)
  next
    case (Some o')
    let ?tails = "AList.delete p tails"
    define ck1 where "ck1 = (case recordCheckpoint G v of None \<Rightarrow> ck | Some ts \<Rightarrow> if ts > ck then ts else ck)"
    have p: "p \<in> fst ` set tails" using Some by (metis map_of_eq_None_iff option.distinct(1))
    have keys: "fst ` set ?tails = fst ` set tails - {p}"
      unfolding dom_map_of_conv_image_fst [symmetric] AList.delete_conv' by auto
    have dist: "distinct (map fst ?tails)" using Cons.prems(1) by (simp add: AList.distinct_delete)
    have "length ?tails = card (fst ` set ?tails)" "length tails = card (fst ` set tails)"
      using dist Cons.prems(1) distinct_card by (metis length_map list.set_map)+
    then have len: "n - 1 = length ?tails" using p keys Cons.prems(2) by simp
    have "claims_of G (values_of (r # recs)) (fst ` set tails) =
        {c. recordCheckpoint G v = Some c} \<union> claims_of G (values_of recs) (fst ` set ?tails)"
      unfolding keys using p by (auto simp: claims_of_def r split: if_splits)
    moreover have "Max (insert ck ({c. recordCheckpoint G v = Some c} \<union> A)) = Max (insert ck1 A)"
      if "finite A" for A
      using that by (cases "recordCheckpoint G v"; cases "A = {}") (auto simp: ck1_def max_def)
    ultimately have "Max (insert ck (claims_of G (values_of (r # recs)) (fst ` set tails))) =
        Max (insert ck1 (claims_of G (values_of recs) (fst ` set ?tails)))"
      using claims_of_finite by metis
    moreover have "fst ` set tails - fst ` set (values_of (r # recs)) = fst ` set ?tails - fst ` set (values_of recs)"
      using keys r by auto
    moreover have "fold (take_tail G) (r # recs) (tails, n, ck) = fold (take_tail G) recs (?tails, n - 1, ck1)"
      using Some r by (simp add: take_tail_def ck1_def)
    ultimately show ?thesis using Cons.IH [OF dist len, of ck1] by metis
  qed
qed

lemma claims_of_append:
  "claims_of G (xs @ ys) P = claims_of G xs P \<union> claims_of G ys (P - fst ` set xs)"
proof -
  have split: "{c. \<exists>p \<in> P. A p c \<or> (p \<notin> S \<and> B p c)} = {c. \<exists>p \<in> P. A p c} \<union> {c. \<exists>p \<in> P - S. B p c}"
    for A B :: "int \<Rightarrow> u64 \<Rightarrow> bool" and S by blast
  have either: "(\<exists>v. map_of (xs @ ys) p = Some v \<and> Q v) \<longleftrightarrow>
      (\<exists>v. map_of xs p = Some v \<and> Q v) \<or> (p \<notin> fst ` set xs \<and> (\<exists>v. map_of ys p = Some v \<and> Q v))" for p Q
  proof (cases "map_of xs p")
    case None
    then have "p \<notin> fst ` set xs" by (simp add: map_of_eq_None_iff)
    with None show ?thesis by (simp add: map_add_def)
  next
    case (Some v)
    then have "p \<in> fst ` set xs" by (metis map_of_eq_None_iff option.distinct(1))
    with Some show ?thesis by (auto simp: map_add_def split: option.splits)
  qed
  show ?thesis unfolding claims_of_def either by (rule split)
qed

lemma scan_loop_records:
  assumes "distinct (map fst tails)" and "fst ` set tails \<subseteq> fst ` set (values_of (concat rss))"
  shows "scan_loop G (map (Fetches []) rss) (tails, length tails, ck) =
     Some (Inr (Max (insert ck (claims_of G (values_of (concat rss)) (fst ` set tails)))))"
  using assms
proof (induction rss arbitrary: tails ck)
  case Nil
  then show ?case by (simp add: claims_of_def)
next
  case (Cons rs rss)
  show ?case
  proof (cases "length tails")
    case 0
    then show ?thesis by (simp add: claims_of_def)
  next
    case (Suc n)
    let ?ck = "Max (insert ck (claims_of G (values_of rs) (fst ` set tails)))"
    obtain tails' where t: "fold (take_tail G) rs (tails, Suc n, ck) = (tails', length tails', ?ck)"
      "distinct (map fst tails')" "fst ` set tails' = fst ` set tails - fst ` set (values_of rs)"
      using take_tails [OF Cons.prems(1) refl, of G rs ck] Suc by auto
    have "fst ` set tails' \<subseteq> fst ` set (values_of (concat rss))"
      using Cons.prems(2) unfolding t(3) by (simp add: image_Un) blast
    note ih = Cons.IH [OF t(2) this, of ?ck]
    have "Max (insert ?ck (claims_of G (values_of (concat rss)) (fst ` set tails'))) =
        Max (insert ck (claims_of G (values_of (concat (rs # rss))) (fst ` set tails)))"
    proof -
      have fin: "finite (claims_of G (values_of rs) (fst ` set tails))" "finite (claims_of G (values_of (concat rss)) (fst ` set tails'))"
        by (rule claims_of_finite)+
      have "Max (insert (Max (insert ck A)) B) = Max (insert ck (A \<union> B))" if "finite A" "finite B" for A B
        using that Max_Un [of "insert ck A" B] by (cases "B = {}") simp_all
      from this [OF fin] show ?thesis by (simp only: concat.simps values_of_simps claims_of_append t(3))
    qed
    with ih t(1) Suc show ?thesis by simp
  qed
qed

text \<open>A topic as the clients show it: partitions with a first offset and the values in them.\<close>

definition starts_of :: "(int \<Rightarrow> int) \<Rightarrow> int list \<Rightarrow> (int \<times> listed_offset) list" where
  "starts_of start ps = map (\<lambda>p. (p, \<lparr> lo_Offset = start p, lo_Err = None \<rparr>)) ps"

definition ends_of :: "(int \<Rightarrow> int) \<Rightarrow> (int \<Rightarrow> string list) \<Rightarrow> int list \<Rightarrow> (int \<times> listed_offset) list" where
  "ends_of start log ps = map (\<lambda>p. (p, \<lparr> lo_Offset = start p + int (length (log p)), lo_Err = None \<rparr>)) ps"

lemma starts_of_map: "map_of (starts_of start ps) p = (if p \<in> set ps then Some \<lparr> lo_Offset = start p, lo_Err = None \<rparr> else None)"
  by (induction ps) (auto simp: starts_of_def)

lemma tailOffsets_of_topic:
  assumes "distinct ps"
  shows "\<exists>tails. tailOffsets (Inr (starts_of start ps)) (Inr (ends_of start log ps)) = Inr tails \<and>
     distinct (map fst tails) \<and> fst ` set tails = {p \<in> set ps. log p \<noteq> []} \<and>
     (\<forall>p o'. map_of tails p = Some o' \<longrightarrow> o' = start p + int (length (log p)) - 1)"
proof -
  have "qs = rs @ ts \<Longrightarrow> set qs \<subseteq> set ps \<Longrightarrow> distinct (map fst T) \<Longrightarrow> fst ` set T = {p \<in> set rs. log p \<noteq> []} \<Longrightarrow>
      (\<forall>p o'. map_of T p = Some o' \<longrightarrow> o' = start p + int (length (log p)) - 1) \<Longrightarrow>
      \<exists>tails. fold (tail_of (starts_of start ps)) (ends_of start log ts) (T, None) = (tails, None) \<and>
        distinct (map fst tails) \<and> fst ` set tails = {p \<in> set qs. log p \<noteq> []} \<and>
        (\<forall>p o'. map_of tails p = Some o' \<longrightarrow> o' = start p + int (length (log p)) - 1)" for qs rs ts T
  proof (induction ts arbitrary: rs T)
    case Nil
    then show ?case by (simp add: ends_of_def)
  next
    case (Cons p ts)
    have p: "p \<in> set ps" using Cons.prems(1,2) by auto
    have step: "tail_of (starts_of start ps) (p, \<lparr> lo_Offset = start p + int (length (log p)), lo_Err = None \<rparr>) (T, None) =
        (if log p = [] then T else AList.update p (start p + int (length (log p)) - 1) T, None)"
      using p by (simp add: tail_of_def starts_of_map)
    let ?T = "if log p = [] then T else AList.update p (start p + int (length (log p)) - 1) T"
    have "\<exists>tails. fold (tail_of (starts_of start ps)) (ends_of start log ts) (?T, None) = (tails, None) \<and>
        distinct (map fst tails) \<and> fst ` set tails = {p \<in> set qs. log p \<noteq> []} \<and>
        (\<forall>p o'. map_of tails p = Some o' \<longrightarrow> o' = start p + int (length (log p)) - 1)"
    proof (rule Cons.IH [of "rs @ [p]"])
      show "qs = (rs @ [p]) @ ts" "set qs \<subseteq> set ps" using Cons.prems by auto
      show "distinct (map fst ?T)" using Cons.prems(3) by (simp add: AList.distinct_update)
      show "fst ` set ?T = {q \<in> set (rs @ [p]). log q \<noteq> []}"
      proof -
        have "fst ` set (AList.update p x T) = insert p (fst ` set T)" for x
          unfolding dom_map_of_conv_image_fst [symmetric] AList.update_conv' by auto
        then show ?thesis using Cons.prems(4) by auto
      qed
      show "\<forall>p o'. map_of ?T p = Some o' \<longrightarrow> o' = start p + int (length (log p)) - 1"
        using Cons.prems(5) by (auto simp: AList.update_conv')
    qed
    then show ?case using step by (simp add: ends_of_def)
  qed
  from this [of ps "[]" ps "[]"] obtain tails where
    "fold (tail_of (starts_of start ps)) (ends_of start log ps) ([], None) = (tails, None)"
    "distinct (map fst tails)" "fst ` set tails = {p \<in> set ps. log p \<noteq> []}"
    "\<forall>p o'. map_of tails p = Some o' \<longrightarrow> o' = start p + int (length (log p)) - 1" by auto
  then show ?thesis by (simp add: tailOffsets_def)
qed

definition tail_claims :: "'u cdc_lib \<Rightarrow> (int \<Rightarrow> string list) \<Rightarrow> int set \<Rightarrow> u64 set" where
  "tail_claims G log P = {c. \<exists>p \<in> P. log p \<noteq> [] \<and> recordCheckpoint G (last (log p)) = Some c}"


text \<open>
  The records a partition holds from an offset on; and a consumer that delivers: for each
  partition it is told to consume, the records from exactly the given offset on, in order, as
  many as have come, and at least one of them if the partition has one. Nothing is said of
  other partitions.
\<close>

definition stored_from :: "int \<Rightarrow> string list \<Rightarrow> int \<Rightarrow> (int \<times> string) list" where
  "stored_from start values from_offset =
     filter (\<lambda>(x, v). from_offset \<le> x) (map (\<lambda>i. (start + int i, values ! i)) [0..<length values])"

definition delivers :: "(int \<Rightarrow> int) \<Rightarrow> (int \<Rightarrow> string list) \<Rightarrow> ((int \<times> int) list \<Rightarrow> tail_poll list) \<Rightarrow> bool" where
  "delivers start log consume \<longleftrightarrow>
     (\<forall>tails. distinct (map fst tails) \<longrightarrow> (\<exists>rss. consume tails = map (Fetches []) rss \<and>
        (\<forall>(p, from_offset) \<in> set tails. \<exists>n.
           map (\<lambda>r. (tr_Offset r, tr_Value r)) (filter (\<lambda>r. tr_Partition r = p) (concat rss)) =
             take n (stored_from (start p) (log p) from_offset) \<and>
           (stored_from (start p) (log p) from_offset \<noteq> [] \<longrightarrow> 0 < n))))"

lemma filter_from: "filter (\<lambda>i. k \<le> i) [0..<n] = [k..<n]"
  by (induction n) auto

lemma stored_from_nth:
  "stored_from start values (start + int k) = map (\<lambda>i. (start + int i, values ! i)) [k..<length values]"
  by (simp add: stored_from_def filter_map o_def filter_from)

text \<open>From the offset of the last record listed the first record is that one, whatever came since.\<close>

lemma stored_from_last:
  assumes "vs \<noteq> []"
  shows "\<exists>rest. stored_from start (vs @ added) (start + int (length vs) - 1) =
     (start + int (length vs) - 1, last vs) # rest"
proof -
  obtain us v where vs: "vs = us @ [v]" using assms by (cases vs rule: rev_cases) auto
  have "stored_from start (vs @ added) (start + int (length us)) =
      (start + int (length us), v) # map (\<lambda>i. (start + int i, (vs @ added) ! i)) [Suc (length us)..<length (vs @ added)]"
    unfolding stored_from_nth by (subst upt_conv_Cons) (simp_all add: vs nth_append)
  then show ?thesis by (simp add: vs)
qed

lemma values_of_first:
  "map (\<lambda>r. (tr_Offset r, tr_Value r)) (filter (\<lambda>r. tr_Partition r = p) recs) = (x, v) # rest \<Longrightarrow>
     map_of (values_of recs) p = Some v"
  by (induction recs) (auto split: if_splits)

lemma delivered_last:
  assumes "delivers start (\<lambda>p. log p @ added p) consume" and "distinct (map fst tails)"
    and "\<forall>p o'. map_of tails p = Some o' \<longrightarrow> log p \<noteq> [] \<and> o' = start p + int (length (log p)) - 1"
  obtains rss where "consume tails = map (Fetches []) rss"
    "\<And>p. p \<in> fst ` set tails \<Longrightarrow> map_of (values_of (concat rss)) p = Some (last (log p))"
proof -
  obtain rss where rss: "consume tails = map (Fetches []) rss"
    "\<And>p o'. (p, o') \<in> set tails \<Longrightarrow> \<exists>n.
        map (\<lambda>r. (tr_Offset r, tr_Value r)) (filter (\<lambda>r. tr_Partition r = p) (concat rss)) =
          take n (stored_from (start p) (log p @ added p) o') \<and>
        (stored_from (start p) (log p @ added p) o' \<noteq> [] \<longrightarrow> 0 < n)"
    using assms(1,2) unfolding delivers_def by fast
  have "map_of (values_of (concat rss)) p = Some (last (log p))" if p: "p \<in> fst ` set tails" for p
  proof -
    obtain o' where o': "(p, o') \<in> set tails" using p by auto
    then have log: "log p \<noteq> []" "o' = start p + int (length (log p)) - 1"
      using assms(2,3) map_of_is_SomeI by metis+
    obtain rest where "stored_from (start p) (log p @ added p) o' = (o', last (log p)) # rest"
      using stored_from_last [OF log(1)] log(2) by metis
    with rss(2) [OF o'] obtain n where
      n: "map (\<lambda>r. (tr_Offset r, tr_Value r)) (filter (\<lambda>r. tr_Partition r = p) (concat rss)) =
         take n ((o', last (log p)) # rest)" "0 < n" by auto
    then show ?thesis
      using values_of_first [of p "concat rss" o' "last (log p)" "take (n - 1) rest"]
      by (simp add: take_Cons')
  qed
  with rss(1) show ?thesis by (rule that)
qed

lemma Resume_tails:
  assumes "distinct ps" and "delivers start (\<lambda>p. log p @ added p) consume"
  shows "Resume G None (Inr (starts_of start ps)) (Inr (ends_of start log ps)) None consume =
     Some (Inr (Max (insert 0 (tail_claims G log (set ps)))))"
proof -
  obtain tails where t: "tailOffsets (Inr (starts_of start ps)) (Inr (ends_of start log ps)) = Inr tails"
    "distinct (map fst tails)" "fst ` set tails = {p \<in> set ps. log p \<noteq> []}"
    "\<forall>p o'. map_of tails p = Some o' \<longrightarrow> o' = start p + int (length (log p)) - 1"
    using tailOffsets_of_topic [OF assms(1)] by blast
  have "log p \<noteq> []" if "map_of tails p = Some o'" for p o'
    using map_of_SomeD [OF that] t(3) by force
  with t(4) have at_last: "\<forall>p o'. map_of tails p = Some o' \<longrightarrow>
      log p \<noteq> [] \<and> o' = start p + int (length (log p)) - 1" by blast
  obtain rss where rss: "consume tails = map (Fetches []) rss"
    "\<And>p. p \<in> fst ` set tails \<Longrightarrow> map_of (values_of (concat rss)) p = Some (last (log p))"
    using delivered_last [OF assms(2) t(2) at_last] by blast
  have "p \<in> fst ` set (values_of (concat rss))" if "p \<in> fst ` set tails" for p
    using rss(2) [OF that] by (metis map_of_eq_None_iff option.distinct(1))
  then have sub: "fst ` set tails \<subseteq> fst ` set (values_of (concat rss))" by blast
  have claims: "claims_of G (values_of (concat rss)) (fst ` set tails) = tail_claims G log (set ps)"
    using rss(2) unfolding claims_of_def tail_claims_def t(3) by auto
  show ?thesis
  proof (cases "tails = []")
    case True
    then have "tail_claims G log (set ps) = {}" using t(3) by (auto simp: tail_claims_def)
    with True t(1) show ?thesis by (simp add: Resume_def)
  next
    case False
    then show ?thesis
      using scan_loop_records [OF t(2) sub, of G 0] t(1) claims rss(1) by (simp add: Resume_def)
  qed
qed

subsection \<open>Properties\<close>

text \<open>
  C34: \<^verbatim>\<open>Resume\<close> finds the highest claim in the topic: for a topic of any partitions, with any
  offsets deleted at the head, and a consumer that delivers the records of a partition from the
  offset it is told to start at, it consumes each partition that holds a record from exactly
  the offset of its last one, and ends with the maximum of the checkpoints claimed by these
  last records, zero when there are none. Records appended after the offsets were listed do not
  change the result, and a tail that cannot be read counts as no claim.
\<close>

theorem Resume_finds_the_highest_tail_claim:
  assumes "distinct ps" and "delivers start (\<lambda>p. log p @ added p) consume"
  shows "Resume G None (Inr (starts_of start ps)) (Inr (ends_of start log ps)) None consume =
     Some (Inr (Max (insert 0 (tail_claims G log (set ps)))))"
  by (rule Resume_tails [OF assms])


subsection \<open>Witnesses\<close>

lemma demo_codec_ok: "codec_ok demo_lib"
proof -
  have "CHR ''/'' \<notin> set (dec n)" for n
    using dec_digits [of n] by (auto simp: list_all_iff is_digit_def)
  then show ?thesis
    by (auto simp: codec_ok_def demo_lib_def cut_found stub_message_def)
qed

definition demo_encoder :: encoder where
  "demo_encoder = NewEncoder (CDC sample_config) sample_registry"

lemma demo_record: "\<exists>rec e'. Record demo_lib (event_at 9) 3 demo_encoder = (Inr (Inr rec), e')"
proof -
  have ok: "u128_ok (u128 demo_lib)" by (simp add: demo_lib_def word_u128_ok)
  have "registry_ok (reg demo_encoder)" by (simp add: demo_encoder_def NewEncoder_def sample_registry_ok)
  from message_text_total [OF ok this]
  obtain msg where "message_text demo_lib (reg demo_encoder) (event_at 9) 3 = Inr msg" by blast
  then show ?thesis
    by (simp add: Record_def message_of_split marshal_def) (simp add: demo_lib_def)
qed

definition demo_log :: "int \<Rightarrow> string list" where
  "demo_log p = (if p = 0 then [''1/12'', ''1/57''] else if p = 2 then [''1/39''] else [])"

text \<open>A consumer that delivers everything there is, each partition in a poll of its own.\<close>

definition poll_all :: "(int \<Rightarrow> int) \<Rightarrow> (int \<Rightarrow> string list) \<Rightarrow> (int \<times> int) list \<Rightarrow> tail_poll list" where
  "poll_all start log tails =
     map (Fetches [])
       (map (\<lambda>(p, x). map (\<lambda>(y, v). \<lparr> tr_Partition = p, tr_Offset = y, tr_Value = v \<rparr>)
          (stored_from (start p) (log p) x)) tails)"

lemma poll_all_delivers: "delivers start log (poll_all start log)"
proof -
  define polled where "polled tails =
     map (\<lambda>(p, x). map (\<lambda>(y, v). \<lparr> tr_Partition = p, tr_Offset = y, tr_Value = v \<rparr>)
          (stored_from (start p) (log p) x)) tails" for tails
  have polled_Cons: "polled ((q, y) # tails) =
      map (\<lambda>(z, v). \<lparr> tr_Partition = q, tr_Offset = z, tr_Value = v \<rparr>) (stored_from (start q) (log q) y) # polled tails"
    for q y tails by (simp add: polled_def)
  have none: "filter (\<lambda>r. tr_Partition r = p) (concat (polled tails)) = []" if "p \<notin> fst ` set tails" for p tails
    using that by (force simp: polled_def filter_empty_conv)
  have all: "map (\<lambda>r. (tr_Offset r, tr_Value r)) (filter (\<lambda>r. tr_Partition r = p) (concat (polled tails))) =
      stored_from (start p) (log p) x"
    if "distinct (map fst tails)" and "(p, x) \<in> set tails" for p x tails
    using that
  proof (induction tails)
    case (Cons t tails)
    obtain q y where t: "t = (q, y)" by (cases t)
    have mine: "map (\<lambda>r. (tr_Offset r, tr_Value r)) (filter (\<lambda>r. tr_Partition r = q)
        (map (\<lambda>(z, v). \<lparr> tr_Partition = q, tr_Offset = z, tr_Value = v \<rparr>) es)) = es" for es
      by (induction es) auto
    show ?case
    proof (cases "p = q")
      case True
      then have "x = y" using Cons.prems t by (auto simp: rev_image_eqI)
      with True mine none [of q tails] Cons.prems(1) t show ?thesis by (simp add: polled_Cons)
    next
      case False
      then have "filter (\<lambda>r. tr_Partition r = p)
          (map (\<lambda>(z, v). \<lparr> tr_Partition = q, tr_Offset = z, tr_Value = v \<rparr>) es) = []" for es
        by (auto simp: filter_empty_conv)
      with False Cons t show ?thesis by (simp add: polled_Cons)
    qed
  qed simp
  have "\<exists>rss. poll_all start log tails = map (Fetches []) rss \<and>
     (\<forall>(p, x) \<in> set tails. \<exists>n.
        map (\<lambda>r. (tr_Offset r, tr_Value r)) (filter (\<lambda>r. tr_Partition r = p) (concat rss)) =
          take n (stored_from (start p) (log p) x) \<and> (stored_from (start p) (log p) x \<noteq> [] \<longrightarrow> 0 < n))"
    if d: "distinct (map fst tails)" for tails
  proof (intro exI [of _ "polled tails"] conjI ballI, goal_cases)
    case 1
    show ?case by (simp add: poll_all_def polled_def)
  next
    case (2 px)
    then show ?case
      using all [OF d, of "fst px" "snd px"]
      by (cases px) (auto intro!: exI [of _ "length (stored_from (start (fst px)) (log (fst px)) (snd px))"])
  qed
  then show ?thesis unfolding delivers_def by blast
qed

theorem Resume_finds_the_highest_tail_claim_witness:
  "Resume demo_lib None (Inr (starts_of (\<lambda>_. 4) [0, 1, 2])) (Inr (ends_of (\<lambda>_. 4) demo_log [0, 1, 2])) None
     (poll_all (\<lambda>_. 4) (\<lambda>p. demo_log p @ [''1/88''])) = Some (Inr 5)"
proof -
  have "Max (insert 0 (tail_claims demo_lib demo_log (set [0, 1, 2]))) = (5 :: u64)"
  proof -
    have "recordCheckpoint demo_lib ''1/57'' = Some 5" "recordCheckpoint demo_lib ''1/39'' = Some 3"
      by (simp_all add: recordCheckpoint_def demo_lib_def stub_message_def ParseUint_def dec_val_def digit_val_def
          is_digit_def)
    then have "tail_claims demo_lib demo_log (set [0, 1, 2]) = {5, 3}"
      by (auto simp: tail_claims_def demo_log_def)
    then show ?thesis by simp
  qed
  then show ?thesis
    using Resume_finds_the_highest_tail_claim [OF _ poll_all_delivers [of "\<lambda>_. 4" "\<lambda>p. demo_log p @ [''1/88'']"],
        of "[0, 1, 2]" demo_lib] by simp
qed

end
