(* ===== verification/Batcher.thy ===== *)
theory Batcher
  imports Outcome Config "HOL-Library.Sublist"
begin

section \<open>The batcher: \<^verbatim>\<open>internal/tbx/batcher.go\<close>\<close>

text \<open>
  The single door into TigerBeetle: submitters put commands on one bounded queue, one loop
  collects runs of one operation into batches and sends them strictly one after another,
  and everything still queued at shutdown is answered with \<^verbatim>\<open>ErrClosed\<close>. Submitters, the
  loop, the late watchers and the two callers of \<^verbatim>\<open>settle\<close> run concurrently, so the
  component is a step relation over their program counters: one rule per atomic channel
  operation, in the order the code performs them.
\<close>

subsection \<open>Jobs, requests and replies\<close>

text \<open>
  A job is a queued command; \<open>jid\<close> stands for the identity of its \<^verbatim>\<open>done\<close> channel. Go's pair
  of outcomes and error is a sum.
\<close>

record 'u job =
  jid :: nat
  cmd :: "'u command"

datatype submit_error =
    ErrCommandTooLarge
  | ErrEmptyCommand
  | ErrClosed
  | CtxErr
  | MapErr map_error

type_synonym submit_result = "submit_error + outcome list"

datatype 'u request = TransfersReq "'u transfer list" | AccountsReq "'u account list"

datatype ('ts, 'as) reply =
    TransfersReply "'ts create_result list"
  | AccountsReply "'as create_result list"

unbundle bit_operations_syntax

definition linkedBit :: u16 where "linkedBit = 1"

definition clear_linked_transfer :: "'u transfer \<Rightarrow> 'u transfer" where
  "clear_linked_transfer t = t\<lparr>t_Flags := t_Flags t AND NOT linkedBit\<rparr>"

definition clear_linked_account :: "'u account \<Rightarrow> 'u account" where
  "clear_linked_account a = a\<lparr>a_Flags := a_Flags a AND NOT linkedBit\<rparr>"

text \<open>
  The assembly loop of \<^verbatim>\<open>sendTransfers\<close> and \<^verbatim>\<open>sendAccounts\<close>: append each command's events,
  note its offset, and clear the linked bit of the last event of the buffer
  (\<^verbatim>\<open>events[len(events)-1]\<close>, which panics on an empty buffer).
\<close>

fun assemble ::
    "('e \<Rightarrow> 'e) \<Rightarrow> 'e list \<Rightarrow> nat list \<Rightarrow> 'e list list \<Rightarrow> panic + 'e list \<times> nat list" where
  "assemble clear events offsets [] = Inr (events, offsets)"
| "assemble clear events offsets (ts # rest) =
     (let es = events @ ts in
      if es = [] then Inl IndexOutOfRange
      else assemble clear (butlast es @ [clear (last es)]) (offsets @ [length events]) rest)"

record ('ts, 'as) batcher_params =
  b_cfg :: batcher_cfg
  b_retry :: retry_cfg
  transfer_api :: "'ts status_api"
  account_api :: "'as status_api"

text \<open>
  \<^verbatim>\<open>send\<close>: the request the operation makes of the jobs, and the results handed to their
  channels when the client replies. A panic of the assembly has no request.
\<close>

definition request_of :: "op \<Rightarrow> 'u job list \<Rightarrow> panic + 'u request \<times> nat list" where
  "request_of op jobs =
     (if op = OpCreateAccounts then
        (case assemble clear_linked_account [] [] (map (\<lambda>j. Accounts (cmd j)) jobs) of
           Inl p \<Rightarrow> Inl p
         | Inr (events, offsets) \<Rightarrow> Inr (AccountsReq events, offsets))
      else
        (case assemble clear_linked_transfer [] [] (map (\<lambda>j. Transfers (cmd j)) jobs) of
           Inl p \<Rightarrow> Inl p
         | Inr (events, offsets) \<Rightarrow> Inr (TransfersReq events, offsets)))"

fun request_size :: "'u request \<Rightarrow> nat" where
  "request_size (TransfersReq es) = length es"
| "request_size (AccountsReq es) = length es"

fun map_reply ::
    "('ts, 'as) batcher_params \<Rightarrow> ('ts, 'as) reply \<Rightarrow> 'u command \<Rightarrow> nat \<Rightarrow> nat \<Rightarrow> map_error + outcome list"
  where
  "map_reply P (TransfersReply rs) c off n = MapTransferResults (transfer_api P) c rs (int off) n"
| "map_reply P (AccountsReply rs) c off n = MapAccountResults (account_api P) c rs (int off) n"

definition result_of ::
    "('ts, 'as) batcher_params \<Rightarrow> ('ts, 'as) reply \<Rightarrow> nat \<Rightarrow> 'u job \<times> nat \<Rightarrow> nat \<times> submit_result" where
  "result_of P rep n = (\<lambda>(j, off).
     (jid j, case map_reply P rep (cmd j) off n of Inl e \<Rightarrow> Inl (MapErr e) | Inr os \<Rightarrow> Inr os))"

text \<open>The replies that can come back for a request: \<^verbatim>\<open>call\<close> is typed by the operation.\<close>

fun reply_fits :: "'u request \<Rightarrow> ('ts, 'as) reply \<Rightarrow> bool" where
  "reply_fits (TransfersReq _) (TransfersReply _) = True"
| "reply_fits (AccountsReq _) (AccountsReply _) = True"
| "reply_fits _ _ = False"

subsection \<open>Backoff\<close>

text \<open>
  The delay schedule at the end of \<^verbatim>\<open>call\<close>; \<^verbatim>\<open>delay *= 2\<close> is an \<^verbatim>\<open>int64\<close> product. \<open>rnd n\<close> is
  \<^verbatim>\<open>rand.Int63n(n)\<close>, which panics for \<open>n \<le> 0\<close>; Go's \<^verbatim>\<open>d/2\<close> truncates towards zero.
\<close>

definition call_backoff :: "retry_cfg \<Rightarrow> int \<Rightarrow> int" where
  "call_backoff r delay =
     (if delay < Max_delay r then
        (let d = int64 (delay * 2) in if d > Max_delay r then Max_delay r else d)
      else delay)"

definition half :: "int \<Rightarrow> int" where
  "half d = sgn d * (\<bar>d\<bar> div 2)"

definition jitter :: "retry_cfg \<Rightarrow> (int \<Rightarrow> int) \<Rightarrow> int \<Rightarrow> panic + int" where
  "jitter r rnd d =
     (if \<not> Jitter r then Inr d
      else if half d + 1 \<le> 0 then Inl InvalidArgument
      else Inr (half d + rnd (half d + 1)))"

subsection \<open>State\<close>

text \<open>
  Where \<^verbatim>\<open>flush\<close> returns to: the second size test, the append, the \<^verbatim>\<open>select\<close>, or the final
  drain. The loop is at its \<^verbatim>\<open>select\<close>, holds a received job before the size test or before
  the append, is inside a flush, drains, or has exited. Inside a flush it is in \<^verbatim>\<open>call\<close>: either
  \<^verbatim>\<open>fn()\<close> runs (\<open>Calling\<close>) and only the client can end that, or it has failed and the \<^verbatim>\<open>select\<close>
  over \<^verbatim>\<open>stop\<close> and the backoff waits (\<open>BackingOff\<close>).
\<close>

datatype 'u cont = ToSize "'u job" | ToAppend "'u job" | ToSelect | ToDrain

datatype 'u loop_pc =
    NotStarted
  | Select
  | AtSize "'u job"
  | AtAppend "'u job"
  | Calling "'u cont"
  | BackingOff "'u cont"
  | Draining
  | Exited

text \<open>
  One \<^verbatim>\<open>SubmitAsync\<close>: past the command checks, past the fast-fail, queued, returned with
  \<^verbatim>\<open>j.done\<close>, or in \<^verbatim>\<open>watchLate\<close> (which has seen \<^verbatim>\<open>finished\<close>, or has answered), or refused.
\<close>

datatype 'u sub_pc =
    NotSubmitted
  | Entered "'u command"
  | Enqueuing "'u command"
  | Enqueued
  | Returned
  | Watching
  | WatchFinished
  | Delivered submit_result
  | Refused submit_error

datatype settle_pc = SettleIdle | SettleDraining | SettleDone

text \<open>
  \<open>answers i\<close> lists what was sent on the channel of job \<open>i\<close>. The last three fields record
  history and are read by no rule: the jobs in queueing order, the jobs answered in
  answering order, and the batches TigerBeetle replied to, each with its request and reply.
\<close>

record ('u, 'ts, 'as) bstate =
  queue :: "'u job list"
  stop :: bool
  finished :: bool
  batch :: "'u job list"
  size :: nat
  run_op :: op
  timer :: bool
  delay :: int
  pc :: "'u loop_pc"
  subs :: "nat \<Rightarrow> 'u sub_pc"
  settlers :: "nat \<Rightarrow> settle_pc"
  answers :: "nat \<Rightarrow> submit_result list"
  accepted :: "'u job list"
  handled :: "'u job list"
  sent :: "('u job list \<times> 'u request \<times> ('ts, 'as) reply) list"

definition NewBatcher :: "('u, 'ts, 'as) bstate" where
  "NewBatcher =
     \<lparr> queue = [], stop = False, finished = False, batch = [], size = 0, run_op = [],
       timer = False, delay = 0, pc = NotStarted, subs = (\<lambda>_. NotSubmitted),
       settlers = (\<lambda>_. SettleIdle), answers = (\<lambda>_. []), accepted = [], handled = [], sent = [] \<rparr>"

text \<open>Sending a result on a job's channel.\<close>

definition answer :: "nat \<times> submit_result \<Rightarrow> ('u, 'ts, 'as) bstate \<Rightarrow> ('u, 'ts, 'as) bstate" where
  "answer p s = s\<lparr>answers := (answers s)(fst p := answers s (fst p) @ [snd p])\<rparr>"

definition answer_all :: "(nat \<times> submit_result) list \<Rightarrow> ('u, 'ts, 'as) bstate \<Rightarrow> ('u, 'ts, 'as) bstate" where
  "answer_all ps s = fold answer ps s"

fun resume :: "'u cont \<Rightarrow> 'u loop_pc" where
  "resume (ToSize j) = AtSize j"
| "resume (ToAppend j) = AtAppend j"
| "resume ToSelect = Select"
| "resume ToDrain = Draining"

text \<open>Entering \<^verbatim>\<open>flush\<close>: nothing to do on an empty batch, otherwise stop the timer and call.\<close>

definition flush :: "retry_cfg \<Rightarrow> 'u cont \<Rightarrow> ('u, 'ts, 'as) bstate \<Rightarrow> ('u, 'ts, 'as) bstate" where
  "flush r k s =
     (if batch s = [] then s\<lparr>pc := resume k\<rparr>
      else s\<lparr>timer := False, delay := Initial r, pc := Calling k\<rparr>)"

text \<open>Leaving \<^verbatim>\<open>flush\<close>: the batch was answered, \<^verbatim>\<open>batch, size = nil, 0\<close>.\<close>

definition end_flush :: "'u cont \<Rightarrow> ('u, 'ts, 'as) bstate \<Rightarrow> ('u, 'ts, 'as) bstate" where
  "end_flush k s = s\<lparr>batch := [], size := 0, handled := handled s @ batch s, pc := resume k\<rparr>"

text \<open>The receive branch, up to the first possible flush; then the size test; then the append.\<close>

definition on_receive :: "retry_cfg \<Rightarrow> 'u job \<Rightarrow> ('u, 'ts, 'as) bstate \<Rightarrow> ('u, 'ts, 'as) bstate" where
  "on_receive r j s =
     (if batch s \<noteq> [] \<and> Op (cmd j) \<noteq> run_op s then flush r (ToSize j) s else s\<lparr>pc := AtSize j\<rparr>)"

definition on_size :: "batcher_cfg \<Rightarrow> retry_cfg \<Rightarrow> 'u job \<Rightarrow> ('u, 'ts, 'as) bstate \<Rightarrow> ('u, 'ts, 'as) bstate" where
  "on_size c r j s =
     (if int (size s + Len (cmd j)) > B_MaxBatchSize c then flush r (ToAppend j) s
      else s\<lparr>pc := AtAppend j\<rparr>)"

definition on_append :: "batcher_cfg \<Rightarrow> retry_cfg \<Rightarrow> 'u job \<Rightarrow> ('u, 'ts, 'as) bstate \<Rightarrow> ('u, 'ts, 'as) bstate" where
  "on_append c r j s =
     (let s' = s\<lparr>run_op := Op (cmd j), batch := batch s @ [j], size := size s + Len (cmd j)\<rparr> in
      if int (size s') \<ge> B_MaxBatchSize c then flush r ToSelect s'
      else s'\<lparr>timer := True, pc := Select\<rparr>)"

text \<open>One turn of \<^verbatim>\<open>drain\<close>: receive the head of the queue and answer it.\<close>

definition drain_one :: "submit_error \<Rightarrow> ('u, 'ts, 'as) bstate \<Rightarrow> ('u, 'ts, 'as) bstate" where
  "drain_one e s =
     answer (jid (hd (queue s)), Inl e) (s\<lparr>queue := tl (queue s), handled := handled s @ [hd (queue s)]\<rparr>)"

lemmas loop_defs =
  flush_def end_flush_def on_receive_def on_size_def on_append_def drain_one_def answer_def Let_def

subsection \<open>Steps\<close>

text \<open>
  \<^verbatim>\<open>SubmitAsync\<close> and \<^verbatim>\<open>watchLate\<close>, call \<open>i\<close>. A \<^verbatim>\<open>select\<close> with several ready cases may take
  any of them.
\<close>

inductive submit_step :: "('ts, 'as) batcher_params \<Rightarrow> ('u, 'ts, 'as) bstate \<Rightarrow> ('u, 'ts, 'as) bstate \<Rightarrow> bool"
  for P :: "('ts, 'as) batcher_params"
where
  empty_command: "subs s i = NotSubmitted \<Longrightarrow> Len (c :: 'u command) = 0 \<Longrightarrow>
    submit_step P s (s\<lparr>subs := (subs s)(i := Refused ErrEmptyCommand)\<rparr>)"
| too_large: "subs s i = NotSubmitted \<Longrightarrow> Len (c :: 'u command) \<noteq> 0 \<Longrightarrow> int (Len c) > B_MaxBatchSize (b_cfg P) \<Longrightarrow>
    submit_step P s (s\<lparr>subs := (subs s)(i := Refused ErrCommandTooLarge)\<rparr>)"
| enter: "subs s i = NotSubmitted \<Longrightarrow> Len c \<noteq> 0 \<Longrightarrow> int (Len c) \<le> B_MaxBatchSize (b_cfg P) \<Longrightarrow>
    submit_step P s (s\<lparr>subs := (subs s)(i := Entered c)\<rparr>)"
| fast_fail: "subs s i = Entered c \<Longrightarrow> stop s \<Longrightarrow>
    submit_step P s (s\<lparr>subs := (subs s)(i := Refused ErrClosed)\<rparr>)"
| fast_pass: "subs s i = Entered c \<Longrightarrow> \<not> stop s \<Longrightarrow>
    submit_step P s (s\<lparr>subs := (subs s)(i := Enqueuing c)\<rparr>)"
| enqueue_stopped: "subs s i = Enqueuing c \<Longrightarrow> stop s \<Longrightarrow>
    submit_step P s (s\<lparr>subs := (subs s)(i := Refused ErrClosed)\<rparr>)"
| enqueue_cancelled: "subs s i = Enqueuing c \<Longrightarrow>
    submit_step P s (s\<lparr>subs := (subs s)(i := Refused CtxErr)\<rparr>)"
| enqueue: "subs s i = Enqueuing c \<Longrightarrow> int (length (queue s)) < MaxQueue (b_cfg P) \<Longrightarrow>
    j = \<lparr>jid = i, cmd = c\<rparr> \<Longrightarrow>
    submit_step P s (s\<lparr>subs := (subs s)(i := Enqueued), queue := queue s @ [j],
                       accepted := accepted s @ [j]\<rparr>)"
| return_done: "subs s i = Enqueued \<Longrightarrow> \<not> stop s \<Longrightarrow>
    submit_step P s (s\<lparr>subs := (subs s)(i := Returned)\<rparr>)"
| return_late: "subs s i = Enqueued \<Longrightarrow> stop s \<Longrightarrow>
    submit_step P s (s\<lparr>subs := (subs s)(i := Watching)\<rparr>)"
| watch_outcome: "subs s i = Watching \<Longrightarrow> answers s i = r # rs \<Longrightarrow>
    submit_step P s (s\<lparr>subs := (subs s)(i := Delivered r)\<rparr>)"
| watch_finished: "subs s i = Watching \<Longrightarrow> finished s \<Longrightarrow>
    submit_step P s (s\<lparr>subs := (subs s)(i := WatchFinished)\<rparr>)"
| late_outcome: "subs s i = WatchFinished \<Longrightarrow> answers s i = r # rs \<Longrightarrow>
    submit_step P s (s\<lparr>subs := (subs s)(i := Delivered r)\<rparr>)"
| late_closed: "subs s i = WatchFinished \<Longrightarrow> answers s i = [] \<Longrightarrow>
    submit_step P s (s\<lparr>subs := (subs s)(i := Delivered (Inl ErrClosed))\<rparr>)"

text \<open>
  \<^verbatim>\<open>loop\<close> with \<^verbatim>\<open>flush\<close>, \<^verbatim>\<open>send\<close> and \<^verbatim>\<open>drain\<close> inside it. While \<^verbatim>\<open>fn()\<close> runs the loop has two
  steps, both the client's: \<open>call_reply\<close>, the call returned a reply (any reply of the right
  type, also one of the wrong length), and \<open>call_failed\<close>, it returned an error. Only then is
  the \<^verbatim>\<open>select\<close> of \<^verbatim>\<open>call\<close> reached, which waits out the backoff and calls again (\<open>call_retry\<close>)
  or sees \<^verbatim>\<open>stop\<close> (\<open>call_stopped\<close>): a client call that hangs is never left. The premise of
  \<open>call_reply\<close> on the ids is the absence of the panic of \<^verbatim>\<open>newOutcomes\<close>, after which there is no
  process to step.
\<close>

inductive loop_step :: "('ts, 'as) batcher_params \<Rightarrow> ('u, 'ts, 'as) bstate \<Rightarrow> ('u, 'ts, 'as) bstate \<Rightarrow> bool"
  for P :: "('ts, 'as) batcher_params"
where
  started: "pc s = NotStarted \<Longrightarrow> loop_step P s (s\<lparr>pc := Select\<rparr>)"
| see_stop: "pc s = Select \<Longrightarrow> stop s \<Longrightarrow> loop_step P s (flush (b_retry P) ToDrain s)"
| receive: "pc s = Select \<Longrightarrow> queue s = j # q \<Longrightarrow>
    loop_step P s (on_receive (b_retry P) j (s\<lparr>queue := q\<rparr>))"
| size_test: "pc s = AtSize j \<Longrightarrow> loop_step P s (on_size (b_cfg P) (b_retry P) j s)"
| append: "pc s = AtAppend j \<Longrightarrow> loop_step P s (on_append (b_cfg P) (b_retry P) j s)"
| tick: "pc s = Select \<Longrightarrow> timer s \<Longrightarrow> loop_step P s (flush (b_retry P) ToSelect s)"
| call_reply: "pc s = Calling k \<Longrightarrow> request_of (run_op s) (batch s) = Inr (req, offsets) \<Longrightarrow>
    reply_fits req rep \<Longrightarrow> (\<And>j. j \<in> set (batch s) \<Longrightarrow> Len (cmd j) \<le> length (IDs (cmd j))) \<Longrightarrow>
    loop_step P s
      (end_flush k
        (answer_all (map (result_of P rep (request_size req)) (zip (batch s) offsets))
          (s\<lparr>sent := sent s @ [(batch s, req, rep)]\<rparr>)))"
| call_failed: "pc s = Calling k \<Longrightarrow> loop_step P s (s\<lparr>pc := BackingOff k\<rparr>)"
| call_retry: "pc s = BackingOff k \<Longrightarrow>
    loop_step P s (s\<lparr>pc := Calling k, delay := call_backoff (b_retry P) (delay s)\<rparr>)"
| call_stopped: "pc s = BackingOff k \<Longrightarrow> stop s \<Longrightarrow>
    loop_step P s
      (end_flush k (answer_all (map (\<lambda>j. (jid j, Inl ErrClosed)) (batch s)) s))"
| drain_job: "pc s = Draining \<Longrightarrow> queue s \<noteq> [] \<Longrightarrow> loop_step P s (drain_one ErrClosed s)"
| drain_end: "pc s = Draining \<Longrightarrow> queue s = [] \<Longrightarrow> loop_step P s (s\<lparr>pc := Exited\<rparr>)"

text \<open>
  \<^verbatim>\<open>signalStop\<close> and the callers of \<^verbatim>\<open>settle\<close>: the watcher goroutine of \<^verbatim>\<open>Start\<close> and \<^verbatim>\<open>Close\<close>. Both
  wait for the loop to have exited; when \<^verbatim>\<open>Start\<close> was never called there is no loop to wait
  for, and none may be started afterwards.
\<close>

inductive close_step :: "('u, 'ts, 'as) bstate \<Rightarrow> ('u, 'ts, 'as) bstate \<Rightarrow> bool"
where
  signalStop: "close_step s (s\<lparr>stop := True\<rparr>)"
| settle: "settlers s n = SettleIdle \<Longrightarrow> stop s \<Longrightarrow> pc s = Exited \<or> pc s = NotStarted \<Longrightarrow>
    close_step s (s\<lparr>pc := Exited, settlers := (settlers s)(n := SettleDraining)\<rparr>)"
| settle_job: "settlers s n = SettleDraining \<Longrightarrow> queue s \<noteq> [] \<Longrightarrow> close_step s (drain_one ErrClosed s)"
| signalFinished: "settlers s n = SettleDraining \<Longrightarrow> queue s = [] \<Longrightarrow>
    close_step s (s\<lparr>settlers := (settlers s)(n := SettleDone), finished := True\<rparr>)"

inductive batcher_step :: "('ts, 'as) batcher_params \<Rightarrow> ('u, 'ts, 'as) bstate \<Rightarrow> ('u, 'ts, 'as) bstate \<Rightarrow> bool"
  for P :: "('ts, 'as) batcher_params"
where
  by_submitter: "submit_step P s t \<Longrightarrow> batcher_step P s t"
| by_loop: "loop_step P s t \<Longrightarrow> batcher_step P s t"
| by_closer: "close_step s t \<Longrightarrow> batcher_step P s t"


inductive_cases submit_stepE: "submit_step P s t"
inductive_cases loop_stepE: "loop_step P s t"
inductive_cases close_stepE: "close_step s t"
inductive_cases batcher_stepE: "batcher_step P s t"

abbreviation batcher_reaches :: "('ts, 'as) batcher_params \<Rightarrow> ('u, 'ts, 'as) bstate \<Rightarrow> bool" where
  "batcher_reaches P s \<equiv> reachable (batcher_step P) NewBatcher s"

lemma batcher_step_cases:
  assumes "batcher_step P s t"
    and "submit_step P s t \<Longrightarrow> Q" and "loop_step P s t \<Longrightarrow> Q" and "close_step s t \<Longrightarrow> Q"
  shows Q
  using assms by (auto elim: batcher_stepE)

subsection \<open>Order: nothing is lost and nothing overtakes\<close>

fun held :: "'u loop_pc \<Rightarrow> 'u job list" where
  "held (AtSize j) = [j]"
| "held (AtAppend j) = [j]"
| "held (Calling (ToSize j)) = [j]"
| "held (Calling (ToAppend j)) = [j]"
| "held (BackingOff (ToSize j)) = [j]"
| "held (BackingOff (ToAppend j)) = [j]"
| "held _ = []"

fun in_flush :: "'u loop_pc \<Rightarrow> bool" where
  "in_flush (Calling _) = True"
| "in_flush (BackingOff _) = True"
| "in_flush _ = False"

lemma in_flush_resume [simp]: "\<not> in_flush (resume k)"
  by (cases k) auto

lemma held_resume [simp]: "held (resume k) = held (Calling k)" "held (BackingOff k) = held (Calling k)"
  by (cases k; simp)+

lemma resume_iff [simp]:
  "resume k = Draining \<longleftrightarrow> k = ToDrain" "resume k = Select \<longleftrightarrow> k = ToSelect"
  "resume k = AtSize j \<longleftrightarrow> k = ToSize j" "resume k = AtAppend j \<longleftrightarrow> k = ToAppend j"
  "resume k \<noteq> NotStarted" "resume k \<noteq> Exited" "resume k \<noteq> Calling k'"
  "resume k \<noteq> BackingOff k'"
  by (cases k; auto)+

lemma answer_all_eq:
  "answer_all ps s = s\<lparr>answers := \<lambda>i. answers s i @ map snd (filter (\<lambda>p. fst p = i) ps)\<rparr>"
  by (induction ps arbitrary: s) (simp_all add: answer_all_def answer_def fun_eq_iff)

text \<open>Every queued job is answered, or in the batch, or in the loop's hands, or queued, in this order.\<close>

definition inv_flow :: "('u, 'ts, 'as) bstate \<Rightarrow> bool" where
  "inv_flow s \<longleftrightarrow>
     accepted s = handled s @ batch s @ held (pc s) @ queue s \<and>
     (pc s \<in> {NotStarted, Draining, Exited} \<longrightarrow> batch s = []) \<and>
     (pc s \<in> {Draining, Exited, Calling ToDrain, BackingOff ToDrain} \<longrightarrow> stop s) \<and>
     (\<forall>n. settlers s n \<noteq> SettleIdle \<longrightarrow> pc s = Exited) \<and>
     (finished s \<longrightarrow> pc s = Exited) \<and>
     (in_flush (pc s) \<longrightarrow> batch s \<noteq> [])"

lemma inv_flow_submit: "submit_step P s t \<Longrightarrow> inv_flow s \<Longrightarrow> inv_flow t"
  by (erule submit_stepE) (auto simp: inv_flow_def)

lemma inv_flow_loop: "loop_step P s t \<Longrightarrow> inv_flow s \<Longrightarrow> inv_flow t"
  by (erule loop_stepE) (auto simp: inv_flow_def loop_defs answer_all_eq split: if_splits)

lemma inv_flow_close:
  assumes "close_step s t" and "inv_flow s"
  shows "inv_flow t"
  using assms(1)
proof cases
  case (settle_job n)
  then have "pc s = Exited" using assms(2) by (auto simp: inv_flow_def)
  with settle_job assms(2) show ?thesis by (simp add: inv_flow_def drain_one_def answer_def)
qed (use assms(2) in \<open>auto simp: inv_flow_def loop_defs split: if_splits\<close>)


lemma inv_flow_step: "batcher_step P s t \<Longrightarrow> inv_flow s \<Longrightarrow> inv_flow t"
  by (erule batcher_step_cases) (use inv_flow_submit inv_flow_loop inv_flow_close in blast)+

lemma inv_flow_reaches: "batcher_reaches P s \<Longrightarrow> inv_flow s"
proof (erule reachable_invariant)
  show "inv_flow NewBatcher" by (simp add: inv_flow_def NewBatcher_def)
qed (rule inv_flow_step)

text \<open>What TigerBeetle replied to is an ordered part of what was answered.\<close>

definition inv_sent :: "('u, 'ts, 'as) bstate \<Rightarrow> bool" where
  "inv_sent s \<longleftrightarrow> subseq (concat (map fst (sent s))) (handled s)"

lemma inv_sent_step: "batcher_step P s t \<Longrightarrow> inv_sent s \<Longrightarrow> inv_sent t"
proof (erule batcher_step_cases)
  show "submit_step P s t \<Longrightarrow> inv_sent s \<Longrightarrow> inv_sent t"
    by (erule submit_stepE) (auto simp: inv_sent_def)
  show "loop_step P s t \<Longrightarrow> inv_sent s \<Longrightarrow> inv_sent t"
    by (erule loop_stepE)
       (auto simp: inv_sent_def loop_defs answer_all_eq subseq_append_iff intro: list_emb_append_mono)
  show "close_step s t \<Longrightarrow> inv_sent s \<Longrightarrow> inv_sent t"
    by (erule close_stepE) (auto simp: inv_sent_def loop_defs)
qed

subsection \<open>Exactly one answer\<close>

fun queued :: "'u sub_pc \<Rightarrow> bool" where
  "queued Enqueued = True"
| "queued Returned = True"
| "queued Watching = True"
| "queued WatchFinished = True"
| "queued (Delivered _) = True"
| "queued _ = False"

definition inv_once :: "('u, 'ts, 'as) bstate \<Rightarrow> bool" where
  "inv_once s \<longleftrightarrow>
     distinct (map jid (accepted s)) \<and>
     (\<forall>i. i \<in> jid ` set (accepted s) \<longleftrightarrow> queued (subs s i)) \<and>
     (\<forall>i. length (answers s i) = count_list (map jid (handled s)) i) \<and>
     (finished s \<longrightarrow> (\<forall>j \<in> set (queue s). subs s (jid j) \<noteq> Returned))"


lemma assemble_length:
  "assemble clear es offs css = Inr (es', offs') \<Longrightarrow> length offs' = length offs + length css"
  by (induction css arbitrary: es offs) (auto simp: Let_def split: if_splits)

lemma request_of_offsets: "request_of op jobs = Inr (req, offs) \<Longrightarrow> length offs = length jobs"
  by (auto simp: request_of_def dest!: assemble_length split: if_splits sum.splits)

lemma count_answers:
  "length offs = length jobs \<Longrightarrow>
     length (filter ((\<lambda>p. fst p = i) \<circ> result_of P rep n) (zip jobs offs)) = count_list (map jid jobs) i"
  by (induction offs jobs rule: list_induct2) (auto simp: result_of_def)

lemma count_refused:
  "length (filter ((\<lambda>p. fst p = i) \<circ> (\<lambda>j. (jid j, r))) jobs) = count_list (map jid jobs) i"
  by (induction jobs) auto

lemma inv_once_submit:
  assumes "submit_step P s t" and "inv_flow s" and "inv_once s"
  shows "inv_once t"
  using assms(1)
proof cases
  case (enqueue i c j)
  have "i \<notin> jid ` set (accepted s)"
    using assms(3) enqueue by (auto simp: inv_once_def)
  with assms(3) enqueue show ?thesis
    by (auto simp: inv_once_def)
next
  case (return_done i)
  with assms(2,3) show ?thesis by (auto simp: inv_once_def inv_flow_def)
qed (use assms(3) in \<open>auto simp: inv_once_def split: if_splits\<close>)

lemma inv_once_loop:
  assumes "loop_step P s t" and "inv_flow s" and "inv_once s"
  shows "inv_once t"
  using assms(1)
proof cases
  case (call_reply k req offs rep)
  then show ?thesis using assms(3)
    by (auto simp: inv_once_def end_flush_def answer_all_eq count_answers request_of_offsets)
next
  case (call_stopped k)
  then show ?thesis using assms(3)
    by (auto simp: inv_once_def end_flush_def answer_all_eq count_refused)
qed (use assms(2,3) in \<open>auto simp: inv_once_def inv_flow_def loop_defs neq_Nil_conv split: if_splits\<close>)

lemma inv_once_close: "close_step s t \<Longrightarrow> inv_once s \<Longrightarrow> inv_once t"
  by (erule close_stepE) (auto simp: inv_once_def loop_defs neq_Nil_conv split: if_splits)


lemma inv_once_step: "batcher_step P s t \<Longrightarrow> inv_flow s \<Longrightarrow> inv_once s \<Longrightarrow> inv_once t"
  by (erule batcher_step_cases) (use inv_once_submit inv_once_loop inv_once_close in blast)+

lemma inv_once_reaches: "batcher_reaches P s \<Longrightarrow> inv_once s"
proof (erule reachable_invariant_with)
  show "inv_once NewBatcher" by (simp add: inv_once_def NewBatcher_def)
qed (use inv_once_step inv_flow_reaches in blast)

lemma inv_sent_reaches: "batcher_reaches P s \<Longrightarrow> inv_sent s"
proof (erule reachable_invariant)
  show "inv_sent NewBatcher" by (simp add: inv_sent_def NewBatcher_def)
qed (rule inv_sent_step)

lemma accepted_parts:
  assumes "inv_flow s" and "inv_once s"
  shows "distinct (map jid (handled s @ batch s @ held (pc s) @ queue s))"
    and "j \<in> set (batch s) \<Longrightarrow> jid j \<notin> jid ` set (handled s)"
    and "queue s \<noteq> [] \<Longrightarrow> jid (hd (queue s)) \<notin> jid ` set (handled s)"
proof -
  show *: "distinct (map jid (handled s @ batch s @ held (pc s) @ queue s))"
    using assms by (auto simp: inv_flow_def inv_once_def)
  show "j \<in> set (batch s) \<Longrightarrow> jid j \<notin> jid ` set (handled s)" using * by auto
  show "queue s \<noteq> [] \<Longrightarrow> jid (hd (queue s)) \<notin> jid ` set (handled s)"
    using * by (cases "queue s") auto
qed

lemma answers_unhandled: "inv_once s \<Longrightarrow> i \<notin> jid ` set (handled s) \<Longrightarrow> answers s i = []"
  by (metis count_list_0_iff image_set inv_once_def length_0_conv)

lemma answers_handled:
  assumes "inv_flow s" and "inv_once s" and "i \<in> jid ` set (handled s)"
  shows "\<exists>r. answers s i = [r]"
proof -
  have "distinct (map jid (handled s))" using accepted_parts(1) [OF assms(1,2)] by simp
  then have "count_list (map jid (handled s)) i = 1"
    using assms(3) by (simp add: count_list_distinct)
  then have "length (answers s i) = 1" using assms(2) by (simp add: inv_once_def)
  then show ?thesis by (cases "answers s i") auto
qed

subsection \<open>Whose answer it is\<close>

text \<open>
  Every job of a batch TigerBeetle replied to was answered from that reply, at the offset its
  events had in the request.
\<close>

definition answered_from ::
    "('ts, 'as) batcher_params \<Rightarrow> ('u, 'ts, 'as) bstate \<Rightarrow> 'u job list \<times> 'u request \<times> ('ts, 'as) reply \<Rightarrow> bool"
  where
  "answered_from P s = (\<lambda>(js, req, rep). \<exists>op offs.
     request_of op js = Inr (req, offs) \<and> reply_fits req rep \<and>
     (\<forall>(j, off) \<in> set (zip js offs). answers s (jid j) = [snd (result_of P rep (request_size req) (j, off))]))"

definition inv_replied :: "('ts, 'as) batcher_params \<Rightarrow> ('u, 'ts, 'as) bstate \<Rightarrow> bool" where
  "inv_replied P s \<longleftrightarrow> (\<forall>b \<in> set (sent s). answered_from P s b)"

lemma answered_from_mono:
  assumes "answered_from P s b" and "\<And>j. j \<in> set (fst b) \<Longrightarrow> answers t (jid j) = answers s (jid j)"
  shows "answered_from P t b"
  using assms by (cases b) (fastforce simp: answered_from_def dest: set_zip_leftD)

lemma sent_handled: "inv_sent s \<Longrightarrow> b \<in> set (sent s) \<Longrightarrow> set (fst b) \<subseteq> set (handled s)"
  by (force simp: inv_sent_def dest: list_emb_set)

lemma answers_stable:
  assumes "batcher_step P s t" and "inv_flow s" and "inv_once s" and "i \<in> jid ` set (handled s)"
  shows "answers t i = answers s i"
proof -
  have batch: "\<forall>j \<in> set (batch s). jid j \<noteq> i"
    using accepted_parts(2) [OF assms(2,3)] assms(4) by blast
  have head: "jid (hd (queue s)) \<noteq> i" if "queue s \<noteq> []"
    using accepted_parts(3) [OF assms(2,3) that] assms(4) by blast
  show ?thesis
  proof (rule batcher_step_cases [OF assms(1)])
    show "submit_step P s t \<Longrightarrow> ?thesis" by (erule submit_stepE) auto
    show "close_step s t \<Longrightarrow> ?thesis"
      using head by (erule_tac close_stepE) (auto simp: drain_one_def answer_def)
    show "loop_step P s t \<Longrightarrow> ?thesis"
      using batch head
      by (erule_tac loop_stepE)
         (auto simp: loop_defs answer_all_eq filter_empty_conv result_of_def dest: set_zip_leftD split: if_splits)
  qed
qed


lemma loop_sent:
  assumes "loop_step P s t" and "inv_flow t" and "inv_once t"
  shows "sent t = sent s \<or> (\<exists>b. sent t = sent s @ [b] \<and> answered_from P t b)"
  using assms(1)
proof cases
  case (call_reply k req offs rep)
  have "answers t (jid j) = [snd (result_of P rep (request_size req) (j, off))]"
    if jo: "(j, off) \<in> set (zip (batch s) offs)" for j off
  proof -
    have "snd (result_of P rep (request_size req) (j, off)) \<in> set (answers t (jid j))"
      using jo call_reply(1) by (force simp: end_flush_def answer_all_eq result_of_def)
    moreover have "\<exists>r. answers t (jid j) = [r]"
      using jo call_reply(1)
      by (intro answers_handled [OF assms(2,3)]) (auto simp: end_flush_def answer_all_eq dest: set_zip_leftD)
    ultimately show ?thesis by auto
  qed
  then have "answered_from P t (batch s, req, rep)"
    using call_reply by (fastforce simp: answered_from_def)
  then show ?thesis using call_reply by (simp add: end_flush_def answer_all_eq)
qed (simp_all add: loop_defs answer_all_eq)

lemma step_sent:
  assumes "batcher_step P s t" and "inv_flow t" and "inv_once t"
  shows "sent t = sent s \<or> (\<exists>b. sent t = sent s @ [b] \<and> answered_from P t b)"
proof (rule batcher_step_cases [OF assms(1)])
  show "submit_step P s t \<Longrightarrow> ?thesis" by (erule submit_stepE) simp_all
  show "close_step s t \<Longrightarrow> ?thesis" by (erule close_stepE) (simp_all add: loop_defs)
qed (rule loop_sent [OF _ assms(2,3)])

lemma inv_replied_step:
  assumes step: "batcher_step P s t" and s: "inv_flow s" "inv_once s" "inv_sent s" and r: "inv_replied P s"
  shows "inv_replied P t"
proof -
  have "answered_from P t b" if b: "b \<in> set (sent s)" for b
  proof (rule answered_from_mono [of P s])
    show "answered_from P s b" using r b by (auto simp: inv_replied_def)
    show "j \<in> set (fst b) \<Longrightarrow> answers t (jid j) = answers s (jid j)" for j
      using answers_stable [OF step s(1,2), of "jid j"] sent_handled [OF s(3) b] by auto
  qed
  moreover note step_sent [OF step inv_flow_step [OF step s(1)] inv_once_step [OF step s(1,2)]]
  ultimately show ?thesis by (auto simp: inv_replied_def)
qed

lemma inv_replied_reaches: "batcher_reaches P s \<Longrightarrow> inv_replied P s"
proof (erule reachable_invariant_with)
  show "inv_replied P NewBatcher" by (simp add: inv_replied_def NewBatcher_def)
qed (use inv_replied_step inv_flow_reaches inv_once_reaches inv_sent_reaches in blast)

text \<open>
  A submitter that was told something was told the job's own answer; only a late watcher may
  say \<^verbatim>\<open>ErrClosed\<close> without one, and then the loop has exited and the job was never replied to.
\<close>

definition inv_told :: "('u, 'ts, 'as) bstate \<Rightarrow> bool" where
  "inv_told s \<longleftrightarrow>
     (\<forall>i. subs s i = WatchFinished \<longrightarrow> finished s) \<and>
     (\<forall>i r. subs s i = Delivered r \<longrightarrow>
        answers s i = [r] \<or>
        r = Inl ErrClosed \<and> finished s \<and> i \<notin> jid ` set (concat (map fst (sent s))))"


lemma finished_sent: "batcher_step P s t \<Longrightarrow> inv_flow s \<Longrightarrow> finished s \<Longrightarrow> finished t \<and> sent t = sent s"
proof (erule batcher_step_cases)
  assume s: "inv_flow s" "finished s"
  then have "pc s = Exited" by (simp add: inv_flow_def)
  then show "loop_step P s t \<Longrightarrow> finished t \<and> sent t = sent s" by (auto elim: loop_stepE)
  show "submit_step P s t \<Longrightarrow> finished t \<and> sent t = sent s"
    using s by (erule_tac submit_stepE) auto
  show "close_step s t \<Longrightarrow> finished t \<and> sent t = sent s"
    using s by (erule_tac close_stepE) (auto simp: loop_defs)
qed

lemma told_subs:
  assumes "batcher_step P s t" and "inv_flow s" and "inv_once s" and "inv_sent s" and "inv_told s"
    and "subs t i \<noteq> subs s i"
  shows "(subs t i = WatchFinished \<longrightarrow> finished t) \<and>
     (\<forall>r. subs t i = Delivered r \<longrightarrow> answers t i = [r] \<or>
        r = Inl ErrClosed \<and> finished t \<and> i \<notin> jid ` set (concat (map fst (sent t))))"
proof -
  have sub: "submit_step P s t"
  proof (rule batcher_step_cases [OF assms(1)])
    show "loop_step P s t \<Longrightarrow> ?thesis"
      using assms(6) by (erule_tac loop_stepE) (auto simp: loop_defs answer_all_eq split: if_splits)
    show "close_step s t \<Longrightarrow> ?thesis"
      using assms(6) by (erule_tac close_stepE) (auto simp: loop_defs)
  qed
  have one: "answers s i = [r]" if "answers s i = r # rs" for r rs
    using answers_unhandled [OF assms(3), of i] answers_handled [OF assms(2,3), of i] that by force
  have none: "i \<notin> jid ` set (concat (map fst (sent s)))" if "answers s i = []"
  proof
    assume "i \<in> jid ` set (concat (map fst (sent s)))"
    then have "i \<in> jid ` set (handled s)" using sent_handled [OF assms(4)] by fastforce
    with answers_handled [OF assms(2,3)] that show False by fastforce
  qed
  show ?thesis using sub
  proof cases
    case (watch_outcome k r rs)
    then show ?thesis using assms(6) one by (auto split: if_splits)
  next
    case (late_outcome k r rs)
    then show ?thesis using assms(6) one by (auto split: if_splits)
  next
    case (late_closed k)
    then show ?thesis using assms(5,6) none by (auto simp: inv_told_def split: if_splits)
  qed (use assms(6) in \<open>auto split: if_splits\<close>)
qed

lemma inv_told_step:
  assumes "batcher_step P s t" and "inv_flow s" and "inv_once s" and "inv_sent s" and "inv_told s"
  shows "inv_told t"
proof -
  have "(subs t i = WatchFinished \<longrightarrow> finished t) \<and>
     (\<forall>r. subs t i = Delivered r \<longrightarrow> answers t i = [r] \<or>
        r = Inl ErrClosed \<and> finished t \<and> i \<notin> jid ` set (concat (map fst (sent t))))" for i
  proof (cases "subs t i = subs s i")
    case True
    have fin: "finished s \<Longrightarrow> finished t \<and> sent t = sent s"
      using finished_sent [OF assms(1,2)] .
    have "answers s i = [r] \<Longrightarrow> answers t i = [r]" for r
      using answers_stable [OF assms(1-3)] answers_unhandled [OF assms(3)] by (metis list.simps(3))
    with True fin assms(5) show ?thesis unfolding inv_told_def by metis
  qed (rule told_subs [OF assms])
  then show ?thesis by (auto simp: inv_told_def)
qed

lemma inv_told_reaches: "batcher_reaches P s \<Longrightarrow> inv_told s"
proof (erule reachable_invariant_with)
  show "inv_told NewBatcher" by (simp add: inv_told_def NewBatcher_def)
qed (use inv_told_step inv_flow_reaches inv_once_reaches inv_sent_reaches in blast)


subsection \<open>What goes into a batch\<close>

definition job_ok :: "('ts, 'as) batcher_params \<Rightarrow> 'u command \<Rightarrow> bool" where
  "job_ok P c \<longleftrightarrow> 0 < Len c \<and> int (Len c) \<le> B_MaxBatchSize (b_cfg P)"

definition inv_jobs :: "('ts, 'as) batcher_params \<Rightarrow> ('u, 'ts, 'as) bstate \<Rightarrow> bool" where
  "inv_jobs P s \<longleftrightarrow>
     (\<forall>i c. subs s i = Entered c \<or> subs s i = Enqueuing c \<longrightarrow> job_ok P c) \<and>
     (\<forall>j \<in> set (accepted s). job_ok P (cmd j))"

lemma inv_jobs_step: "batcher_step P s t \<Longrightarrow> inv_jobs P s \<Longrightarrow> inv_jobs P t"
proof (erule batcher_step_cases)
  show "submit_step P s t \<Longrightarrow> inv_jobs P s \<Longrightarrow> inv_jobs P t"
    by (erule submit_stepE) (auto simp: inv_jobs_def job_ok_def split: if_splits)
  show "loop_step P s t \<Longrightarrow> inv_jobs P s \<Longrightarrow> inv_jobs P t"
    by (erule loop_stepE) (auto simp: inv_jobs_def loop_defs answer_all_eq)
  show "close_step s t \<Longrightarrow> inv_jobs P s \<Longrightarrow> inv_jobs P t"
    by (erule close_stepE) (auto simp: inv_jobs_def loop_defs)
qed

lemma inv_jobs_reaches: "batcher_reaches P s \<Longrightarrow> inv_jobs P s"
proof (erule reachable_invariant)
  show "inv_jobs P NewBatcher" by (simp add: inv_jobs_def NewBatcher_def)
qed (rule inv_jobs_step)

text \<open>
  The run is of one operation and within the limit; while it is non-empty and the loop waits,
  the linger timer is armed, and the timer is never armed on an empty run.
\<close>

definition same_run :: "('u, 'ts, 'as) bstate \<Rightarrow> 'u job \<Rightarrow> bool" where
  "same_run s j \<longleftrightarrow> batch s = [] \<or> Op (cmd j) = run_op s"

definition inv_batch :: "('ts, 'as) batcher_params \<Rightarrow> ('u, 'ts, 'as) bstate \<Rightarrow> bool" where
  "inv_batch P s \<longleftrightarrow>
     (\<forall>j \<in> set (batch s). Op (cmd j) = run_op s) \<and>
     size s = sum_list (map (\<lambda>j. Len (cmd j)) (batch s)) \<and>
     (batch s \<noteq> [] \<longrightarrow> int (size s) \<le> B_MaxBatchSize (b_cfg P)) \<and>
     (\<forall>j. pc s = AtSize j \<longrightarrow> same_run s j) \<and>
     (\<forall>j. pc s = AtAppend j \<longrightarrow> same_run s j \<and> int (size s + Len (cmd j)) \<le> B_MaxBatchSize (b_cfg P)) \<and>
     (pc s = Select \<and> batch s \<noteq> [] \<longrightarrow> timer s \<and> int (size s) < B_MaxBatchSize (b_cfg P)) \<and>
     (timer s \<longrightarrow> batch s \<noteq> [] \<and> \<not> in_flush (pc s))"

lemma inv_batch_submit: "submit_step P s t \<Longrightarrow> inv_batch P s \<Longrightarrow> inv_batch P t"
  by (erule submit_stepE) (auto simp: inv_batch_def same_run_def)

lemma inv_batch_close: "close_step s t \<Longrightarrow> inv_batch P s \<Longrightarrow> inv_batch P t"
  by (erule close_stepE) (auto simp: inv_batch_def same_run_def loop_defs)

lemma held_ok:
  "inv_flow s \<Longrightarrow> inv_jobs P s \<Longrightarrow> j \<in> set (held (pc s)) \<Longrightarrow> job_ok P (cmd j)"
  by (auto simp: inv_flow_def inv_jobs_def)

lemma inv_batch_loop:
  assumes "loop_step P s t" and "inv_flow s" and "inv_jobs P s" and "inv_batch P s"
  shows "inv_batch P t"
  using assms(1)
proof cases
  case (size_test j)
  then have "job_ok P (cmd j)" using held_ok [OF assms(2,3), of j] by simp
  with size_test assms(4) show ?thesis
    by (auto simp: inv_batch_def same_run_def job_ok_def loop_defs)
next
  case (call_reply k req offs rep)
  with assms(2-4) show ?thesis
    using held_ok [OF assms(2,3)]
    by (auto simp: inv_batch_def same_run_def job_ok_def end_flush_def answer_all_eq)
next
  case (call_stopped k)
  with assms(2-4) show ?thesis
    using held_ok [OF assms(2,3)]
    by (auto simp: inv_batch_def same_run_def job_ok_def end_flush_def answer_all_eq)
qed (use assms(2,4) in \<open>auto simp: inv_batch_def inv_flow_def same_run_def loop_defs split: if_splits\<close>)

lemma inv_batch_reaches: "batcher_reaches P s \<Longrightarrow> inv_batch P s"
proof (erule reachable_invariant_with)
  show "inv_batch P NewBatcher" by (simp add: inv_batch_def NewBatcher_def)
  show "inv_batch P t" if "batcher_reaches P s" and "inv_batch P s" and "batcher_step P s t" for s t
    using that(3) by (rule batcher_step_cases)
      (use that(2) inv_batch_submit inv_batch_close
           inv_batch_loop [OF _ inv_flow_reaches [OF that(1)] inv_jobs_reaches [OF that(1)]] in blast)+
qed

subsection \<open>The request\<close>

definition clear_last :: "('e \<Rightarrow> 'e) \<Rightarrow> 'e list \<Rightarrow> 'e list" where
  "clear_last clear es = butlast es @ [clear (last es)]"

definition offsets_of :: "nat \<Rightarrow> 'e list list \<Rightarrow> nat list" where
  "offsets_of n css = map (\<lambda>k. n + sum_list (map length (take k css))) [0..<length css]"

lemma offsets_of_Cons: "offsets_of n (es # css) = n # offsets_of (n + length es) css"
  by (auto simp: offsets_of_def upt_conv_Cons add.assoc simp del: upt_Suc
           simp flip: map_Suc_upt)

lemma assemble_eq:
  "(\<And>es. es \<in> set css \<Longrightarrow> es \<noteq> []) \<Longrightarrow>
     assemble clear events offs css =
       Inr (events @ concat (map (clear_last clear) css), offs @ offsets_of (length events) css)"
proof (induction css arbitrary: events offs)
  case Nil
  then show ?case by (simp add: offsets_of_def)
next
  case (Cons es css)
  then have "es \<noteq> []" by simp
  with Cons show ?case
    by (simp add: Let_def butlast_append clear_last_def offsets_of_Cons)
qed


lemma length_clear_last [simp]: "es \<noteq> [] \<Longrightarrow> length (clear_last clear es) = length es"
  by (simp add: clear_last_def)

lemma nth_clear_last:
  "i < length es \<Longrightarrow> clear_last clear es ! i = (if Suc i = length es then clear (es ! i) else es ! i)"
  by (cases es rule: rev_cases) (auto simp: clear_last_def nth_append)

text \<open>The events of one job as they are sent, and the request of a run.\<close>

definition transfers_of :: "'u job \<Rightarrow> 'u transfer list" where
  "transfers_of j = clear_last clear_linked_transfer (Transfers (cmd j))"

definition accounts_of :: "'u job \<Rightarrow> 'u account list" where
  "accounts_of j = clear_last clear_linked_account (Accounts (cmd j))"

definition offset_of :: "'u job list \<Rightarrow> nat \<Rightarrow> nat" where
  "offset_of js k = sum_list (map (\<lambda>j. Len (cmd j)) (take k js))"

definition run_of :: "op \<Rightarrow> 'u job list \<Rightarrow> bool" where
  "run_of op js \<longleftrightarrow> (\<forall>j \<in> set js. Op (cmd j) = op \<and> 0 < Len (cmd j))"

lemma request_of_run:
  assumes "run_of op js"
  shows "request_of op js =
    Inr (if op = OpCreateAccounts then AccountsReq (concat (map accounts_of js))
         else TransfersReq (concat (map transfers_of js)), map (offset_of js) [0..<length js])"
proof (cases "op = OpCreateAccounts")
  case True
  with assms have len: "\<And>j. j \<in> set js \<Longrightarrow> Len (cmd j) = length (Accounts (cmd j)) \<and> Accounts (cmd j) \<noteq> []"
    by (auto simp: run_of_def Len_def)
  have "offset_of js k = sum_list (map length (take k (map (\<lambda>j. Accounts (cmd j)) js)))" for k
    using len by (auto simp: offset_of_def take_map o_def dest!: in_set_takeD intro!: arg_cong [where f = sum_list])
  with True len show ?thesis
    by (subst request_of_def, subst assemble_eq)
       (auto simp: offsets_of_def accounts_of_def [abs_def] o_def)
next
  case False
  with assms have len: "\<And>j. j \<in> set js \<Longrightarrow> Len (cmd j) = length (Transfers (cmd j)) \<and> Transfers (cmd j) \<noteq> []"
    by (auto simp: run_of_def Len_def)
  have "offset_of js k = sum_list (map length (take k (map (\<lambda>j. Transfers (cmd j)) js)))" for k
    using len by (auto simp: offset_of_def take_map o_def dest!: in_set_takeD intro!: arg_cong [where f = sum_list])
  with False len show ?thesis
    by (subst request_of_def, subst (2) assemble_eq)
       (auto simp: offsets_of_def transfers_of_def [abs_def] o_def)
qed

definition sent_ok :: "('ts, 'as) batcher_params \<Rightarrow> 'u job list \<times> 'u request \<times> ('ts, 'as) reply \<Rightarrow> bool" where
  "sent_ok P = (\<lambda>(js, req, rep). js \<noteq> [] \<and>
     (\<exists>op. run_of op js \<and> fst (projr (request_of op js)) = req) \<and>
     int (sum_list (map (\<lambda>j. Len (cmd j)) js)) \<le> B_MaxBatchSize (b_cfg P))"

lemma sent_ok_step:
  assumes "batcher_step P s t" and "inv_flow s" and "inv_jobs P s" and "inv_batch P s"
    and "\<forall>b \<in> set (sent s). sent_ok P b"
  shows "\<forall>b \<in> set (sent t). sent_ok P b"
proof (rule batcher_step_cases [OF assms(1)])
  show "submit_step P s t \<Longrightarrow> ?thesis" using assms(5) by (erule_tac submit_stepE) auto
  show "close_step s t \<Longrightarrow> ?thesis" using assms(5) by (erule_tac close_stepE) (auto simp: loop_defs)
  show "loop_step P s t \<Longrightarrow> ?thesis"
  proof (erule loop_stepE)
    fix k req offs rep
    assume *: "pc s = Calling k" "request_of (run_op s) (batch s) = Inr (req, offs)"
      "t = end_flush k (answer_all (map (result_of P rep (request_size req)) (zip (batch s) offs))
             (s\<lparr>sent := sent s @ [(batch s, req, rep)]\<rparr>))"
    have "run_of (run_op s) (batch s)"
      using assms(2-4) by (auto simp: run_of_def inv_flow_def inv_jobs_def inv_batch_def job_ok_def)
    then have "sent_ok P (batch s, req, rep)"
      using assms(2,4) * by (auto simp: sent_ok_def inv_flow_def inv_batch_def)
    with assms(5) * show ?thesis by (simp add: end_flush_def answer_all_eq)
  qed (use assms(5) in \<open>auto simp: loop_defs answer_all_eq\<close>)
qed

lemma sent_ok_reaches: "batcher_reaches P s \<Longrightarrow> \<forall>b \<in> set (sent s). sent_ok P b"
proof (erule reachable_invariant_with)
  show "\<forall>b \<in> set (sent NewBatcher). sent_ok P b" by (simp add: NewBatcher_def)
qed (use sent_ok_step inv_flow_reaches inv_jobs_reaches inv_batch_reaches in blast)


lemma request_of_same:
  "request_of op js = Inr (req, offs) \<Longrightarrow> request_of op' js = Inr (req, offs') \<Longrightarrow> offs = offs'"
  by (auto simp: request_of_def split: if_splits sum.splits)

lemma replied_answer:
  assumes "batcher_reaches P s" and "(js, req, rep) \<in> set (sent s)" and "k < length js"
  obtains op where "run_of op js" "reply_fits req rep"
    "req = (if op = OpCreateAccounts then AccountsReq (concat (map accounts_of js))
            else TransfersReq (concat (map transfers_of js)))"
    "answers s (jid (js ! k)) = [snd (result_of P rep (request_size req) (js ! k, offset_of js k))]"
proof -
  obtain op where op: "run_of op js" "fst (projr (request_of op js)) = req"
    using sent_ok_reaches [OF assms(1)] assms(2) by (auto simp: sent_ok_def)
  obtain op' offs where ans: "request_of op' js = Inr (req, offs)" "reply_fits req rep"
      "\<forall>(j, off) \<in> set (zip js offs). answers s (jid j) = [snd (result_of P rep (request_size req) (j, off))]"
    using inv_replied_reaches [OF assms(1)] assms(2) by (fastforce simp: inv_replied_def answered_from_def)
  note req = request_of_run [OF op(1)]
  have "request_of op js = Inr (req, map (offset_of js) [0..<length js])"
    using op(2) req by simp
  then have offs: "offs = map (offset_of js) [0..<length js]"
    using ans(1) request_of_same by blast
  have "(js ! k, offset_of js k) \<in> set (zip js offs)"
    using assms(3) offs by (force simp: set_zip)
  with ans(3) have "answers s (jid (js ! k)) = [snd (result_of P rep (request_size req) (js ! k, offset_of js k))]"
    by blast
  with op req ans(2) show ?thesis by (intro that) auto
qed

lemma sum_take_map: "sum_list (map length (take k (map f js))) = sum_list (map (length \<circ> f) (take k js))"
  by (simp add: take_map)

lemma offset_of_block:
  assumes "\<And>j. j \<in> set js \<Longrightarrow> length (f j) = Len (cmd j)" and "k < length js"
  shows "offset_of js k = sum_list (map length (take k (map f js)))"
    and "offset_of js k + Len (cmd (js ! k)) \<le> length (concat (map f js))"
    and "i < Len (cmd (js ! k)) \<Longrightarrow> concat (map f js) ! (offset_of js k + i) = f (js ! k) ! i"
proof -
  show *: "offset_of js k = sum_list (map length (take k (map f js)))"
    using assms(1) by (auto simp: offset_of_def take_map dest!: in_set_takeD intro!: arg_cong [where f = sum_list])
  show "offset_of js k + Len (cmd (js ! k)) \<le> length (concat (map f js))"
    using length_concat_block [of k "map f js"] assms * by simp
  show "i < Len (cmd (js ! k)) \<Longrightarrow> concat (map f js) ! (offset_of js k + i) = f (js ! k) ! i"
    using concat_nth_block [of k "map f js" i] assms * by simp
qed

lemma block_lengths:
  "run_of OpCreateAccounts js \<Longrightarrow> j \<in> set js \<Longrightarrow> length (accounts_of j) = Len (cmd j)"
  "run_of op js \<Longrightarrow> op \<noteq> OpCreateAccounts \<Longrightarrow> j \<in> set js \<Longrightarrow> length (transfers_of j) = Len (cmd j)"
  by (auto simp: run_of_def Len_def accounts_of_def transfers_of_def)

lemma nth_events_of:
  "i < length (Accounts (cmd j)) \<Longrightarrow> accounts_of j ! i =
     (if Suc i = length (Accounts (cmd j)) then clear_linked_account (Accounts (cmd j) ! i) else Accounts (cmd j) ! i)"
  "i < length (Transfers (cmd j)) \<Longrightarrow> transfers_of j ! i =
     (if Suc i = length (Transfers (cmd j)) then clear_linked_transfer (Transfers (cmd j) ! i)
      else Transfers (cmd j) ! i)"
  by (simp_all add: accounts_of_def transfers_of_def nth_clear_last)

text \<open>
  C2: every job of a batch that TigerBeetle replied to with as many results as it was sent
  events is answered exactly once, with one outcome per event, each read from the position
  its own event had in the request; the request holds the job's own events there, with only
  the linked flag of the job's last event cleared, so no chain stays open between commands.
\<close>

theorem batcher_answers_own_events:
  assumes "batcher_reaches P s" and "(js, req, rep) \<in> set (sent s)" and "k < length js"
    and "ids_match (cmd (js ! k))"
  shows "case (req, rep) of
      (TransfersReq es, TransfersReply rs) \<Rightarrow> length rs = length es \<longrightarrow>
        answers s (jid (js ! k)) =
          [Inr (map (\<lambda>i. outcome_of (transfer_api P) ''Transfer'' (cmd (js ! k)) i (rs ! (offset_of js k + i)))
             [0..<Len (cmd (js ! k))])] \<and>
        (\<forall>i < Len (cmd (js ! k)). es ! (offset_of js k + i) =
           (if Suc i = Len (cmd (js ! k)) then clear_linked_transfer (Transfers (cmd (js ! k)) ! i)
            else Transfers (cmd (js ! k)) ! i))
    | (AccountsReq es, AccountsReply rs) \<Rightarrow> length rs = length es \<longrightarrow>
        answers s (jid (js ! k)) =
          [Inr (map (\<lambda>i. outcome_of (account_api P) ''Account'' (cmd (js ! k)) i (rs ! (offset_of js k + i)))
             [0..<Len (cmd (js ! k))])] \<and>
        (\<forall>i < Len (cmd (js ! k)). es ! (offset_of js k + i) =
           (if Suc i = Len (cmd (js ! k)) then clear_linked_account (Accounts (cmd (js ! k)) ! i)
            else Accounts (cmd (js ! k)) ! i))
    | _ \<Rightarrow> False"
proof -
  obtain op where op: "run_of op js" "reply_fits req rep"
    "req = (if op = OpCreateAccounts then AccountsReq (concat (map accounts_of js))
            else TransfersReq (concat (map transfers_of js)))"
    "answers s (jid (js ! k)) = [snd (result_of P rep (request_size req) (js ! k, offset_of js k))]"
    using replied_answer [OF assms(1-3)] .
  note run = op(1) [unfolded run_of_def, rule_format, OF nth_mem [OF assms(3)]]
  show ?thesis
  proof (cases "op = OpCreateAccounts")
    case True
    then obtain rs where rep: "rep = AccountsReply rs" using op(2,3) by (cases rep) auto
    note block = offset_of_block [OF block_lengths(1) assms(3), OF op(1) [unfolded True]]
    have "Len (cmd (js ! k)) = length (Accounts (cmd (js ! k)))" using run True by (simp add: Len_def)
    then show ?thesis
      using True op(3,4) rep block(3) account_results.window [OF assms(4) _ block(2), of rs]
      by (auto simp: result_of_def nth_events_of simp del: length_concat)
  next
    case False
    then obtain rs where rep: "rep = TransfersReply rs" using op(2,3) by (cases rep) auto
    note block = offset_of_block [OF block_lengths(2) assms(3), OF op(1) False]
    have "Len (cmd (js ! k)) = length (Transfers (cmd (js ! k)))" using run False by (simp add: Len_def)
    then show ?thesis
      using False op(3,4) rep block(3) transfer_results.window [OF assms(4) _ block(2), of rs]
      by (auto simp: result_of_def nth_events_of simp del: length_concat)
  qed
qed


subsection \<open>Shutdown ends when the client calls do\<close>













subsection \<open>Properties\<close>

text \<open>
  C3: no channel ever gets a second result, and none gets one for a command that was never queued;
  and when \<^verbatim>\<open>finished\<close> is closed each job whose channel was handed straight to its submitter,
  which is every command queued before its submitter could see the shutdown, has its one result.
\<close>

theorem batcher_answers_exactly_once:
  assumes "batcher_reaches P s"
  shows "length (answers s i) \<le> 1 \<and>
         (answers s i \<noteq> [] \<longrightarrow> queued (subs s i)) \<and>
         (finished s \<and> subs s i = Returned \<longrightarrow> (\<exists>r. answers s i = [r]))"
proof -
  note inv = inv_flow_reaches [OF assms] inv_once_reaches [OF assms]
  have le: "length (answers s i) \<le> 1 \<and> (answers s i \<noteq> [] \<longrightarrow> i \<in> jid ` set (handled s))"
  proof (cases "i \<in> jid ` set (handled s)")
    case True
    then obtain r where "answers s i = [r]" using answers_handled [OF inv] by blast
    with True show ?thesis by simp
  next
    case False
    then show ?thesis using answers_unhandled [OF inv(2)] by simp
  qed
  moreover have "queued (subs s i)" if "i \<in> jid ` set (handled s)"
  proof -
    have "i \<in> jid ` set (accepted s)" using inv(1) that unfolding inv_flow_def by auto
    with inv(2) show ?thesis unfolding inv_once_def by blast
  qed
  moreover have "\<exists>r. answers s i = [r]" if f: "finished s" "subs s i = Returned"
  proof -
    have "queued (subs s i)" using f(2) by simp
    then have "i \<in> jid ` set (accepted s)" using inv(2) unfolding inv_once_def by blast
    moreover have "accepted s = handled s @ queue s" using inv(1) f(1) by (simp add: inv_flow_def)
    moreover have "i \<notin> jid ` set (queue s)" using inv(2) f unfolding inv_once_def by blast
    ultimately have "i \<in> jid ` set (handled s)" by auto
    then show ?thesis by (rule answers_handled [OF inv])
  qed
  ultimately show ?thesis by blast
qed

text \<open>
  C4: application order is submission order: the jobs TigerBeetle replied to, batch after
  batch, form a subsequence of the jobs in the order they were queued, each at most once,
  and the next ones are exactly the run, the job in the loop's hands and the queue, in order.
\<close>

theorem batcher_keeps_order:
  assumes "batcher_reaches P s"
  shows "subseq (concat (map fst (sent s)) @ batch s @ held (pc s) @ queue s) (accepted s) \<and>
         distinct (map jid (accepted s))"
proof -
  note inv = inv_flow_reaches [OF assms] inv_once_reaches [OF assms] inv_sent_reaches [OF assms]
  then have "subseq (concat (map fst (sent s)) @ batch s @ held (pc s) @ queue s) (accepted s)"
    unfolding inv_flow_def inv_sent_def by (metis list_emb_append_mono subseq_order.refl)
  with inv(2) show ?thesis by (simp add: inv_once_def)
qed

text \<open>
  C21: each request TigerBeetle replied to is non-empty, of one operation, within
  \<^verbatim>\<open>max_batch_size\<close>, and is the concatenation of its jobs' events; and a run that waits in the
  loop is below the limit with its linger timer armed.
\<close>

theorem batcher_batches_well_formed:
  assumes "batcher_reaches P s"
  shows "(\<forall>(js, req, rep) \<in> set (sent s). js \<noteq> [] \<and>
            (\<exists>op. run_of op js \<and>
               req = (if op = OpCreateAccounts then AccountsReq (concat (map accounts_of js))
                      else TransfersReq (concat (map transfers_of js)))) \<and>
            int (request_size req) \<le> B_MaxBatchSize (b_cfg P)) \<and>
         (pc s = Select \<and> batch s \<noteq> [] \<longrightarrow> timer s \<and> int (size s) < B_MaxBatchSize (b_cfg P)) \<and>
         (timer s \<longrightarrow> batch s \<noteq> [])"
proof -
  have size: "request_size req = sum_list (map (\<lambda>j. Len (cmd j)) js)"
    if "run_of op js" and "req = (if op = OpCreateAccounts then AccountsReq (concat (map accounts_of js))
                      else TransfersReq (concat (map transfers_of js)))" for op js and req :: "'a request"
    using that block_lengths
    by (auto simp: length_concat o_def intro!: arg_cong [where f = sum_list])
  have "js \<noteq> [] \<and> (\<exists>op. run_of op js \<and>
               req = (if op = OpCreateAccounts then AccountsReq (concat (map accounts_of js))
                      else TransfersReq (concat (map transfers_of js)))) \<and>
            int (request_size req) \<le> B_MaxBatchSize (b_cfg P)"
    if b: "(js, req, rep) \<in> set (sent s)" for js req rep
  proof -
    have ok: "sent_ok P (js, req, rep)" using sent_ok_reaches [OF assms] b by blast
    then obtain op where op: "run_of op js" "fst (projr (request_of op js)) = req"
      by (auto simp: sent_ok_def)
    then have "req = (if op = OpCreateAccounts then AccountsReq (concat (map accounts_of js))
                      else TransfersReq (concat (map transfers_of js)))"
      using request_of_run by force
    with op(1) size ok show ?thesis by (auto simp: sent_ok_def)
  qed
  moreover note inv_batch_reaches [OF assms]
  ultimately show ?thesis unfolding inv_batch_def by blast
qed

text \<open>
  C22: a late submitter is told \<^verbatim>\<open>ErrClosed\<close> only about work that was not replied to: what a
  watcher delivers is the job's own answer, or \<^verbatim>\<open>ErrClosed\<close> after \<^verbatim>\<open>finished\<close> for a job that is
  in no batch TigerBeetle replied to; and an answer \<^verbatim>\<open>ErrClosed\<close> is never given for such a batch.
\<close>

theorem batcher_closed_is_truthful:
  assumes "batcher_reaches P s"
  shows "(subs s i = Delivered r \<longrightarrow> answers s i = [r] \<or>
            r = Inl ErrClosed \<and> finished s \<and> i \<notin> jid ` set (concat (map fst (sent s)))) \<and>
         (Inl ErrClosed \<in> set (answers s i) \<longrightarrow> i \<notin> jid ` set (concat (map fst (sent s))))"
proof -
  have "Inl ErrClosed \<notin> set (answers s (jid j))" if b: "(js, req, rep) \<in> set (sent s)" and "j \<in> set js"
    for js req rep j
  proof -
    obtain k where "k < length js" "js ! k = j" using \<open>j \<in> set js\<close> by (auto simp: in_set_conv_nth)
    moreover from this obtain off where
      "answers s (jid j) = [snd (result_of P rep (request_size req) (j, off))]"
      using replied_answer [OF assms b] by metis
    ultimately show ?thesis by (simp add: result_of_def split: sum.splits)
  qed
  then have "i \<notin> jid ` set (concat (map fst (sent s)))" if "Inl ErrClosed \<in> set (answers s i)"
    using that by fastforce
  moreover note inv_told_reaches [OF assms]
  ultimately show ?thesis unfolding inv_told_def by blast
qed

subsection \<open>An executable scheduler\<close>

text \<open>
  The step relation with its choices made explicit: an action names the rule, and the
  goroutine or reply it is about. \<open>perform\<close> is the relation, so a schedule is a run.
\<close>

datatype ('u, 'ts, 'as) action =
    Submit nat "'u command"
  | Observe_open nat
  | Observe_stop nat
  | Cancel nat
  | Enqueue nat
  | Collect nat
  | Observe_finished nat
  | Begin
  | See_stop
  | Receive
  | Proceed
  | Tick
  | Reply "('ts, 'as) reply"
  | Fail
  | Try_again
  | Give_up
  | Drain
  | Stop
  | Settle nat
  | Settle_next nat

definition submit_action :: "('ts, 'as) batcher_params \<Rightarrow> 'u command \<Rightarrow> 'u sub_pc" where
  "submit_action P c =
     (if Len c = 0 then Refused ErrEmptyCommand
      else if int (Len c) > B_MaxBatchSize (b_cfg P) then Refused ErrCommandTooLarge
      else Entered c)"

abbreviation set_sub :: "nat \<Rightarrow> 'u sub_pc \<Rightarrow> ('u, 'ts, 'as) bstate \<Rightarrow> ('u, 'ts, 'as) bstate" where
  "set_sub i p s \<equiv> s\<lparr>subs := (subs s)(i := p)\<rparr>"

text \<open>The observation of an open or closed \<^verbatim>\<open>stop\<close>, by the submitter's position.\<close>

fun after_open :: "'u sub_pc \<Rightarrow> 'u sub_pc option" where
  "after_open (Entered c) = Some (Enqueuing c)"
| "after_open Enqueued = Some Returned"
| "after_open _ = None"

fun after_stop :: "'u sub_pc \<Rightarrow> 'u sub_pc option" where
  "after_stop (Entered c) = Some (Refused ErrClosed)"
| "after_stop (Enqueuing c) = Some (Refused ErrClosed)"
| "after_stop Enqueued = Some Watching"
| "after_stop _ = None"

definition enqueue_action :: "('ts, 'as) batcher_params \<Rightarrow> nat \<Rightarrow> ('u, 'ts, 'as) bstate \<Rightarrow> ('u, 'ts, 'as) bstate option" where
  "enqueue_action P i s =
     (case subs s i of
        Enqueuing c \<Rightarrow>
          if int (length (queue s)) < MaxQueue (b_cfg P)
          then Some (s\<lparr>subs := (subs s)(i := Enqueued), queue := queue s @ [\<lparr>jid = i, cmd = c\<rparr>],
                        accepted := accepted s @ [\<lparr>jid = i, cmd = c\<rparr>]\<rparr>)
          else None
      | _ \<Rightarrow> None)"

definition reply_action :: "('ts, 'as) batcher_params \<Rightarrow> ('ts, 'as) reply \<Rightarrow> ('u, 'ts, 'as) bstate \<Rightarrow> ('u, 'ts, 'as) bstate option" where
  "reply_action P rep s =
     (case (pc s, request_of (run_op s) (batch s)) of
        (Calling k, Inr (req, offs)) \<Rightarrow>
          if reply_fits req rep \<and> list_all (\<lambda>j. Len (cmd j) \<le> length (IDs (cmd j))) (batch s)
          then Some (end_flush k
                 (answer_all (map (result_of P rep (request_size req)) (zip (batch s) offs))
                   (s\<lparr>sent := sent s @ [(batch s, req, rep)]\<rparr>)))
          else None
      | _ \<Rightarrow> None)"

fun perform ::
    "('ts, 'as) batcher_params \<Rightarrow> ('u, 'ts, 'as) action \<Rightarrow> ('u, 'ts, 'as) bstate \<Rightarrow> ('u, 'ts, 'as) bstate option"
  where
  "perform P (Submit i c) s =
     (case subs s i of NotSubmitted \<Rightarrow> Some (set_sub i (submit_action P c) s) | _ \<Rightarrow> None)"
| "perform P (Observe_open i) s =
     (if stop s then None else map_option (\<lambda>p. set_sub i p s) (after_open (subs s i)))"
| "perform P (Observe_stop i) s =
     (if stop s then map_option (\<lambda>p. set_sub i p s) (after_stop (subs s i)) else None)"
| "perform P (Cancel i) s =
     (case subs s i of Enqueuing c \<Rightarrow> Some (set_sub i (Refused CtxErr) s) | _ \<Rightarrow> None)"
| "perform P (Enqueue i) s = enqueue_action P i s"
| "perform P (Collect i) s =
     (case (subs s i, answers s i) of
        (Watching, r # _) \<Rightarrow> Some (set_sub i (Delivered r) s)
      | (WatchFinished, r # _) \<Rightarrow> Some (set_sub i (Delivered r) s)
      | _ \<Rightarrow> None)"
| "perform P (Observe_finished i) s =
     (case subs s i of
        Watching \<Rightarrow> if finished s then Some (set_sub i WatchFinished s) else None
      | WatchFinished \<Rightarrow> if answers s i = [] then Some (set_sub i (Delivered (Inl ErrClosed)) s) else None
      | _ \<Rightarrow> None)"
| "perform P Begin s = (case pc s of NotStarted \<Rightarrow> Some (s\<lparr>pc := Select\<rparr>) | _ \<Rightarrow> None)"
| "perform P See_stop s =
     (case pc s of Select \<Rightarrow> if stop s then Some (flush (b_retry P) ToDrain s) else None | _ \<Rightarrow> None)"
| "perform P Receive s =
     (case (pc s, queue s) of
        (Select, j # q) \<Rightarrow> Some (on_receive (b_retry P) j (s\<lparr>queue := q\<rparr>))
      | _ \<Rightarrow> None)"
| "perform P Proceed s =
     (case pc s of
        AtSize j \<Rightarrow> Some (on_size (b_cfg P) (b_retry P) j s)
      | AtAppend j \<Rightarrow> Some (on_append (b_cfg P) (b_retry P) j s)
      | _ \<Rightarrow> None)"
| "perform P Tick s =
     (case pc s of Select \<Rightarrow> if timer s then Some (flush (b_retry P) ToSelect s) else None | _ \<Rightarrow> None)"
| "perform P (Reply rep) s = reply_action P rep s"
| "perform P Fail s =
     (case pc s of Calling k \<Rightarrow> Some (s\<lparr>pc := BackingOff k\<rparr>) | _ \<Rightarrow> None)"
| "perform P Try_again s =
     (case pc s of
        BackingOff k \<Rightarrow> Some (s\<lparr>pc := Calling k, delay := call_backoff (b_retry P) (delay s)\<rparr>)
      | _ \<Rightarrow> None)"
| "perform P Give_up s =
     (case pc s of
        BackingOff k \<Rightarrow>
          if stop s then Some (end_flush k (answer_all (map (\<lambda>j. (jid j, Inl ErrClosed)) (batch s)) s))
          else None
      | _ \<Rightarrow> None)"
| "perform P Drain s =
     (case pc s of
        Draining \<Rightarrow> Some (if queue s = [] then s\<lparr>pc := Exited\<rparr> else drain_one ErrClosed s)
      | _ \<Rightarrow> None)"
| "perform P Stop s = Some (s\<lparr>stop := True\<rparr>)"
| "perform P (Settle n) s =
     (case settlers s n of
        SettleIdle \<Rightarrow>
          if stop s \<and> (case pc s of Exited \<Rightarrow> True | NotStarted \<Rightarrow> True | _ \<Rightarrow> False)
          then Some (s\<lparr>pc := Exited, settlers := (settlers s)(n := SettleDraining)\<rparr>) else None
      | _ \<Rightarrow> None)"
| "perform P (Settle_next n) s =
     (case settlers s n of
        SettleDraining \<Rightarrow>
          Some (if queue s = [] then s\<lparr>settlers := (settlers s)(n := SettleDone), finished := True\<rparr>
                else drain_one ErrClosed s)
      | _ \<Rightarrow> None)"

text \<open>A schedule is a list of actions, each possible where it is taken.\<close>

fun run :: "('ts, 'as) batcher_params \<Rightarrow> ('u, 'ts, 'as) action list \<Rightarrow> ('u, 'ts, 'as) bstate \<Rightarrow> ('u, 'ts, 'as) bstate option" where
  "run P [] s = Some s"
| "run P (a # as) s = (case perform P a s of None \<Rightarrow> None | Some t \<Rightarrow> run P as t)"

lemma perform_submit:
  "perform P (Submit i c) s = Some t \<Longrightarrow> submit_step P s t"
  using submit_step.empty_command [of s i c P] submit_step.too_large [of s i c P]
    submit_step.enter [of s i c P]
  by (auto simp: submit_action_def split: sub_pc.splits if_splits)

lemma perform_enqueue: "perform P (Enqueue i) s = Some t \<Longrightarrow> submit_step P s t"
  using submit_step.enqueue [of s i _ P]
  by (auto simp: enqueue_action_def split: sub_pc.splits if_splits)

lemma after_open_SomeE:
  "after_open p = Some q \<Longrightarrow> (\<exists>c. p = Entered c \<and> q = Enqueuing c) \<or> p = Enqueued \<and> q = Returned"
  by (cases p) auto

lemma after_stop_SomeE:
  "after_stop p = Some q \<Longrightarrow>
     (\<exists>c. p = Entered c \<and> q = Refused ErrClosed) \<or> (\<exists>c. p = Enqueuing c \<and> q = Refused ErrClosed) \<or>
     p = Enqueued \<and> q = Watching"
  by (cases p) auto

lemma perform_observe:
  "perform P (Observe_open i) s = Some t \<Longrightarrow> submit_step P s t"
  "perform P (Observe_stop i) s = Some t \<Longrightarrow> submit_step P s t"
  "perform P (Observe_finished i) s = Some t \<Longrightarrow> submit_step P s t"
  "perform P (Cancel i) s = Some t \<Longrightarrow> submit_step P s t"
  "perform P (Collect i) s = Some t \<Longrightarrow> submit_step P s t"
  by (auto dest!: after_open_SomeE after_stop_SomeE intro: submit_step.intros
      split: sub_pc.splits if_splits list.splits)

lemma perform_reply: "perform P (Reply rep) s = Some t \<Longrightarrow> loop_step P s t"
  using loop_step.call_reply [of s _ _ _ rep P]
  by (auto simp: reply_action_def list_all_iff split: loop_pc.splits if_splits sum.splits prod.splits)

lemma perform_loop:
  "perform P Begin s = Some t \<Longrightarrow> loop_step P s t"
  "perform P See_stop s = Some t \<Longrightarrow> loop_step P s t"
  "perform P Receive s = Some t \<Longrightarrow> loop_step P s t"
  "perform P Proceed s = Some t \<Longrightarrow> loop_step P s t"
  "perform P Tick s = Some t \<Longrightarrow> loop_step P s t"
  "perform P Fail s = Some t \<Longrightarrow> loop_step P s t"
  "perform P Try_again s = Some t \<Longrightarrow> loop_step P s t"
  "perform P Give_up s = Some t \<Longrightarrow> loop_step P s t"
  "perform P Drain s = Some t \<Longrightarrow> loop_step P s t"
  by (auto intro: loop_step.intros split: loop_pc.splits if_splits list.splits)

lemma perform_close:
  "perform P Stop s = Some t \<Longrightarrow> close_step s t"
  "perform P (Settle n) s = Some t \<Longrightarrow> close_step s t"
  "perform P (Settle_next n) s = Some t \<Longrightarrow> close_step s t"
  by (auto intro: close_step.intros split: settle_pc.splits loop_pc.splits if_splits)

lemmas perform_sound =
  perform_submit [THEN by_submitter] perform_enqueue [THEN by_submitter] perform_observe [THEN by_submitter]
  perform_reply [THEN by_loop] perform_loop [THEN by_loop] perform_close [THEN by_closer]

lemma perform_step: "perform P a s = Some t \<Longrightarrow> batcher_step P s t"
  by (cases a) (simp_all only: perform_sound)

lemma run_reaches: "run P acts s = Some t \<Longrightarrow> batcher_reaches P s \<Longrightarrow> batcher_reaches P t"
proof (induction acts arbitrary: s)
  case (Cons a acts)
  then obtain u where u: "perform P a s = Some u" "run P acts u = Some t" by (auto split: option.splits)
  with Cons.prems(2) have "batcher_reaches P u" using reachable.next_state perform_step by metis
  with Cons.IH u(2) show ?case by blast
qed simp

lemma submit_performs: "submit_step P s t \<Longrightarrow> \<exists>a. perform P a s = Some t"
proof (induction rule: submit_step.induct)
  case (empty_command s i c)
  then show ?case by (intro exI [of _ "Submit i c"]) (simp add: submit_action_def)
next
  case (too_large s i c)
  then show ?case by (intro exI [of _ "Submit i c"]) (simp add: submit_action_def)
next
  case (enter s i c)
  then show ?case by (intro exI [of _ "Submit i c"]) (simp add: submit_action_def)
next
  case (fast_fail s i c)
  then show ?case by (intro exI [of _ "Observe_stop i"]) simp
next
  case (fast_pass s i c)
  then show ?case by (intro exI [of _ "Observe_open i"]) simp
next
  case (enqueue_stopped s i c)
  then show ?case by (intro exI [of _ "Observe_stop i"]) simp
next
  case (enqueue_cancelled s i c)
  then show ?case by (intro exI [of _ "Cancel i"]) simp
next
  case (enqueue s i c j)
  then show ?case by (intro exI [of _ "Enqueue i"]) (simp add: enqueue_action_def)
next
  case (return_done s i)
  then show ?case by (intro exI [of _ "Observe_open i"]) simp
next
  case (return_late s i)
  then show ?case by (intro exI [of _ "Observe_stop i"]) simp
next
  case (watch_outcome s i r rs)
  then show ?case by (intro exI [of _ "Collect i"]) simp
next
  case (watch_finished s i)
  then show ?case by (intro exI [of _ "Observe_finished i"]) simp
next
  case (late_outcome s i r rs)
  then show ?case by (intro exI [of _ "Collect i"]) simp
next
  case (late_closed s i)
  then show ?case by (intro exI [of _ "Observe_finished i"]) simp
qed

lemma loop_performs: "loop_step P s t \<Longrightarrow> \<exists>a. perform P a s = Some t"
proof (induction rule: loop_step.induct)
  case (started s)
  then show ?case by (intro exI [of _ Begin]) simp
next
  case (see_stop s)
  then show ?case by (intro exI [of _ See_stop]) simp
next
  case (receive s j q)
  then show ?case by (intro exI [of _ Receive]) simp
next
  case (size_test s j)
  then show ?case by (intro exI [of _ Proceed]) simp
next
  case (append s j)
  then show ?case by (intro exI [of _ Proceed]) simp
next
  case (tick s)
  then show ?case by (intro exI [of _ Tick]) simp
next
  case (call_reply s k req offs rep)
  then show ?case by (intro exI [of _ "Reply rep"]) (simp add: reply_action_def list_all_iff)
next
  case (call_failed s k)
  then show ?case by (intro exI [of _ Fail]) simp
next
  case (call_retry s k)
  then show ?case by (intro exI [of _ Try_again]) simp
next
  case (call_stopped s k)
  then show ?case by (intro exI [of _ Give_up]) simp
next
  case (drain_job s)
  then show ?case by (intro exI [of _ Drain]) simp
next
  case (drain_end s)
  then show ?case by (intro exI [of _ Drain]) simp
qed

lemma close_performs: "close_step s t \<Longrightarrow> \<exists>a. perform P a s = Some t"
proof (induction rule: close_step.induct)
  case (signalStop s)
  then show ?case by (intro exI [of _ Stop]) simp
next
  case (settle s n)
  then show ?case by (intro exI [of _ "Settle n"]) auto
next
  case (settle_job s n)
  then show ?case by (intro exI [of _ "Settle_next n"]) simp
next
  case (signalFinished s n)
  then show ?case by (intro exI [of _ "Settle_next n"]) simp
qed

text \<open>The scheduler is the step relation, exactly.\<close>

lemma batcher_step_performs: "batcher_step P s t \<longleftrightarrow> (\<exists>a. perform P a s = Some t)"
  using perform_step submit_performs loop_performs close_performs by (metis batcher_step.cases)

subsection \<open>A concrete run\<close>

text \<open>
  The witnesses share one run: job 0 is queued, sent alone (the limit is one event) and
  rejected by TigerBeetle, the batcher shuts down, and job 1, which was past the fast-fail
  before the shutdown, reaches the queue too late.
\<close>

definition demo_cmd :: "128 word command" where
  "demo_cmd = \<lparr> Op = OpCreateTransfers,
     Transfers = [\<lparr> t_ID = 7, t_DebitAccountID = 1, t_CreditAccountID = 2, t_Amount = 100, t_PendingID = 0,
       t_UserData128 = 0, t_UserData64 = 0, t_UserData32 = 0, t_Timeout = 0, t_Ledger = 1, t_Code = 1,
       t_Flags = 1 \<rparr>],
     Accounts = [], IDs = [''7''] \<rparr>"

definition demo_status :: "nat status_api" where
  "demo_status = \<lparr> Created = 0, Exists = 1, status_String = (\<lambda>_. ''TransferExceedsCredits'') \<rparr>"

definition demo_params :: "(nat, nat) batcher_params" where
  "demo_params = \<lparr> b_cfg = \<lparr> B_MaxBatchSize = 1, Linger = 1000, MaxQueue = 1 \<rparr>,
     b_retry = \<lparr> Initial = 100, Max_delay = 5000, Jitter = True \<rparr>,
     transfer_api = demo_status, account_api = demo_status \<rparr>"

definition demo_job :: "128 word job" where
  "demo_job = \<lparr> jid = 0, cmd = demo_cmd \<rparr>"

definition demo_late :: "128 word job" where
  "demo_late = \<lparr> jid = 1, cmd = demo_cmd \<rparr>"

definition demo_reply :: "(nat, nat) reply" where
  "demo_reply = TransfersReply [\<lparr> r_Timestamp = 5, r_Status = 2 \<rparr>]"

definition demo_request :: "128 word request" where
  "demo_request = TransfersReq [clear_linked_transfer (hd (Transfers demo_cmd))]"

definition demo_result :: submit_result where
  "demo_result = Inr [\<lparr> Index = 0, ID = ''7'', Status = StatusRejected, Error = ''exceeds_credits'', Timestamp = 5 \<rparr>]"

text \<open>The schedule, up to the client call and to the end, and the states it reaches.\<close>

definition demo_before :: "(128 word, nat, nat) action list" where
  "demo_before =
     [Submit 0 demo_cmd, Observe_open 0, Enqueue 0, Observe_open 0, Submit 1 demo_cmd, Observe_open 1,
      Begin, Receive, Proceed, Proceed]"

definition demo_after :: "(128 word, nat, nat) action list" where
  "demo_after =
     [Reply demo_reply, Stop, See_stop, Drain, Settle 0, Settle_next 0,
      Enqueue 1, Observe_stop 1, Observe_finished 1, Observe_finished 1]"

definition demo_calling :: "(128 word, nat, nat) bstate" where
  "demo_calling = the (run demo_params demo_before NewBatcher)"

definition demo_end :: "(128 word, nat, nat) bstate" where
  "demo_end = the (run demo_params demo_after demo_calling)"

lemma demo_reaches_calling: "batcher_reaches demo_params demo_calling"
proof (rule run_reaches)
  have "run demo_params demo_before NewBatcher \<noteq> None" by code_simp
  then show "run demo_params demo_before NewBatcher = Some demo_calling" by (auto simp: demo_calling_def)
qed (rule reachable.start)

lemma demo_reaches_end: "batcher_reaches demo_params demo_end"
proof (rule run_reaches)
  have "run demo_params demo_after demo_calling \<noteq> None" by code_simp
  then show "run demo_params demo_after demo_calling = Some demo_end" by (auto simp: demo_end_def)
qed (rule demo_reaches_calling)

lemma demo_facts:
  "sent demo_end = [([demo_job], demo_request, demo_reply)]"
  "answers demo_end 0 = [demo_result]" "answers demo_end 1 = []"
  "subs demo_end 1 = Delivered (Inl ErrClosed)"
  "subs demo_end 0 = Returned"
  "finished demo_end"
  "ids_match demo_cmd" "Len demo_cmd = 1" "cmd demo_job = demo_cmd" "jid demo_job = 0"
  by code_simp+

subsection \<open>Witnesses of the properties on the run\<close>

theorem batcher_answers_own_events_witness:
  "answers demo_end 0 = [Inr [outcome_of demo_status ''Transfer'' demo_cmd 0 \<lparr> r_Timestamp = 5, r_Status = 2 \<rparr>]] \<and>
   Error (outcome_of demo_status ''Transfer'' demo_cmd 0 \<lparr> r_Timestamp = 5, r_Status = 2 \<rparr>) = ''exceeds_credits''"
proof -
  have "([demo_job], demo_request, demo_reply) \<in> set (sent demo_end)" by (simp add: demo_facts)
  from batcher_answers_own_events [OF demo_reaches_end this, of 0]
  have "answers demo_end 0 = [Inr [outcome_of demo_status ''Transfer'' demo_cmd 0 \<lparr> r_Timestamp = 5, r_Status = 2 \<rparr>]]"
    by (simp add: demo_facts demo_request_def demo_reply_def demo_params_def offset_of_def)
  moreover have "Error (outcome_of demo_status ''Transfer'' demo_cmd 0 \<lparr> r_Timestamp = 5, r_Status = 2 \<rparr>)
      = ''exceeds_credits''" by code_simp
  ultimately show ?thesis by blast
qed

theorem batcher_answers_exactly_once_witness:
  "(\<exists>r. answers demo_end 0 = [r]) \<and> length (answers demo_end 1) \<le> 1"
  using batcher_answers_exactly_once [OF demo_reaches_end, of 0]
    batcher_answers_exactly_once [OF demo_reaches_end, of 1] by (simp add: demo_facts)

theorem batcher_keeps_order_witness:
  "subseq ([demo_job] @ batch demo_end @ held (pc demo_end) @ queue demo_end) (accepted demo_end)"
  using batcher_keeps_order [OF demo_reaches_end] by (simp add: demo_facts)

theorem batcher_batches_well_formed_witness:
  "int (request_size demo_request) \<le> 1"
  using batcher_batches_well_formed [OF demo_reaches_end] by (simp add: demo_facts demo_params_def)

theorem batcher_closed_is_truthful_witness:
  "finished demo_end \<and> 1 \<notin> jid ` set [demo_job]"
  using batcher_closed_is_truthful [OF demo_reaches_end, of 1 "Inl ErrClosed"]
  by (simp add: demo_facts)



subsection \<open>The retry delays\<close>

text \<open>The delay before attempt \<open>n + 1\<close>.\<close>

fun delay_after :: "retry_cfg \<Rightarrow> nat \<Rightarrow> int" where
  "delay_after r 0 = Initial r"
| "delay_after r (Suc n) = call_backoff r (delay_after r n)"

lemma call_backoff_double:
  assumes "0 < d" and "d \<le> Max_delay r" and "Max_delay r < 2 ^ 62"
  shows "call_backoff r d = min (2 * d) (Max_delay r)"
  using assms by (auto simp: call_backoff_def Let_def int64_id min_def)

lemma half_pos: "0 < d \<Longrightarrow> half d = d div 2"
  by (simp add: half_def)

lemma jitter_range:
  assumes "0 < d" and "\<And>n. 0 < n \<Longrightarrow> 0 \<le> rnd n \<and> rnd n < n"
  shows "\<exists>w. jitter r rnd d = Inr w \<and> d div 2 \<le> w \<and> w \<le> d"
proof -
  have "0 < half d + 1" using assms(1) by (simp add: half_pos)
  with assms(2) [OF this] assms(1) show ?thesis by (auto simp: jitter_def half_pos)
qed

text \<open>
  C24: with a retry configuration the validation accepts and a maximum below 146 years, the
  delays double from \<^verbatim>\<open>retry.initial\<close> until they stay at \<^verbatim>\<open>retry.max\<close>, and the jittered delay lies
  between half the delay and the delay; \<^verbatim>\<open>rand.Int63n\<close> is never called on a bound it rejects.
\<close>

theorem backoff_schedule:
  assumes "0 < Initial r" and "Initial r \<le> Max_delay r" and "Max_delay r < 2 ^ 62"
    and "\<And>n. 0 < n \<Longrightarrow> 0 \<le> rnd n \<and> rnd n < n"
  shows "delay_after r n = min (Initial r * 2 ^ n) (Max_delay r) \<and>
         (\<exists>w. jitter r rnd (delay_after r n) = Inr w \<and>
              delay_after r n div 2 \<le> w \<and> w \<le> delay_after r n)"
proof -
  have eq: "delay_after r n = min (Initial r * 2 ^ n) (Max_delay r)"
  proof (induction n)
    case (Suc n)
    have "0 < delay_after r n" "delay_after r n \<le> Max_delay r" using Suc assms(1,2) by auto
    then show ?case using call_backoff_double [OF _ _ assms(3)] Suc assms(1,2) by (simp add: min_def)
  qed (use assms(2) in simp)
  then have pos: "0 < delay_after r n" using assms(1,2) by simp
  from eq jitter_range [OF pos assms(4)] show ?thesis by blast
qed

theorem backoff_schedule_witness:
  "delay_after \<lparr> Initial = 100, Max_delay = 5000, Jitter = True \<rparr> 7 = 5000 \<and>
   delay_after \<lparr> Initial = 100, Max_delay = 5000, Jitter = True \<rparr> 2 = 400"
  using backoff_schedule [of "\<lparr> Initial = 100, Max_delay = 5000, Jitter = True \<rparr>" "\<lambda>_. 0" 7]
    backoff_schedule [of "\<lparr> Initial = 100, Max_delay = 5000, Jitter = True \<rparr>" "\<lambda>_. 0" 2] by simp

end
