(* ===== verification/Cdc_Job.thy ===== *)
theory Cdc_Job
  imports Cdc_Cursor Batcher
begin

section \<open>The change-event job: \<^verbatim>\<open>internal/cdc/job.go\<close>\<close>

text \<open>
  One turn of the job asks TigerBeetle for a window of events after the cursor, publishes it in
  two steps and moves the cursor. The source, the producer, the context and the waits are
  functions in a parameter record, asked at a time that every question advances. The output
  topic is part of the state: it is the job's memory across restarts.
\<close>

subsection \<open>What the job talks to\<close>

text \<open>
  \<open>query t m n\<close>: the answer to \<^verbatim>\<open>GetChangeEvents\<close> with \<^verbatim>\<open>TimestampMin\<close> \<open>m\<close> and \<^verbatim>\<open>Limit\<close> \<open>n\<close>;
  \<open>produce\<close>: which of the records given to \<^verbatim>\<open>ProduceSync\<close> landed, and \<^verbatim>\<open>FirstErr\<close>; \<open>slept\<close>: a
  wait was not cut by the context; \<open>part_of\<close>: the producer's partitioner.
\<close>

record 'u job_params =
  lib :: "'u cdc_lib"
  j_cfg :: cdc_cfg
  j_retry :: retry_cfg
  j_reg :: registry
  query :: "nat \<Rightarrow> u64 \<Rightarrow> u32 \<Rightarrow> string + 'u change_event list"
  produce_at :: "nat \<Rightarrow> out_record list \<Rightarrow> bool list \<times> string option"
  ctx_done :: "nat \<Rightarrow> bool"
  slept :: "nat \<Rightarrow> bool"
  Int63n :: "int \<Rightarrow> int"
  part_of :: "out_record \<Rightarrow> int"

definition NewJob :: "cdc_cfg \<Rightarrow> retry_cfg \<Rightarrow> cdc_cfg \<times> retry_cfg" where
  "NewJob cfg retry =
     (let cfg1 = (if BatchSize cfg \<le> 0 then cfg\<lparr>BatchSize := DefaultCDCBatchSize\<rparr> else cfg);
          cfg2 = (if PollInterval cfg1 \<le> 0 then cfg1\<lparr>PollInterval := DefaultCDCPollInterval\<rparr> else cfg1);
          retry1 = (if Initial retry \<le> 0 then retry\<lparr>Initial := 100 * Millisecond\<rparr> else retry);
          retry2 = (if Max_delay retry1 < Initial retry1 then retry1\<lparr>Max_delay := Initial retry1\<rparr> else retry1)
      in (cfg2, retry2))"

definition escalateAfter :: nat where "escalateAfter = 5"

text \<open>A logged failure and whether it is logged as an error.\<close>

datatype job_log = QueryFailed bool | PublicationFailed bool | OutOfOrderWindow

record job_state =
  checkpoint :: u64
  j_delay :: int
  stuck :: nat
  queryStuck :: nat
  enc :: encoder
  j_now :: nat
  out_topic :: "out_record list"
  j_log :: "job_log list"

definition start_job :: "'u job_params \<Rightarrow> u64 \<Rightarrow> nat \<Rightarrow> out_record list \<Rightarrow> job_log list \<Rightarrow> job_state" where
  "start_job P ck t tp log =
     \<lparr> checkpoint = ck, j_delay = Initial (j_retry P), stuck = 0, queryStuck = 0,
       enc = NewEncoder (j_cfg P) (j_reg P), j_now = t, out_topic = tp, j_log = log \<rparr>"

subsection \<open>Publishing a window\<close>

fun encode_window ::
    "'u cdc_lib \<Rightarrow> 'u change_event list \<Rightarrow> u64 \<Rightarrow> encoder \<Rightarrow> (panic + (record_error + out_record list)) \<times> encoder"
  where
  "encode_window G [] ck e = (Inr (Inr []), e)"
| "encode_window G (ev # evs) ck e =
     (case Record G ev ck e of
        (Inl p, e1) \<Rightarrow> (Inl p, e1)
      | (Inr (Inl err), e1) \<Rightarrow> (Inr (Inl err), e1)
      | (Inr (Inr rec), e1) \<Rightarrow>
          (case encode_window G evs ck e1 of
             (Inr (Inr recs), e2) \<Rightarrow> (Inr (Inr (rec # recs)), e2)
           | r \<Rightarrow> r))"

definition landed :: "bool list \<Rightarrow> out_record list \<Rightarrow> out_record list" where
  "landed oks recs = map snd (filter fst (zip oks recs))"

definition ProduceSync :: "'u job_params \<Rightarrow> out_record list \<Rightarrow> job_state \<Rightarrow> string option \<times> job_state" where
  "ProduceSync P recs s =
     (case produce_at P (j_now s) recs of
        (oks, err) \<Rightarrow> (err, s\<lparr>out_topic := out_topic s @ landed oks recs, j_now := Suc (j_now s)\<rparr>))"

datatype publish_error = EncodeFailed record_error | PublishWindow string | PublishClosing string

definition publish ::
    "'u job_params \<Rightarrow> 'u change_event list \<Rightarrow> u64 \<Rightarrow> job_state \<Rightarrow> (panic + (publish_error + u64)) \<times> job_state" where
  "publish P events ck s =
     (let closing = length events - 1 in
      case encode_window (lib P) (take closing events) ck (enc s) of
        (Inl p, e1) \<Rightarrow> (Inl p, s\<lparr>enc := e1\<rparr>)
      | (Inr (Inl err), e1) \<Rightarrow> (Inr (Inl (EncodeFailed err)), s\<lparr>enc := e1\<rparr>)
      | (Inr (Inr rest), e1) \<Rightarrow>
          (case (if rest \<noteq> [] then ProduceSync P rest (s\<lparr>enc := e1\<rparr>) else (None, s\<lparr>enc := e1\<rparr>)) of
             (Some err, s2) \<Rightarrow> (Inr (Inl (PublishWindow err)), s2)
           | (None, s2) \<Rightarrow>
               (let last_ev = events ! closing in
                case Record (lib P) last_ev (ce_Timestamp last_ev) (enc s2) of
                  (Inl p, e3) \<Rightarrow> (Inl p, s2\<lparr>enc := e3\<rparr>)
                | (Inr (Inl err), e3) \<Rightarrow> (Inr (Inl (EncodeFailed err)), s2\<lparr>enc := e3\<rparr>)
                | (Inr (Inr rec), e3) \<Rightarrow>
                    (case ProduceSync P [rec] (s2\<lparr>enc := e3\<rparr>) of
                       (Some err, s4) \<Rightarrow> (Inr (Inl (PublishClosing err)), s4)
                     | (None, s4) \<Rightarrow> (Inr (Inr (ce_Timestamp last_ev)), s4)))))"

text \<open>\<^verbatim>\<open>ascending\<close>: the index of the first event that does not follow its predecessor.\<close>

fun ascending_from :: "nat \<Rightarrow> 'u change_event list \<Rightarrow> nat option" where
  "ascending_from i (e1 # e2 # es) =
     (if ce_Timestamp e2 \<le> ce_Timestamp e1 then Some i else ascending_from (Suc i) (e2 # es))"
| "ascending_from i _ = None"

definition ascending :: "'u change_event list \<Rightarrow> nat option" where
  "ascending events = ascending_from 1 events"

subsection \<open>A turn\<close>

text \<open>Durations are \<^verbatim>\<open>int64\<close>: the doubling wraps.\<close>

definition next_delay :: "retry_cfg \<Rightarrow> int \<Rightarrow> int" where
  "next_delay r d = (let d2 = int64 (d * 2) in if d2 > Max_delay r then Max_delay r else d2)"

definition cdc_jitter :: "'u job_params \<Rightarrow> int \<Rightarrow> panic + int" where
  "cdc_jitter P d =
     (if \<not> Jitter (j_retry P) then Inr d
      else if half d + 1 \<le> 0 then Inl InvalidArgument
      else Inr (half d + Int63n P (half d + 1)))"

datatype job_error = NotAscending nat

datatype turn = Again | Return "job_error option" | Panics panic

definition retry_later :: "'u job_params \<Rightarrow> job_state \<Rightarrow> turn \<times> job_state" where
  "retry_later P s =
     (case cdc_jitter P (j_delay s) of
        Inl p \<Rightarrow> (Panics p, s)
      | Inr _ \<Rightarrow>
          (let s1 = s\<lparr>j_now := Suc (j_now s)\<rparr> in
           if slept P (j_now s) then (Again, s1\<lparr>j_delay := next_delay (j_retry P) (j_delay s)\<rparr>)
           else (Return None, s1)))"

definition job_turn :: "'u job_params \<Rightarrow> job_state \<Rightarrow> turn \<times> job_state" where
  "job_turn P s =
     (if ctx_done P (j_now s) then (Return None, s)
      else
        (let s1 = s\<lparr>j_now := Suc (j_now s)\<rparr> in
         case query P (j_now s) (checkpoint s + 1) (word_of_int (BatchSize (j_cfg P))) of
           Inl _ \<Rightarrow>
             retry_later P (s1\<lparr>queryStuck := Suc (queryStuck s),
                               j_log := j_log s @ [QueryFailed (Suc (queryStuck s) \<ge> escalateAfter)]\<rparr>)
         | Inr [] \<Rightarrow>
             if slept P (j_now s1)
             then (Again, s1\<lparr>queryStuck := 0, j_delay := Initial (j_retry P), j_now := Suc (j_now s1)\<rparr>)
             else (Return None, s1\<lparr>queryStuck := 0, j_now := Suc (j_now s1)\<rparr>)
         | Inr events \<Rightarrow>
             (case ascending events of
                Some i \<Rightarrow>
                  (Return (Some (NotAscending i)), s1\<lparr>queryStuck := 0, j_log := j_log s @ [OutOfOrderWindow]\<rparr>)
              | None \<Rightarrow>
                  (case publish P events (checkpoint s) (s1\<lparr>queryStuck := 0\<rparr>) of
                     (Inl p, s2) \<Rightarrow> (Panics p, s2)
                   | (Inr (Inl _), s2) \<Rightarrow>
                       if ctx_done P (j_now s2) then (Return None, s2)
                       else retry_later P (s2\<lparr>stuck := Suc (stuck s2),
                              j_log := j_log s2 @ [PublicationFailed (Suc (stuck s2) \<ge> escalateAfter)]\<rparr>)
                   | (Inr (Inr published), s2) \<Rightarrow>
                       (Again, s2\<lparr>checkpoint := published, stuck := 0, j_delay := Initial (j_retry P)\<rparr>)))))"

text \<open>\<^verbatim>\<open>Run\<close>, for a number of turns: \<open>Again\<close> means that it is still running.\<close>

fun run_job :: "nat \<Rightarrow> 'u job_params \<Rightarrow> job_state \<Rightarrow> turn \<times> job_state" where
  "run_job 0 P s = (Again, s)"
| "run_job (Suc n) P s = (case job_turn P s of (Again, s1) \<Rightarrow> run_job n P s1 | r \<Rightarrow> r)"

subsection \<open>The life of a topic\<close>

text \<open>
  A turn of a running job, whatever its outcome; or a restart, after a crash or a return at any
  point, from the cursor \<^verbatim>\<open>Resume\<close> finds. A crash in the middle of a turn is a turn whose later
  publications did not land.
\<close>

definition partition_log :: "'u job_params \<Rightarrow> out_record list \<Rightarrow> int \<Rightarrow> string list" where
  "partition_log P tp p = map o_Value (filter (\<lambda>r. part_of P r = p) tp)"

definition resume_point :: "'u job_params \<Rightarrow> out_record list \<Rightarrow> u64" where
  "resume_point P tp = Max (insert 0 (tail_claims (lib P) (partition_log P tp) (part_of P ` set tp)))"

inductive cdc_step :: "'u job_params \<Rightarrow> job_state \<Rightarrow> job_state \<Rightarrow> bool" for P where
  take_turn: "job_turn P s = (r, t) \<Longrightarrow> cdc_step P s t"
| restart: "cdc_step P s (start_job P (resume_point P (out_topic s)) (j_now s) (out_topic s) (j_log s))"

inductive_cases cdc_stepE: "cdc_step P s t"

abbreviation cdc_reaches :: "'u job_params \<Rightarrow> job_state \<Rightarrow> bool" where
  "cdc_reaches P \<equiv> reachable (cdc_step P) (start_job P 0 0 [] [])"


subsection \<open>What the job relies on\<close>

text \<open>
  TigerBeetle's log, in order, with unique timestamps that are neither zero nor the largest;
  a window is a prefix of what it holds from \<^verbatim>\<open>TimestampMin\<close> on; and \<^verbatim>\<open>ProduceSync\<close> without an
  error means that every record landed.
\<close>

definition log_ok :: "'u change_event list \<Rightarrow> bool" where
  "log_ok L \<longleftrightarrow> sorted_wrt (<) (map ce_Timestamp L) \<and> (\<forall>e \<in> set L. ce_Timestamp e \<noteq> 0 \<and> ce_Timestamp e \<noteq> -1)"

definition source_ok :: "'u job_params \<Rightarrow> 'u change_event list \<Rightarrow> bool" where
  "source_ok P L \<longleftrightarrow>
     (\<forall>t m n evs. query P t m n = Inr evs \<longrightarrow> prefix evs (filter (\<lambda>e. m \<le> ce_Timestamp e) L))"

definition producer_ok :: "'u job_params \<Rightarrow> bool" where
  "producer_ok P \<longleftrightarrow>
     (\<forall>t recs oks. produce_at P t recs = (oks, None) \<longrightarrow> oks = replicate (length recs) True)"

lemma landed_all: "landed (replicate (length recs) True) recs = recs"
proof -
  have "filter fst (zip (replicate (length recs) True) recs) = zip (replicate (length recs) True) recs"
    by (rule filter_True) (auto dest: set_zip_leftD)
  then show ?thesis by (simp add: landed_def)
qed

lemma landed_subset: "set (landed oks recs) \<subseteq> set recs"
  by (auto simp: landed_def dest: set_zip_rightD)

subsection \<open>What a window writes\<close>

abbreviation base_enc :: "'u job_params \<Rightarrow> encoder" where
  "base_enc P \<equiv> NewEncoder (j_cfg P) (j_reg P)"

definition encodes :: "'u job_params \<Rightarrow> 'u change_event \<Rightarrow> u64 \<Rightarrow> out_record \<Rightarrow> bool" where
  "encodes P ev c rec \<longleftrightarrow> (\<exists>en en'. same_enc (base_enc P) en \<and> Record (lib P) ev c en = (Inr (Inr rec), en'))"

definition published :: "'u job_params \<Rightarrow> out_record list \<Rightarrow> 'u change_event \<Rightarrow> bool" where
  "published P tp ev \<longleftrightarrow> (\<exists>rec \<in> set tp. \<exists>c. encodes P ev c rec)"

lemma published_mono: "published P tp ev \<Longrightarrow> set tp \<subseteq> set tp' \<Longrightarrow> published P tp' ev"
  unfolding published_def by blast

lemma encodes_claim: "codec_ok (lib P) \<Longrightarrow> encodes P ev c rec \<Longrightarrow> recordCheckpoint (lib P) (o_Value rec) = Some c"
  using Record_checkpoint by (auto simp: encodes_def)

lemma Record_same: "Record G ev c e = (r, e') \<Longrightarrow> same_enc b e \<Longrightarrow> same_enc b e'"
  using Record_enc [of e G ev c] same_enc_trans [of b e e'] by simp

lemma encode_window_same: "encode_window G evs ck e = (r, e') \<Longrightarrow> same_enc b e \<Longrightarrow> same_enc b e'"
proof (induction evs arbitrary: e r e')
  case (Cons ev evs)
  obtain x e1 where x: "Record G ev ck e = (x, e1)" by (cases "Record G ev ck e")
  obtain y e2 where y: "encode_window G evs ck e1 = (y, e2)" by (cases "encode_window G evs ck e1")
  note s1 = Record_same [OF x Cons.prems(2)]
  from Cons.IH [OF y s1] s1 Cons.prems(1) x y show ?case by (auto split: sum.splits)
qed simp

lemma encode_window_recs:
  "encode_window (lib P) evs ck e = (Inr (Inr recs), e') \<Longrightarrow> same_enc (base_enc P) e \<Longrightarrow>
     list_all2 (\<lambda>ev rec. encodes P ev ck rec) evs recs"
proof (induction evs arbitrary: e recs)
  case (Cons ev evs)
  obtain x e1 where x: "Record (lib P) ev ck e = (x, e1)" by (cases "Record (lib P) ev ck e")
  then obtain rec where rec: "x = Inr (Inr rec)" using Cons.prems(1) by (auto split: sum.splits)
  then obtain rs where rs: "encode_window (lib P) evs ck e1 = (Inr (Inr rs), e')" "recs = rec # rs"
    using Cons.prems(1) x by (auto split: sum.splits prod.splits)
  have "encodes P ev ck rec" unfolding encodes_def using x rec Cons.prems(2) by blast
  then show ?case using Cons.IH [OF rs(1) Record_same [OF x Cons.prems(2)]] rs(2) by simp
qed simp

text \<open>
  The records a window adds: some of the window but its last event, claiming the checkpoint it
  started from; and, only when all of those landed, the closing record claiming its own.
\<close>

definition window_adds :: "'u job_params \<Rightarrow> 'u change_event list \<Rightarrow> u64 \<Rightarrow> out_record list \<Rightarrow> bool \<Rightarrow> bool" where
  "window_adds P events ck new closed \<longleftrightarrow>
     (\<exists>rest closing. new = rest @ closing \<and>
        (\<forall>rec \<in> set rest. \<exists>ev \<in> set (butlast events). encodes P ev ck rec) \<and>
        (closing = [] \<or>
           (\<exists>rec. closing = [rec] \<and> encodes P (last events) (ce_Timestamp (last events)) rec \<and>
              (\<forall>ev \<in> set (butlast events). \<exists>rec \<in> set rest. encodes P ev ck rec))) \<and>
        (closed \<longrightarrow> closing \<noteq> []))"

lemma window_adds_part:
  "(\<And>rec. rec \<in> set new \<Longrightarrow> \<exists>ev \<in> set (butlast events). encodes P ev ck rec) \<Longrightarrow>
     window_adds P events ck new False"
  unfolding window_adds_def by (intro exI [of _ new] exI [of _ "[]"]) simp

lemma window_adds_weaken: "window_adds P events ck new closed \<Longrightarrow> window_adds P events ck new False"
  unfolding window_adds_def by blast

lemma window_adds_either:
  assumes "window_adds P events ck new closed" and "rec \<in> set new"
  shows "(\<exists>ev. encodes P ev ck rec) \<or> encodes P (last events) (ce_Timestamp (last events)) rec"
proof -
  obtain rest closing where "new = rest @ closing"
    "\<forall>rec \<in> set rest. \<exists>ev \<in> set (butlast events). encodes P ev ck rec"
    "closing = [] \<or> (\<exists>rec. closing = [rec] \<and> encodes P (last events) (ce_Timestamp (last events)) rec)"
    using assms(1) unfolding window_adds_def by blast
  with assms(2) show ?thesis by auto
qed

lemma ProduceSync_spec:
  assumes "ProduceSync P recs s = (err, s')"
  shows "\<exists>new. set new \<subseteq> set recs \<and> s' = s\<lparr>out_topic := out_topic s @ new, j_now := Suc (j_now s)\<rparr> \<and>
     (producer_ok P \<longrightarrow> err = None \<longrightarrow> new = recs) \<and> length new \<le> length recs"
proof -
  obtain oks where m: "produce_at P (j_now s) recs = (oks, err)"
    "s' = s\<lparr>out_topic := out_topic s @ landed oks recs, j_now := Suc (j_now s)\<rparr>"
    using assms by (auto simp: ProduceSync_def split: prod.splits)
  have "landed oks recs = recs" if "producer_ok P" "err = None"
    using m(1) that landed_all unfolding producer_ok_def by metis
  moreover have "length (landed oks recs) \<le> length recs"
    unfolding landed_def length_map by (rule order_trans [OF length_filter_le]) simp
  ultimately show ?thesis using m(2) landed_subset by blast
qed

lemma publish_spec:
  assumes "publish P events ck s = (r, s')" and "events \<noteq> []" and "same_enc (base_enc P) (enc s)"
    and "producer_ok P"
  shows "\<exists>new. out_topic s' = out_topic s @ new \<and> same_enc (base_enc P) (enc s') \<and>
     checkpoint s' = checkpoint s \<and> window_adds P events ck new (\<exists>c. r = Inr (Inr c)) \<and>
     (\<forall>c. r = Inr (Inr c) \<longrightarrow> c = ce_Timestamp (last events)) \<and> j_log s' = j_log s"
proof -
  have bl: "take (length events - Suc 0) events = butlast events" by (simp add: butlast_conv_take)
  obtain x e1 where x: "encode_window (lib P) (butlast events) ck (enc s) = (x, e1)"
    by (cases "encode_window (lib P) (butlast events) ck (enc s)")
  note e1 = encode_window_same [OF x assms(3)]
  show ?thesis
  proof (cases "\<exists>rest. x = Inr (Inr rest)")
    case False
    then show ?thesis using assms(1) x e1
      by (auto simp: publish_def bl window_adds_def Let_def split: sum.splits)
  next
    case True
    then obtain rest where rest: "x = Inr (Inr rest)" by blast
    note all2 = encode_window_recs [OF x [unfolded rest] assms(3)]
    let ?s1 = "s\<lparr>enc := e1\<rparr>"
    obtain err s2 where s2: "(if rest \<noteq> [] then ProduceSync P rest ?s1 else (None, ?s1)) = (err, s2)"
      by (cases "if rest \<noteq> [] then ProduceSync P rest ?s1 else (None, ?s1)")
    obtain new t where new: "set new \<subseteq> set rest" "s2 = ?s1\<lparr>out_topic := out_topic s @ new, j_now := t\<rparr>"
      "err = None \<longrightarrow> new = rest"
    proof (cases "rest = []")
      case True
      with s2 show ?thesis by (intro that [of "[]" "j_now s"]) auto
    next
      case False
      with s2 have "ProduceSync P rest ?s1 = (err, s2)" by simp
      from ProduceSync_spec [OF this] assms(4) show ?thesis by (auto intro: that)
    qed
    have src: "\<exists>ev \<in> set (butlast events). encodes P ev ck rec" if rec: "rec \<in> set rest" for rec
    proof -
      obtain i where i: "i < length rest" "rec = rest ! i" using rec by (auto simp: in_set_conv_nth)
      then have "encodes P (butlast events ! i) ck rec" using list_all2_nthD2 [OF all2] by simp
      moreover have "butlast events ! i \<in> set (butlast events)"
        using i(1) list_all2_lengthD [OF all2] by (intro nth_mem) simp
      ultimately show ?thesis by blast
    qed
    have cover: "\<exists>rec \<in> set rest. encodes P ev ck rec" if ev: "ev \<in> set (butlast events)" for ev
    proof -
      obtain i where i: "i < length (butlast events)" "ev = butlast events ! i" using ev by (metis in_set_conv_nth)
      then have "encodes P ev ck (rest ! i)" using list_all2_nthD [OF all2] by simp
      moreover have "rest ! i \<in> set rest" using i(1) list_all2_lengthD [OF all2] by (intro nth_mem) simp
      ultimately show ?thesis by blast
    qed
    show ?thesis
    proof (cases err)
      case (Some er)
      then have "r = Inr (Inl (PublishWindow er))" "s' = s2"
        using assms(1) x rest s2 by (auto simp: publish_def bl Let_def)
      moreover have "window_adds P events ck new False" using src new(1) by (intro window_adds_part) blast
      ultimately show ?thesis using new(2) e1 by auto
    next
      case None
      then have full: "new = rest" using new(3) by simp
      let ?last = "events ! (length events - 1)"
      have last: "?last = last events" using assms(2) by (simp add: last_conv_nth)
      obtain y e3 where y: "Record (lib P) (last events) (ce_Timestamp (last events)) (enc s2) = (y, e3)"
        by (cases "Record (lib P) (last events) (ce_Timestamp (last events)) (enc s2)")
      have e2: "same_enc (base_enc P) (enc s2)" using new(2) e1 by simp
      note e3 = Record_same [OF y e2]
      have some: "window_adds P events ck rest False"
        using src by (rule window_adds_part)
      show ?thesis
      proof (cases "\<exists>rec. y = Inr (Inr rec)")
        case False
        then have "\<not> (\<exists>c. r = Inr (Inr c))" "s' = s2\<lparr>enc := e3\<rparr>"
          using assms(1) x rest s2 None y last by (auto simp: publish_def bl Let_def split: sum.splits)
        then show ?thesis using new(2) full e3 some by auto
      next
        case True
        then obtain rec where rec: "y = Inr (Inr rec)" by blast
        have closing: "encodes P (last events) (ce_Timestamp (last events)) rec"
          unfolding encodes_def using y rec e2 by blast
        obtain err4 s4 where s4: "ProduceSync P [rec] (s2\<lparr>enc := e3\<rparr>) = (err4, s4)"
          by (cases "ProduceSync P [rec] (s2\<lparr>enc := e3\<rparr>)")
        obtain new4 where new4: "set new4 \<subseteq> {rec}" "length new4 \<le> 1"
          "s4 = s2\<lparr>enc := e3, out_topic := out_topic s2 @ new4, j_now := Suc (j_now s2)\<rparr>"
          "err4 = None \<longrightarrow> new4 = [rec]"
          using ProduceSync_spec [OF s4] assms(4) by auto
        have "new4 = [] \<or> new4 = [rec]" using new4(1,2) by (cases new4) auto
        then have adds: "window_adds P events ck (rest @ new4) (new4 \<noteq> [])"
        proof
          assume "new4 = []"
          then show ?thesis using some by simp
        next
          assume "new4 = [rec]"
          then show ?thesis
            unfolding window_adds_def using src cover closing by (intro exI [of _ rest] exI [of _ "[rec]"]) auto
        qed
        have "r = (case err4 of None \<Rightarrow> Inr (Inr (ce_Timestamp (last events))) | Some er \<Rightarrow> Inr (Inl (PublishClosing er)))"
          and "s' = s4"
          using assms(1) x rest s2 None y last rec s4 by (auto simp: publish_def bl Let_def split: option.splits)
        moreover have "window_adds P events ck (rest @ new4) (err4 = None)"
          using adds new4(4) window_adds_weaken [OF adds] by (cases err4) auto
        ultimately show ?thesis
          using new4(3) new(2) full e3 by (cases err4) auto
      qed
    qed
  qed
qed



subsection \<open>The claims are true\<close>

definition complete :: "'u job_params \<Rightarrow> 'u change_event list \<Rightarrow> out_record list \<Rightarrow> u64 \<Rightarrow> bool" where
  "complete P L tp c \<longleftrightarrow> (\<forall>ev \<in> set L. ce_Timestamp ev \<le> c \<longrightarrow> published P tp ev)"

definition honest :: "'u job_params \<Rightarrow> 'u change_event list \<Rightarrow> out_record list \<Rightarrow> bool" where
  "honest P L tp \<longleftrightarrow>
     (\<forall>rec \<in> set tp. \<forall>c. recordCheckpoint (lib P) (o_Value rec) = Some c \<longrightarrow> complete P L tp c)"

lemma complete_mono: "complete P L tp c \<Longrightarrow> set tp \<subseteq> set tp' \<Longrightarrow> complete P L tp' c"
  unfolding complete_def using published_mono by blast

lemma complete_below: "complete P L tp c \<Longrightarrow> d \<le> c \<Longrightarrow> complete P L tp d"
  unfolding complete_def by (meson order_trans)

definition window :: "'u change_event list \<Rightarrow> u64 \<Rightarrow> 'u change_event list \<Rightarrow> bool" where
  "window L c events \<longleftrightarrow> events \<noteq> [] \<and> prefix events (filter (\<lambda>e. c + 1 \<le> ce_Timestamp e) L)"

lemma sorted_prefix_last:
  assumes "sorted_wrt (<) (map f xs)" and "prefix ys xs" and "ys \<noteq> []" and "x \<in> set xs" and "f x \<le> (f (last ys) :: u64)"
  shows "x \<in> set ys"
proof (rule ccontr)
  assume "x \<notin> set ys"
  obtain zs where xs: "xs = ys @ zs" using assms(2) by (auto elim: prefixE)
  then have "x \<in> set zs" using assms(4) \<open>x \<notin> set ys\<close> by simp
  moreover have "last ys \<in> set ys" using assms(3) by simp
  ultimately have "f (last ys) < f x" using assms(1) xs by (simp add: sorted_wrt_append)
  with assms(5) show False by simp
qed

lemma window_covers:
  assumes "log_ok L" and "window L c events" and "complete P L tp c"
    and "ev \<in> set L" and "ce_Timestamp ev \<le> ce_Timestamp (last events)"
  shows "ev \<in> set events \<or> published P tp ev"
proof (cases "c + 1 \<le> ce_Timestamp ev")
  case True
  have "sorted_wrt (<) (map ce_Timestamp (filter (\<lambda>e. c + 1 \<le> ce_Timestamp e) L))"
    using assms(1) by (auto simp: log_ok_def sorted_wrt_map intro: sorted_wrt_filter)
  from sorted_prefix_last [OF this, of events ev] assms(2,4,5) True show ?thesis by (auto simp: window_def)
next
  case False
  then have "ce_Timestamp ev < c + 1" by simp
  then have "ce_Timestamp ev \<le> c" by (metis add.commute inc_le not_less word_le_less_eq)
  then show ?thesis using assms(3,4) by (auto simp: complete_def)
qed

text \<open>A window keeps the topic honest, and when it is closed the topic is complete up to its end.\<close>

lemma window_keeps_honest:
  assumes "codec_ok (lib P)" and "log_ok L" and "window L c events" and "complete P L tp c" and "honest P L tp"
    and "window_adds P events c new closed"
  shows "honest P L (tp @ new) \<and> (closed \<longrightarrow> complete P L (tp @ new) (ce_Timestamp (last events)))"
proof -
  obtain rest closing where w: "new = rest @ closing"
    "\<forall>rec \<in> set rest. \<exists>ev \<in> set (butlast events). encodes P ev c rec"
    "closing = [] \<or> (\<exists>rec. closing = [rec] \<and> encodes P (last events) (ce_Timestamp (last events)) rec \<and>
        (\<forall>ev \<in> set (butlast events). \<exists>rec \<in> set rest. encodes P ev c rec))"
    "closed \<longrightarrow> closing \<noteq> []"
    using assms(6) unfolding window_adds_def by blast
  have old: "complete P L (tp @ new) c" using assms(4) by (rule complete_mono) auto
  have full: "complete P L (tp @ new) (ce_Timestamp (last events))" if ne: "closing \<noteq> []"
  proof -
    obtain rec where rec: "closing = [rec]" "encodes P (last events) (ce_Timestamp (last events)) rec"
      "\<forall>ev \<in> set (butlast events). \<exists>rec \<in> set rest. encodes P ev c rec"
      using w(3) ne by blast
    have "events = butlast events @ [last events]" using assms(3) by (simp add: window_def)
    then have evs: "set events = insert (last events) (set (butlast events))"
      by (metis list.simps(15) rotate1.simps(2) set_rotate1)
    have "published P new ev" if ev: "ev \<in> set events" for ev
    proof (cases "ev = last events")
      case True
      then show ?thesis using rec(1,2) w(1) unfolding published_def by auto
    next
      case False
      then have "ev \<in> set (butlast events)" using ev evs by simp
      then show ?thesis using rec(3) w(1) unfolding published_def by fastforce
    qed
    then show ?thesis
      using window_covers [OF assms(2,3,4)] published_mono [of P new _ "tp @ new"] published_mono [of P tp _ "tp @ new"]
      unfolding complete_def by auto
  qed
  have "complete P L (tp @ new) d"
    if rec: "rec \<in> set (tp @ new)" "recordCheckpoint (lib P) (o_Value rec) = Some d" for rec d
  proof -
    consider "rec \<in> set tp" | "rec \<in> set rest" | "rec \<in> set closing" using rec(1) w(1) by auto
    then show ?thesis
    proof cases
      case 1
      then have "complete P L tp d" using assms(5) rec(2) unfolding honest_def by blast
      then show ?thesis by (rule complete_mono) simp
    next
      case 2
      then obtain ev where "encodes P ev c rec" using w(2) by blast
      then have "d = c" using encodes_claim [OF assms(1)] rec(2) by fastforce
      then show ?thesis using old by simp
    next
      case 3
      then have ne: "closing \<noteq> []" by auto
      with w(3) 3 have "encodes P (last events) (ce_Timestamp (last events)) rec" by auto
      then have "d = ce_Timestamp (last events)" using encodes_claim [OF assms(1)] rec(2) by fastforce
      then show ?thesis using full ne by simp
    qed
  qed
  then show ?thesis using full w(4) unfolding honest_def by blast
qed

text \<open>What a turn does: it leaves topic and cursor, or writes a window and may close it.\<close>

lemma retry_later_keeps:
  "retry_later P s = (r, s') \<Longrightarrow> out_topic s' = out_topic s \<and> checkpoint s' = checkpoint s \<and> enc s' = enc s"
  by (auto simp: retry_later_def Let_def split: sum.splits if_splits)

lemma job_turn_cases:
  assumes "job_turn P s = (r, s')" and "source_ok P L" and "producer_ok P" and "same_enc (base_enc P) (enc s)"
  shows "same_enc (base_enc P) (enc s') \<and>
    (out_topic s' = out_topic s \<and> checkpoint s' = checkpoint s \<or>
     (\<exists>events new closed. window L (checkpoint s) events \<and> window_adds P events (checkpoint s) new closed \<and>
        out_topic s' = out_topic s @ new \<and>
        checkpoint s' = (if closed then ce_Timestamp (last events) else checkpoint s)))"
proof (cases "ctx_done P (j_now s)")
  case True
  with assms show ?thesis by (auto simp: job_turn_def)
next
  case go: False
  let ?q = "query P (j_now s) (checkpoint s + 1) (word_of_int (BatchSize (j_cfg P)))"
  let ?s1 = "s\<lparr>j_now := Suc (j_now s)\<rparr>"
  show ?thesis
  proof (cases ?q)
    case (Inl e)
    with assms(1) go have "retry_later P (?s1\<lparr>queryStuck := Suc (queryStuck s),
        j_log := j_log s @ [QueryFailed (Suc (queryStuck s) \<ge> escalateAfter)]\<rparr>) = (r, s')"
      by (simp add: job_turn_def Let_def)
    from retry_later_keeps [OF this] assms(4) show ?thesis by simp
  next
    case (Inr events)
    show ?thesis
    proof (cases "events = []")
      case True
      with assms Inr go show ?thesis by (auto simp: job_turn_def Let_def split: if_splits)
    next
      case ne: False
      have win: "window L (checkpoint s) events"
        using assms(2) Inr ne unfolding source_ok_def window_def by blast
      show ?thesis
      proof (cases "ascending events")
        case (Some i)
        with assms Inr go ne show ?thesis by (auto simp: job_turn_def Let_def split: list.splits)
      next
        case None
        let ?s2 = "?s1\<lparr>queryStuck := 0\<rparr>"
        obtain pr s3 where pub: "publish P events (checkpoint s) ?s2 = (pr, s3)"
          by (cases "publish P events (checkpoint s) ?s2")
        have same: "same_enc (base_enc P) (enc ?s2)" using assms(4) by simp
        obtain new where new: "out_topic s3 = out_topic s @ new" "same_enc (base_enc P) (enc s3)"
          "checkpoint s3 = checkpoint s" "window_adds P events (checkpoint s) new (\<exists>c. pr = Inr (Inr c))"
          "\<forall>c. pr = Inr (Inr c) \<longrightarrow> c = ce_Timestamp (last events)"
          using publish_spec [OF pub ne same assms(3)] by auto
        have part: "window_adds P events (checkpoint s) new False"
          using window_adds_weaken [OF new(4)] .
        have turn: "job_turn P s = (case (pr, s3) of
            (Inl p, s2) \<Rightarrow> (Panics p, s2)
          | (Inr (Inl _), s2) \<Rightarrow>
              if ctx_done P (j_now s2) then (Return None, s2)
              else retry_later P (s2\<lparr>stuck := Suc (stuck s2),
                     j_log := j_log s2 @ [PublicationFailed (Suc (stuck s2) \<ge> escalateAfter)]\<rparr>)
          | (Inr (Inr c), s2) \<Rightarrow>
              (Again, s2\<lparr>checkpoint := c, stuck := 0, j_delay := Initial (j_retry P)\<rparr>))"
          using go Inr ne None pub by (cases events) (simp_all add: job_turn_def Let_def)
        consider p where "pr = Inl p" | e where "pr = Inr (Inl e)" | c where "pr = Inr (Inr c)"
          by (cases pr; cases "projr pr") auto
        then show ?thesis
        proof cases
          case 1
          with assms(1) turn new part win show ?thesis by auto
        next
          case 2
          then have "out_topic s' = out_topic s3 \<and> checkpoint s' = checkpoint s3 \<and> enc s' = enc s3"
            using assms(1) turn by (auto split: if_splits dest!: retry_later_keeps)
          with new part win show ?thesis by auto
        next
          case 3
          then have "window_adds P events (checkpoint s) new True" "c = ce_Timestamp (last events)"
            using new(4,5) by simp_all
          moreover have "s' = s3\<lparr>checkpoint := c, stuck := 0, j_delay := Initial (j_retry P)\<rparr>"
            using assms(1) turn 3 by simp
          ultimately show ?thesis using new(1,2) win by auto
        qed
      qed
    qed
  qed
qed

definition job_inv :: "'u job_params \<Rightarrow> 'u change_event list \<Rightarrow> job_state \<Rightarrow> bool" where
  "job_inv P L s \<longleftrightarrow> same_enc (base_enc P) (enc s) \<and> complete P L (out_topic s) (checkpoint s) \<and>
     honest P L (out_topic s)"

lemma resume_point_claim:
  "resume_point P tp = 0 \<or> (\<exists>rec \<in> set tp. recordCheckpoint (lib P) (o_Value rec) = Some (resume_point P tp))"
proof -
  let ?C = "tail_claims (lib P) (partition_log P tp) (part_of P ` set tp)"
  have sub: "\<exists>rec \<in> set tp. recordCheckpoint (lib P) (o_Value rec) = Some c" if c: "c \<in> ?C" for c
  proof -
    obtain p where "partition_log P tp p \<noteq> []" "recordCheckpoint (lib P) (last (partition_log P tp p)) = Some c"
      using c unfolding tail_claims_def by blast
    moreover from this(1) have "last (partition_log P tp p) \<in> o_Value ` set tp"
      using last_in_set [of "partition_log P tp p"] by (auto simp: partition_log_def)
    ultimately show ?thesis by auto
  qed
  have "finite ?C"
    by (rule finite_subset [of _ "(\<lambda>rec. the (recordCheckpoint (lib P) (o_Value rec))) ` set tp"])
      (use sub in \<open>force, simp\<close>)
  then have "resume_point P tp \<in> insert 0 ?C" unfolding resume_point_def by (intro Max_in) auto
  then show ?thesis using sub by blast
qed

lemma job_inv_step:
  assumes "codec_ok (lib P)" and "log_ok L" and "source_ok P L" and "producer_ok P"
    and "job_inv P L s" and "cdc_step P s t"
  shows "job_inv P L t"
proof -
  consider (turn) r where "job_turn P s = (r, t)"
    | (restart) "t = start_job P (resume_point P (out_topic s)) (j_now s) (out_topic s) (j_log s)"
    using assms(6) by (auto elim: cdc_stepE)
  then show ?thesis
  proof cases
  case turn
  have inv: "same_enc (base_enc P) (enc s)" "complete P L (out_topic s) (checkpoint s)" "honest P L (out_topic s)"
    using assms(5) by (auto simp: job_inv_def)
  note cs = job_turn_cases [OF turn assms(3,4) inv(1)]
  show ?thesis
  proof (cases "out_topic t = out_topic s \<and> checkpoint t = checkpoint s")
    case True
    with cs inv show ?thesis by (simp add: job_inv_def)
  next
    case False
    then obtain events new closed where w: "window L (checkpoint s) events"
      "window_adds P events (checkpoint s) new closed" "out_topic t = out_topic s @ new"
      "checkpoint t = (if closed then ce_Timestamp (last events) else checkpoint s)"
      using cs by blast
    have "complete P L (out_topic s @ new) (checkpoint s)" using inv(2) by (rule complete_mono) simp
    with window_keeps_honest [OF assms(1,2) w(1) inv(2,3) w(2)] cs w(3,4) show ?thesis
      by (auto simp: job_inv_def)
  qed
next
  case restart
  have "complete P L (out_topic s) (resume_point P (out_topic s))"
    using resume_point_claim [of P "out_topic s"]
  proof
    assume "resume_point P (out_topic s) = 0"
    then show ?thesis using assms(2) by (auto simp: complete_def log_ok_def)
  next
    assume "\<exists>rec \<in> set (out_topic s). recordCheckpoint (lib P) (o_Value rec) = Some (resume_point P (out_topic s))"
    then show ?thesis using assms(5) unfolding job_inv_def honest_def by blast
  qed
  then show ?thesis using restart assms(5) by (simp add: job_inv_def start_job_def)
  qed
qed

lemma job_inv_start: "log_ok L \<Longrightarrow> job_inv P L (start_job P 0 0 [] [])"
  by (auto simp: job_inv_def start_job_def complete_def honest_def log_ok_def)

lemma job_inv_reachable:
  assumes "codec_ok (lib P)" and "log_ok L" and "source_ok P L" and "producer_ok P" and "cdc_reaches P s"
  shows "job_inv P L s"
  using assms(5) job_inv_start [OF assms(2)] job_inv_step [OF assms(1-4)] by (rule reachable_invariant)



subsection \<open>The cursor found on restart\<close>

lemma tail_claims_append:
  assumes "c \<in> tail_claims (lib P) (partition_log P tp) (part_of P ` set tp)"
    and "\<forall>rec \<in> set new. \<exists>d. recordCheckpoint (lib P) (o_Value rec) = Some d \<and> b \<le> d" and "b \<le> c"
  shows "\<exists>d \<in> tail_claims (lib P) (partition_log P (tp @ new)) (part_of P ` set (tp @ new)). b \<le> d"
proof -
  obtain p where p: "p \<in> part_of P ` set tp" "partition_log P tp p \<noteq> []"
    "recordCheckpoint (lib P) (last (partition_log P tp p)) = Some c"
    using assms(1) unfolding tail_claims_def by blast
  have log: "partition_log P (tp @ new) p = partition_log P tp p @ partition_log P new p"
    by (simp add: partition_log_def)
  have "\<exists>d. recordCheckpoint (lib P) (last (partition_log P (tp @ new) p)) = Some d \<and> b \<le> d"
  proof (cases "partition_log P new p = []")
    case True
    with log p(3) assms(3) show ?thesis by simp
  next
    case False
    then have "last (partition_log P new p) \<in> set (partition_log P new p)" by (rule last_in_set)
    then obtain rec where "rec \<in> set new" "o_Value rec = last (partition_log P new p)"
      by (auto simp: partition_log_def)
    with assms(2) False log show ?thesis by (metis last_appendR)
  qed
  moreover have "partition_log P (tp @ new) p \<noteq> []" "p \<in> part_of P ` set (tp @ new)"
    using log p(1,2) by auto
  ultimately show ?thesis unfolding tail_claims_def by blast
qed

lemma tail_claims_finite: "finite (tail_claims G log (f ` set tp))"
proof (rule finite_subset)
  show "tail_claims G log (f ` set tp) \<subseteq> (\<lambda>p. the (recordCheckpoint G (last (log p)))) ` f ` set tp"
    unfolding tail_claims_def by (auto simp: image_iff) (metis option.sel)
qed simp

lemma resume_ge: "d \<in> tail_claims (lib P) (partition_log P tp) (part_of P ` set tp) \<Longrightarrow> d \<le> resume_point P tp"
  unfolding resume_point_def using tail_claims_finite by (intro Max_ge) auto

lemma resume_append:
  assumes "b \<le> resume_point P tp"
    and "\<forall>rec \<in> set new. \<exists>d. recordCheckpoint (lib P) (o_Value rec) = Some d \<and> b \<le> d"
  shows "b \<le> resume_point P (tp @ new)"
proof (cases "b = 0")
  case False
  let ?C = "tail_claims (lib P) (partition_log P tp) (part_of P ` set tp)"
  have "resume_point P tp \<in> insert 0 ?C"
    unfolding resume_point_def using tail_claims_finite by (intro Max_in) auto
  moreover have "resume_point P tp \<noteq> 0" using assms(1) False by (metis word_le_0_iff)
  ultimately have "resume_point P tp \<in> ?C" by simp
  from tail_claims_append [OF this assms(2,1)] show ?thesis using resume_ge order_trans by blast
qed simp

lemma resume_closing:
  assumes "recordCheckpoint (lib P) (o_Value rec) = Some d"
  shows "d \<le> resume_point P (tp @ [rec])"
proof (rule resume_ge)
  have "partition_log P (tp @ [rec]) (part_of P rec) = partition_log P tp (part_of P rec) @ [o_Value rec]"
    by (simp add: partition_log_def)
  then show "d \<in> tail_claims (lib P) (partition_log P (tp @ [rec])) (part_of P ` set (tp @ [rec]))"
    using assms unfolding tail_claims_def by (auto intro!: exI [of _ "part_of P rec"])
qed

definition cursor_inv :: "'u job_params \<Rightarrow> job_state \<Rightarrow> bool" where
  "cursor_inv P s \<longleftrightarrow> same_enc (base_enc P) (enc s) \<and> checkpoint s \<noteq> -1 \<and> checkpoint s \<le> resume_point P (out_topic s) \<and>
     (\<forall>rec \<in> set (out_topic s). \<forall>c. recordCheckpoint (lib P) (o_Value rec) = Some c \<longrightarrow> c \<noteq> -1)"

lemma u64_less_Suc: "c < c + 1" if "c \<noteq> -1" for c :: u64
proof -
  have "uint c \<noteq> 2 ^ 64 - 1"
  proof
    assume "uint c = 2 ^ 64 - 1"
    then have "(of_int (uint c) :: u64) = of_int (2 ^ 64 - 1)" by simp
    with that show False by simp
  qed
  moreover have "uint c < 2 ^ 64" using uint_lt2p [of c] by simp
  ultimately have "uint c + 1 < 2 ^ 64" by linarith
  then have "uint (c + 1) = uint c + 1" using uint_add_lem [of c 1] by simp
  then show ?thesis by (simp add: word_less_def)
qed

lemma window_adds_closed:
  "window_adds P events c new True \<Longrightarrow>
     \<exists>rest rec. new = rest @ [rec] \<and> encodes P (last events) (ce_Timestamp (last events)) rec"
  unfolding window_adds_def by auto

lemma window_ts:
  assumes "log_ok L" and "window L c events" and "c \<noteq> -1" and "ev \<in> set events"
  shows "c < ce_Timestamp ev \<and> ce_Timestamp ev \<noteq> -1"
proof -
  have "ev \<in> set L" "c + 1 \<le> ce_Timestamp ev"
    using assms(2,4) set_mono_prefix [of events "filter (\<lambda>e. c + 1 \<le> ce_Timestamp e) L"]
    by (auto simp: window_def)
  moreover have "c < c + 1" using assms(3) by (rule u64_less_Suc)
  ultimately show ?thesis using assms(1) by (auto simp: log_ok_def)
qed

lemma window_claims:
  assumes "codec_ok (lib P)" and "log_ok L" and "window L c events" and "c \<noteq> -1"
    and "window_adds P events c new closed" and "rec \<in> set new"
  shows "\<exists>d. recordCheckpoint (lib P) (o_Value rec) = Some d \<and> c \<le> d \<and> d \<noteq> -1"
proof -
  have "events \<noteq> []" using assms(3) by (simp add: window_def)
  then have last: "c < ce_Timestamp (last events)" "ce_Timestamp (last events) \<noteq> -1"
    using window_ts [OF assms(2,3,4)] last_in_set by blast+
  consider ev where "encodes P ev c rec" | "encodes P (last events) (ce_Timestamp (last events)) rec"
    using window_adds_either [OF assms(5,6)] by blast
  then show ?thesis using encodes_claim [OF assms(1)] last assms(4) by cases fastforce+
qed

lemma cursor_inv_step:
  assumes "codec_ok (lib P)" and "log_ok L" and "source_ok P L" and "producer_ok P"
    and inv: "cursor_inv P s" and "cdc_step P s t"
  shows "cursor_inv P t"
proof -
  consider (turn) r where "job_turn P s = (r, t)"
    | (restart) "t = start_job P (resume_point P (out_topic s)) (j_now s) (out_topic s) (j_log s)"
    using assms(6) by (auto elim: cdc_stepE)
  then show ?thesis
  proof cases
    case turn
    have enc: "same_enc (base_enc P) (enc s)" and max: "checkpoint s \<noteq> -1" using inv by (auto simp: cursor_inv_def)
    note cs = job_turn_cases [OF turn assms(3,4) enc]
    show ?thesis
    proof (cases "out_topic t = out_topic s \<and> checkpoint t = checkpoint s")
      case True
      with cs inv show ?thesis by (simp add: cursor_inv_def)
    next
      case False
      then obtain events new closed where w: "window L (checkpoint s) events"
        "window_adds P events (checkpoint s) new closed" "out_topic t = out_topic s @ new"
        "checkpoint t = (if closed then ce_Timestamp (last events) else checkpoint s)"
        using cs by blast
      note claims = window_claims [OF assms(1,2) w(1) max w(2)]
      have ne: "events \<noteq> []" using w(1) by (simp add: window_def)
      have grow: "checkpoint s \<le> resume_point P (out_topic t)"
      proof -
        have "\<forall>rec \<in> set new. \<exists>d. recordCheckpoint (lib P) (o_Value rec) = Some d \<and> checkpoint s \<le> d"
          using claims by blast
        from resume_append [OF _ this, of "out_topic s"] inv w(3) show ?thesis by (simp add: cursor_inv_def)
      qed
      have "ce_Timestamp (last events) \<le> resume_point P (out_topic t)" if cl: closed
      proof -
        obtain rest rec where rr: "new = rest @ [rec]" "encodes P (last events) (ce_Timestamp (last events)) rec"
          using window_adds_closed [of P events "checkpoint s" new] w(2) cl by auto
        from resume_closing [OF encodes_claim [OF assms(1) rr(2)], of "out_topic s @ rest"] show ?thesis
          using w(3) rr(1) by simp
      qed
      moreover have "ce_Timestamp (last events) \<noteq> -1"
        using window_ts [OF assms(2) w(1) max last_in_set [OF ne]] by simp
      ultimately show ?thesis
        using cs inv grow claims w(3,4) max by (fastforce simp: cursor_inv_def)
    qed
  next
    case restart
    have "resume_point P (out_topic s) \<noteq> -1"
      using resume_point_claim [of P "out_topic s"] inv by (auto simp: cursor_inv_def)
    with restart inv show ?thesis by (simp add: cursor_inv_def start_job_def)
  qed
qed

lemma cursor_inv_start: "cursor_inv P (start_job P 0 0 [] [])"
  by (simp add: cursor_inv_def start_job_def)

lemma cursor_inv_reachable:
  assumes "codec_ok (lib P)" and "log_ok L" and "source_ok P L" and "producer_ok P" and "cdc_reaches P s"
  shows "cursor_inv P s"
  using assms(5) cursor_inv_start cursor_inv_step [OF assms(1-4)] by (rule reachable_invariant)

subsection \<open>Progress\<close>

text \<open>
  From a time on, nothing fails: the context is not cancelled, the source answers with as much as
  was asked for, every record lands, every message marshals, every wait ends.
\<close>

definition healthy_from :: "'u job_params \<Rightarrow> 'u change_event list \<Rightarrow> nat \<Rightarrow> bool" where
  "healthy_from P L T \<longleftrightarrow>
     (\<forall>t \<ge> T. \<not> ctx_done P t \<and> slept P t \<and>
        (\<forall>m n. query P t m n = Inr (take (unat n) (filter (\<lambda>e. m \<le> ce_Timestamp e) L))) \<and>
        (\<forall>recs. produce_at P t recs = (replicate (length recs) True, None))) \<and>
     (\<forall>cap msg. \<exists>b. MarshalEasyJSON (lib P) cap msg = Inr b) \<and>
     0 < BatchSize (j_cfg P) \<and> BatchSize (j_cfg P) < 2 ^ 32"

lemma Record_total:
  assumes "u128_ok (u128 G)" and "registry_ok (reg e)" and "\<forall>cap msg. \<exists>b. MarshalEasyJSON G cap msg = Inr b"
  shows "\<exists>rec e'. Record G ev c e = (Inr (Inr rec), e')"
proof -
  obtain msg where msg: "message_text G (reg e) ev c = Inr msg" using message_text_total [OF assms(1,2)] by blast
  let ?e = "fold (\<lambda>(k, v). warn_once k v) (gaps_of G (reg e) ev) e"
  obtain body fit where "MarshalEasyJSON G (scratch ?e) msg = Inr (body, fit)" using assms(3) by fastforce
  then obtain e2 where "marshal G msg ?e = (Inr body, e2)" by (cases fit) (auto simp: marshal_def)
  then show ?thesis by (simp add: Record_def message_of_split msg)
qed

lemma encode_window_total:
  assumes "u128_ok (u128 G)" and "registry_ok (reg b)" and "\<forall>cap msg. \<exists>b. MarshalEasyJSON G cap msg = Inr b"
    and "same_enc b e"
  shows "\<exists>recs e'. encode_window G evs c e = (Inr (Inr recs), e')"
  using assms(4)
proof (induction evs arbitrary: e)
  case (Cons ev evs)
  have "registry_ok (reg e)" using Cons.prems assms(2) by (simp add: same_enc_def)
  then obtain rec e1 where rec: "Record G ev c e = (Inr (Inr rec), e1)" using Record_total [OF assms(1) _ assms(3)] by blast
  from Cons.IH [OF Record_same [OF rec Cons.prems]] rec show ?case by auto
qed simp

lemma ProduceSync_healthy:
  "healthy_from P L T \<Longrightarrow> T \<le> j_now s \<Longrightarrow>
     \<exists>s'. ProduceSync P recs s = (None, s') \<and> enc s' = enc s \<and> T \<le> j_now s'"
  unfolding ProduceSync_def healthy_from_def by auto

lemma publish_healthy:
  assumes "healthy_from P L T" and "T \<le> j_now s" and "u128_ok (u128 (lib P))" and "registry_ok (j_reg P)"
    and "same_enc (base_enc P) (enc s)" and "events \<noteq> []"
  shows "\<exists>s'. publish P events c s = (Inr (Inr (ce_Timestamp (last events))), s') \<and> T \<le> j_now s'"
proof -
  have marsh: "\<forall>cap msg. \<exists>b. MarshalEasyJSON (lib P) cap msg = Inr b" using assms(1) by (simp add: healthy_from_def)
  have rg: "registry_ok (reg (base_enc P))" using assms(4) by (simp add: NewEncoder_def)
  obtain rest e1 where rest: "encode_window (lib P) (take (length events - Suc 0) events) c (enc s) = (Inr (Inr rest), e1)"
    using encode_window_total [OF assms(3) rg marsh assms(5)] by blast
  note e1 = encode_window_same [OF rest assms(5)]
  let ?s1 = "s\<lparr>enc := e1\<rparr>"
  obtain s2 where s2: "(if rest \<noteq> [] then ProduceSync P rest ?s1 else (None, ?s1)) = (None, s2)" "enc s2 = e1" "T \<le> j_now s2"
    using ProduceSync_healthy [OF assms(1), of ?s1 rest] assms(2) by (cases "rest = []") auto
  have "registry_ok (reg e1)" using rg e1 by (simp add: same_enc_def)
  then obtain rec e3 where rec: "Record (lib P) (last events) (ce_Timestamp (last events)) e1 = (Inr (Inr rec), e3)"
    using Record_total [OF assms(3) _ marsh] by blast
  obtain s4 where "ProduceSync P [rec] (s2\<lparr>enc := e3\<rparr>) = (None, s4)" "T \<le> j_now s4"
    using ProduceSync_healthy [OF assms(1), of "s2\<lparr>enc := e3\<rparr>" "[rec]"] s2(3) by auto
  moreover have "events ! (length events - Suc 0) = last events" using assms(6) by (simp add: last_conv_nth)
  ultimately show ?thesis using rest s2(1,2) rec by (auto simp: publish_def Let_def)
qed

lemma ascending_sorted: "sorted_wrt (<) (map ce_Timestamp es) \<Longrightarrow> ascending_from i es = None"
  by (induction i es rule: ascending_from.induct) auto

abbreviation pending :: "'u change_event list \<Rightarrow> u64 \<Rightarrow> 'u change_event list" where
  "pending L c \<equiv> filter (\<lambda>e. c + 1 \<le> ce_Timestamp e) L"

lemma filter_fewer:
  "\<forall>x \<in> set xs. Q x \<longrightarrow> R x \<Longrightarrow> \<exists>x \<in> set xs. R x \<and> \<not> Q x \<Longrightarrow> length (filter Q xs) < length (filter R xs)"
proof (induction xs)
  case (Cons x xs)
  have "length (filter Q xs) \<le> length (filter R xs)"
    using Cons.prems(1) by (induction xs) auto
  then show ?case using Cons by auto
qed simp

lemma pending_shrinks:
  assumes "log_ok L" and "c \<noteq> -1" and "ev \<in> set (pending L c)"
  shows "length (pending L (ce_Timestamp ev)) < length (pending L c)"
proof (rule filter_fewer)
  have ev: "ev \<in> set L" "c + 1 \<le> ce_Timestamp ev" using assms(3) by auto
  then have "ce_Timestamp ev \<noteq> -1" using assms(1) by (auto simp: log_ok_def)
  then have lt: "ce_Timestamp ev < ce_Timestamp ev + 1" by (rule u64_less_Suc)
  show "\<forall>e \<in> set L. ce_Timestamp ev + 1 \<le> ce_Timestamp e \<longrightarrow> c + 1 \<le> ce_Timestamp e"
    using lt ev(2) by auto
  show "\<exists>e \<in> set L. c + 1 \<le> ce_Timestamp e \<and> \<not> ce_Timestamp ev + 1 \<le> ce_Timestamp e"
    using ev lt by (intro bexI [of _ ev]) auto
qed

text \<open>One healthy turn: nothing is pending, or the cursor moves on.\<close>

lemma healthy_turn:
  assumes "healthy_from P L T" and "T \<le> j_now s" and "u128_ok (u128 (lib P))" and "registry_ok (j_reg P)"
    and "same_enc (base_enc P) (enc s)" and "log_ok L" and "checkpoint s \<noteq> -1"
  shows "\<exists>s'. job_turn P s = (Again, s') \<and> T \<le> j_now s' \<and>
    (if pending L (checkpoint s) = [] then checkpoint s' = checkpoint s
     else length (pending L (checkpoint s')) < length (pending L (checkpoint s)))"
proof -
  let ?n = "unat (word_of_int (BatchSize (j_cfg P)) :: u32)"
  let ?evs = "take ?n (pending L (checkpoint s))"
  have h: "\<not> ctx_done P t" "slept P t" "query P t m n = Inr (take (unat n) (filter (\<lambda>e. m \<le> ce_Timestamp e) L))"
    if "T \<le> t" for t m n
    using assms(1) that by (auto simp: healthy_from_def)
  have n: "0 < ?n"
  proof -
    have "uint (word_of_int (BatchSize (j_cfg P)) :: u32) = BatchSize (j_cfg P)"
      using assms(1) by (simp add: healthy_from_def uint_word_of_int)
    then show ?thesis using assms(1) by (simp add: healthy_from_def flip: nat_uint_eq)
  qed
  show ?thesis
  proof (cases "pending L (checkpoint s) = []")
    case True
    then show ?thesis using h assms(2) by (simp add: job_turn_def Let_def)
  next
    case False
    then have ne: "?evs \<noteq> []" using n by simp
    have "sorted_wrt (<) (map ce_Timestamp (pending L (checkpoint s)))"
      using assms(6) by (auto simp: log_ok_def sorted_wrt_map intro: sorted_wrt_filter)
    then have "sorted_wrt (<) (map ce_Timestamp ?evs)" by (simp add: sorted_wrt_take flip: take_map)
    then have asc: "ascending ?evs = None" by (simp add: ascending_def ascending_sorted)
    let ?s1 = "s\<lparr>j_now := Suc (j_now s), queryStuck := 0\<rparr>"
    obtain s2 where s2: "publish P ?evs (checkpoint s) ?s1 = (Inr (Inr (ce_Timestamp (last ?evs))), s2)" "T \<le> j_now s2"
      using publish_healthy [OF assms(1) _ assms(3,4) _ ne, of ?s1 "checkpoint s"] assms(2,5) by auto
    have "query P (j_now s) (checkpoint s + 1) (word_of_int (BatchSize (j_cfg P))) = Inr ?evs"
      using h(3) assms(2) by blast
    then have "job_turn P s = (Again, s2\<lparr>checkpoint := ce_Timestamp (last ?evs), stuck := 0, j_delay := Initial (j_retry P)\<rparr>)"
      using h(1) [OF assms(2)] ne asc s2(1) unfolding job_turn_def Let_def by (cases ?evs) simp_all
    moreover have "last ?evs \<in> set (pending L (checkpoint s))"
      using ne by (meson last_in_set in_set_takeD)
    ultimately show ?thesis
      using pending_shrinks [OF assms(6,7)] s2(2) False by simp
  qed
qed

lemma cdc_reaches_turn: "cdc_reaches P s \<Longrightarrow> job_turn P s = (r, t) \<Longrightarrow> cdc_reaches P t"
  using reachable.next_state take_turn by metis

lemma healthy_run:
  assumes "codec_ok (lib P)" and "log_ok L" and "source_ok P L" and "producer_ok P"
    and "u128_ok (u128 (lib P))" and "registry_ok (j_reg P)" and "healthy_from P L T"
  shows "cdc_reaches P s \<Longrightarrow> T \<le> j_now s \<Longrightarrow> length (pending L (checkpoint s)) \<le> n \<Longrightarrow>
    \<exists>s'. run_job n P s = (Again, s') \<and> cdc_reaches P s' \<and> pending L (checkpoint s') = []"
proof (induction n arbitrary: s)
  case (Suc n)
  have "cursor_inv P s" using cursor_inv_reachable [OF assms(1-4) Suc.prems(1)] .
  then have c: "same_enc (base_enc P) (enc s)" "checkpoint s \<noteq> -1" by (auto simp: cursor_inv_def)
  obtain s1 where s1: "job_turn P s = (Again, s1)" "T \<le> j_now s1"
    "if pending L (checkpoint s) = [] then checkpoint s1 = checkpoint s
     else length (pending L (checkpoint s1)) < length (pending L (checkpoint s))"
    using healthy_turn [OF assms(7) Suc.prems(2) assms(5,6) c(1) assms(2) c(2)] by blast
  have "length (pending L (checkpoint s1)) \<le> n" using s1(3) Suc.prems(3) by (auto split: if_splits)
  from Suc.IH [OF cdc_reaches_turn [OF Suc.prems(1) s1(1)] s1(2) this] s1(1) show ?case by simp
qed auto

subsection \<open>Refusing a disordered window\<close>

definition first_descent :: "'u change_event list \<Rightarrow> nat \<Rightarrow> bool" where
  "first_descent es i \<longleftrightarrow> 0 < i \<and> i < length es \<and> ce_Timestamp (es ! i) \<le> ce_Timestamp (es ! (i - 1)) \<and>
     (\<forall>j < i - 1. ce_Timestamp (es ! j) < ce_Timestamp (es ! Suc j))"

lemma ascending_from_Some:
  "ascending_from k es = Some i \<longleftrightarrow> k \<le> i \<and> first_descent es (Suc (i - k))"
proof (induction k es rule: ascending_from.induct)
  case (1 k e1 e2 es)
  show ?case
  proof (cases "ce_Timestamp e2 \<le> ce_Timestamp e1")
    case True
    then have "\<not> first_descent (e1 # e2 # es) (Suc d)" if "0 < d" for d
      using that by (auto simp: first_descent_def intro!: exI [of _ 0])
    moreover have "first_descent (e1 # e2 # es) (Suc 0)" using True by (simp add: first_descent_def)
    ultimately have "k \<le> i \<and> first_descent (e1 # e2 # es) (Suc (i - k)) \<longleftrightarrow> i = k"
      by (cases "k < i") (auto simp: not_less)
    then show ?thesis using True by auto
  next
    case False
    have shift: "first_descent (e1 # e2 # es) (Suc (Suc d)) \<longleftrightarrow> first_descent (e2 # es) (Suc d)" for d
      using False by (auto simp: first_descent_def All_less_Suc2)
    have no: "\<not> first_descent (e1 # e2 # es) (Suc 0)" using False by (simp add: first_descent_def)
    show ?thesis
    proof (cases "Suc k \<le> i")
      case True
      then have "i - k = Suc (i - Suc k)" by simp
      then show ?thesis using 1 False True shift by simp
    next
      case ge: False
      then show ?thesis using 1 False no by (cases "k = i") auto
    qed
  qed
qed (auto simp: first_descent_def)

lemma ascending_Some: "ascending es = Some i \<longleftrightarrow> first_descent es i"
  unfolding ascending_def ascending_from_Some by (auto simp: first_descent_def Suc_le_eq)

lemma retry_later_no_error: "fst (retry_later P s) \<noteq> Return (Some err)"
  by (auto simp: retry_later_def Let_def split: sum.splits if_splits)

lemma job_turn_error:
  "fst (job_turn P s) = Return (Some err) \<longleftrightarrow>
     \<not> ctx_done P (j_now s) \<and>
     (\<exists>evs i. query P (j_now s) (checkpoint s + 1) (word_of_int (BatchSize (j_cfg P))) = Inr evs \<and>
        ascending evs = Some i \<and> err = NotAscending i \<and>
        snd (job_turn P s) = s\<lparr>j_now := Suc (j_now s), queryStuck := 0, j_log := j_log s @ [OutOfOrderWindow]\<rparr>)"
proof (cases "ctx_done P (j_now s)")
  case True
  then show ?thesis by (simp add: job_turn_def)
next
  case go: False
  let ?q = "query P (j_now s) (checkpoint s + 1) (word_of_int (BatchSize (j_cfg P)))"
  show ?thesis
  proof (cases ?q)
    case (Inl e)
    then show ?thesis using go retry_later_no_error by (simp add: job_turn_def Let_def)
  next
    case (Inr events)
    show ?thesis
    proof (cases events)
      case Nil
      then show ?thesis using go Inr by (simp add: job_turn_def Let_def ascending_def)
    next
      case (Cons ev evs)
      show ?thesis
      proof (cases "ascending events")
        case None
        then show ?thesis using go Inr Cons retry_later_no_error
          by (auto simp: job_turn_def Let_def split: prod.split sum.split)
      next
        case (Some i)
        then show ?thesis using go Inr Cons by (auto simp: job_turn_def Let_def)
      qed
    qed
  qed
qed

text \<open>Partitions without a record add no claim.\<close>

lemma resume_point_over:
  assumes "part_of P ` set tp \<subseteq> set ps"
  shows "Max (insert 0 (tail_claims (lib P) (partition_log P tp) (set ps))) = resume_point P tp"
proof -
  have "p \<in> part_of P ` set tp" if "partition_log P tp p \<noteq> []" for p
    using that by (auto simp: partition_log_def filter_empty_conv)
  then have "tail_claims (lib P) (partition_log P tp) (set ps) =
      tail_claims (lib P) (partition_log P tp) (part_of P ` set tp)"
    using assms unfolding tail_claims_def by blast
  then show ?thesis by (simp add: resume_point_def)
qed

subsection \<open>Properties\<close>

text \<open>
  C7: the topic never claims past a gap. However the source's answers are cut, whatever fails to
  publish, whenever the job crashes, returns or is restarted from its topic: a record of the
  topic that claims a checkpoint is there only when every event of the log up to that checkpoint
  is in the topic too.
\<close>

theorem claims_are_never_past_a_gap:
  assumes "codec_ok (lib P)" and "log_ok L" and "source_ok P L" and "producer_ok P" and "cdc_reaches P s"
    and "rec \<in> set (out_topic s)" and "recordCheckpoint (lib P) (o_Value rec) = Some c"
    and "ev \<in> set L" and "ce_Timestamp ev \<le> c"
  shows "\<exists>rec' \<in> set (out_topic s). \<exists>d. encodes P ev d rec'"
  using job_inv_reachable [OF assms(1-5)] assms(6-9)
  unfolding job_inv_def honest_def complete_def published_def by blast

text \<open>
  C8: a restart loses nothing and repeats at most what the cursor has not passed: in every state
  the job can reach, \<^verbatim>\<open>Resume\<close>, over any partitions that hold the topic, any retention at their
  heads and a consumer that delivers the records from the offsets it is told to start at, finds
  a cursor at or after the one the job holds, and every event up to the one it finds has been
  published.
\<close>

theorem restart_is_at_or_after_the_cursor:
  assumes "codec_ok (lib P)" and "log_ok L" and "source_ok P L" and "producer_ok P" and "cdc_reaches P s"
    and "distinct ps" and "part_of P ` set (out_topic s) \<subseteq> set ps"
    and "delivers start (\<lambda>p. partition_log P (out_topic s) p @ added p) consume"
  shows "\<exists>c. Resume (lib P) None (Inr (starts_of start ps)) (Inr (ends_of start (partition_log P (out_topic s)) ps))
           None consume = Some (Inr c) \<and> checkpoint s \<le> c \<and>
    (\<forall>ev \<in> set L. ce_Timestamp ev \<le> c \<longrightarrow> published P (out_topic s) ev)"
proof -
  have inv: "job_inv P L s" using job_inv_reachable [OF assms(1-5)] .
  have "complete P L (out_topic s) (resume_point P (out_topic s))"
    using resume_point_claim [of P "out_topic s"] inv assms(2)
    unfolding job_inv_def honest_def by (auto simp: complete_def log_ok_def)
  then show ?thesis
    using cursor_inv_reachable [OF assms(1-5)] Resume_tails [OF assms(6,8), of "lib P"]
      resume_point_over [OF assms(7)]
    by (auto simp: cursor_inv_def complete_def)
qed

text \<open>
  C9: every event reaches the topic: from any state a history of failures, crashes and restarts
  can leave, once the source answers, the records land and the waits end, as many turns as the
  log has events publish all of it, and the job is still running.
\<close>

theorem every_event_reaches_the_topic:
  assumes "codec_ok (lib P)" and "log_ok L" and "source_ok P L" and "producer_ok P"
    and "u128_ok (u128 (lib P))" and "registry_ok (j_reg P)" and "cdc_reaches P s"
    and "healthy_from P L (j_now s)"
  shows "\<exists>s'. run_job (length L) P s = (Again, s') \<and> (\<forall>ev \<in> set L. published P (out_topic s') ev)"
proof -
  obtain s' where s': "run_job (length L) P s = (Again, s')" "cdc_reaches P s'" "pending L (checkpoint s') = []"
    using healthy_run [OF assms(1-6,8,7) order_refl length_filter_le] by blast
  have "published P (out_topic s') ev" if ev: "ev \<in> set L" for ev
  proof -
    have "\<not> checkpoint s' + 1 \<le> ce_Timestamp ev" using s'(3) ev by (simp add: filter_empty_conv)
    then have "ce_Timestamp ev \<le> checkpoint s'" by (metis add.commute inc_le not_less word_le_less_eq)
    then show ?thesis
      using job_inv_reachable [OF assms(1-4) s'(2)] ev by (simp add: job_inv_def complete_def)
  qed
  then show ?thesis using s'(1) by blast
qed

text \<open>
  C10: a turn ends the job with an error exactly when the source's answer is not in strictly
  ascending order, the error names the first event that does not follow its predecessor, and
  nothing is published and the cursor stays. Every other failure is retried or ends a shutdown.
\<close>

theorem only_a_disordered_window_stops_the_job:
  "fst (job_turn P s) = Return (Some err) \<longleftrightarrow>
     \<not> ctx_done P (j_now s) \<and>
     (\<exists>evs i. query P (j_now s) (checkpoint s + 1) (word_of_int (BatchSize (j_cfg P))) = Inr evs \<and>
        first_descent evs i \<and> err = NotAscending i \<and>
        snd (job_turn P s) = s\<lparr>j_now := Suc (j_now s), queryStuck := 0, j_log := j_log s @ [OutOfOrderWindow]\<rparr>)"
  unfolding job_turn_error ascending_Some ..

subsection \<open>Witnesses\<close>

definition demo_events :: "128 word change_event list" where
  "demo_events = [event_at 5, event_at 9]"

definition demo_job :: "128 word job_params" where
  "demo_job = \<lparr> lib = demo_lib, j_cfg = CDC sample_config, j_retry = Retry sample_config,
     j_reg = sample_registry,
     query = (\<lambda>_ m n. Inr (take (unat n) (filter (\<lambda>e. m \<le> ce_Timestamp e) demo_events))),
     produce_at = (\<lambda>_ recs. (replicate (length recs) True, None)),
     ctx_done = (\<lambda>_. False), slept = (\<lambda>_. True), Int63n = (\<lambda>_. 0), part_of = (\<lambda>_. 0) \<rparr>"

lemma demo_job_ok:
  "codec_ok (lib demo_job)" "log_ok demo_events" "source_ok demo_job demo_events" "producer_ok demo_job"
  "u128_ok (u128 (lib demo_job))" "registry_ok (j_reg demo_job)" "healthy_from demo_job demo_events t"
proof -
  show "codec_ok (lib demo_job)" by (simp add: demo_job_def demo_codec_ok)
  show "log_ok demo_events" by (simp add: log_ok_def demo_events_def event_at_def)
  show "source_ok demo_job demo_events" by (auto simp: source_ok_def demo_job_def take_is_prefix)
  show "producer_ok demo_job" by (simp add: producer_ok_def demo_job_def)
  show "u128_ok (u128 (lib demo_job))" by (simp add: demo_job_def demo_lib_def word_u128_ok)
  show "registry_ok (j_reg demo_job)" by (simp add: demo_job_def sample_registry_ok)
  show "healthy_from demo_job demo_events t"
    by (auto simp: healthy_from_def demo_job_def demo_lib_def sample_config_def)
qed

abbreviation demo_start :: job_state where
  "demo_start \<equiv> start_job demo_job 0 0 [] []"

theorem every_event_reaches_the_topic_witness:
  "\<exists>s'. run_job 2 demo_job demo_start = (Again, s') \<and> published demo_job (out_topic s') (event_at 9)"
  using every_event_reaches_the_topic [OF demo_job_ok(1-6) reachable.start demo_job_ok(7)]
  by (simp add: demo_events_def numeral_2_eq_2) metis

text \<open>A state with both events in the topic, the second one closing the window.\<close>

lemma demo_turn:
  "\<exists>s. cdc_reaches demo_job s \<and> checkpoint s = 9 \<and>
     (\<exists>rec \<in> set (out_topic s). recordCheckpoint (lib demo_job) (o_Value rec) = Some 9)"
proof -
  have "query demo_job 0 (0 + 1) (word_of_int (BatchSize (j_cfg demo_job))) = Inr demo_events"
    by (simp add: demo_job_def demo_events_def event_at_def sample_config_def)
  let ?s1 = "demo_start\<lparr>j_now := 1, queryStuck := 0\<rparr>"
  obtain s2 where s2: "publish demo_job demo_events 0 ?s1 = (Inr (Inr (ce_Timestamp (last demo_events))), s2)"
    using publish_healthy [OF demo_job_ok(7) _ demo_job_ok(5,6), of 0 ?s1 demo_events 0]
    by (auto simp: start_job_def demo_events_def)
  have "same_enc (base_enc demo_job) (enc ?s1)" by (simp add: start_job_def)
  from publish_spec [OF s2 _ this demo_job_ok(4)]
  obtain new where new: "out_topic s2 = new" "window_adds demo_job demo_events 0 new True"
    by (auto simp: demo_events_def start_job_def)
  let ?s = "s2\<lparr>checkpoint := 9, stuck := 0, j_delay := Initial (j_retry demo_job)\<rparr>"
  have "job_turn demo_job demo_start = (Again, ?s)"
    using s2 \<open>query demo_job 0 _ _ = _\<close>
    by (simp add: job_turn_def Let_def start_job_def demo_events_def ascending_def event_at_def)
      (simp add: demo_job_def)
  then have "cdc_reaches demo_job ?s" using cdc_reaches_turn reachable.start by metis
  moreover obtain rest rec where "new = rest @ [rec]" "encodes demo_job (event_at 9) 9 rec"
    using window_adds_closed [OF new(2)] by (auto simp: demo_events_def event_at_def)
  ultimately show ?thesis
    using new(1) encodes_claim [OF demo_job_ok(1)] by (intro exI [of _ ?s]) auto
qed

theorem claims_are_never_past_a_gap_witness:
  "\<exists>s rec d. cdc_reaches demo_job s \<and> rec \<in> set (out_topic s) \<and> encodes demo_job (event_at 5) d rec"
proof -
  obtain s rec where s: "cdc_reaches demo_job s" "rec \<in> set (out_topic s)"
    "recordCheckpoint (lib demo_job) (o_Value rec) = Some 9"
    using demo_turn by blast
  then show ?thesis
    using claims_are_never_past_a_gap [OF demo_job_ok(1-4) s, of "event_at 5"]
    by (auto simp: demo_events_def event_at_def)
qed

theorem restart_is_at_or_after_the_cursor_witness:
  "\<exists>s c. cdc_reaches demo_job s \<and> checkpoint s = 9 \<and>
     Resume demo_lib None (Inr (starts_of (\<lambda>_. 0) [0, 1])) (Inr (ends_of (\<lambda>_. 0) (partition_log demo_job (out_topic s)) [0, 1]))
       None (poll_all (\<lambda>_. 0) (partition_log demo_job (out_topic s))) = Some (Inr c) \<and> 9 \<le> c"
proof -
  obtain s where s: "cdc_reaches demo_job s" "checkpoint s = 9" "out_topic s \<noteq> []"
    using demo_turn by (metis empty_iff list.set(1))
  let ?log = "partition_log demo_job (out_topic s)"
  have ps: "distinct [0, 1 :: int]" "part_of demo_job ` set (out_topic s) \<subseteq> set [0, 1]"
    by (auto simp: demo_job_def)
  have deliv: "delivers (\<lambda>_. 0) (\<lambda>p. ?log p @ []) (poll_all (\<lambda>_. 0) ?log)"
    using poll_all_delivers by simp
  obtain c where "Resume (lib demo_job) None (Inr (starts_of (\<lambda>_. 0) [0, 1])) (Inr (ends_of (\<lambda>_. 0) ?log [0, 1]))
       None (poll_all (\<lambda>_. 0) ?log) = Some (Inr c)" "checkpoint s \<le> c"
    using restart_is_at_or_after_the_cursor [OF demo_job_ok(1-4) s(1) ps, of "\<lambda>_. 0" "\<lambda>_. []", OF deliv]
    by (elim exE conjE)
  moreover have "lib demo_job = demo_lib" by (simp add: demo_job_def)
  ultimately show ?thesis using s(1,2) by (metis (no_types))
qed

end
