(* ===== verification/Decoder.thy ===== *)
theory Decoder
  imports Ids Amount Registry Outcome "HOL-Library.Sublist"
begin

section \<open>Decoding a message: \<^verbatim>\<open>internal/codec/jsonc/decoder.go\<close>, \<^verbatim>\<open>internal/codec\<close>\<close>

text \<open>
  From a payload to a command. The generated JSON reader (\<open>Wire\<close> puts it in place), the client library's flag masks and
  the one floating-point product of \<^verbatim>\<open>time.ParseDuration\<close> are parameters; the rest of that
  function is modelled. Every error of the decoder is poison; the constructors say which.
\<close>

subsection \<open>What a message holds\<close>

record json_transfer =
  jt_ID :: string
  jt_DebitAccountID :: string
  jt_CreditAccountID :: string
  jt_PendingID :: string
  jt_Amount :: string
  jt_Ledger :: string
  jt_Code :: string
  jt_Flags :: "string slice"
  jt_UserData128 :: string
  jt_UserData64 :: u64
  jt_UserData32 :: u32
  jt_Timeout :: string

record json_account =
  ja_ID :: string
  ja_Ledger :: string
  ja_Code :: string
  ja_Flags :: "string slice"
  ja_UserData128 :: string
  ja_UserData64 :: u64
  ja_UserData32 :: u32

record json_message =
  Operation :: string
  jm_Transfers :: "json_transfer slice"
  jm_Accounts :: "json_account slice"

record decoder =
  d_reg :: registry
  d_lim :: limits_cfg

text \<open>\<open>float_part f unit scale\<close> is \<^verbatim>\<open>uint64(float64(f) * (float64(unit) / scale))\<close>.\<close>

record 'u decode_lib =
  d_u128 :: "'u u128_api"
  d_uuid :: uuid_api
  transfer_ToUint16 :: "transfer_flags \<Rightarrow> u16"
  account_ToUint16 :: "account_flags \<Rightarrow> u16"
  unmarshal_message :: "string \<Rightarrow> panic + (string + json_message)"
  float_part :: "nat \<Rightarrow> nat \<Rightarrow> nat \<Rightarrow> nat"

subsection \<open>Timeouts\<close>

text \<open>
  \<^verbatim>\<open>time.ParseDuration\<close>. \<open>leading_int\<close> refuses a value above \<open>2 ^ 63\<close>; \<open>leading_fraction\<close>
  ignores digits beyond that precision.
\<close>

fun leading_int :: "nat \<Rightarrow> string \<Rightarrow> (nat \<times> string) option" where
  "leading_int x [] = Some (x, [])"
| "leading_int x (c # s) =
     (if \<not> is_digit c then Some (x, c # s)
      else if x > 2 ^ 63 div 10 then None
      else if x * 10 + digit_val c > 2 ^ 63 then None
      else leading_int (x * 10 + digit_val c) s)"

fun leading_fraction :: "nat \<Rightarrow> nat \<Rightarrow> bool \<Rightarrow> string \<Rightarrow> nat \<times> nat \<times> string" where
  "leading_fraction x scale overflow [] = (x, scale, [])"
| "leading_fraction x scale overflow (c # s) =
     (if \<not> is_digit c then (x, scale, c # s)
      else if overflow \<or> x > (2 ^ 63 - 1) div 10 \<or> x * 10 + digit_val c > 2 ^ 63 then leading_fraction x scale True s
      else leading_fraction (x * 10 + digit_val c) (scale * 10) False s)"

definition unitMap :: "string \<Rightarrow> nat option" where
  "unitMap = map_of
     [(''ns'', 1), (''us'', 1000), ([CHR 0xC2, CHR 0xB5, CHR ''s''], 1000), ([CHR 0xCE, CHR 0xBC, CHR ''s''], 1000),
      (''ms'', 1000000), (''s'', 1000000000), (''m'', 60000000000), (''h'', 3600000000000)]"

text \<open>One number with its unit: its nanoseconds and the rest.\<close>

definition duration_term :: "(nat \<Rightarrow> nat \<Rightarrow> nat \<Rightarrow> nat) \<Rightarrow> string \<Rightarrow> (nat \<times> string) option" where
  "duration_term float s =
     (if s = [] \<or> \<not> (hd s = CHR ''.'' \<or> is_digit (hd s)) then None
      else case leading_int 0 s of None \<Rightarrow> None | Some (v, s1) \<Rightarrow>
      (let pre = length s1 \<noteq> length s;
           (f, scale, s2, post) =
             (if s1 \<noteq> [] \<and> hd s1 = CHR ''.''
              then (case leading_fraction 0 1 False (tl s1) of (f, scale, s2) \<Rightarrow> (f, scale, s2, length s2 \<noteq> length (tl s1)))
              else (0, 1, s1, False));
           u = takeWhile (\<lambda>c. c \<noteq> CHR ''.'' \<and> \<not> is_digit c) s2
       in if \<not> pre \<and> \<not> post then None
          else if u = [] then None
          else case unitMap u of None \<Rightarrow> None | Some un \<Rightarrow>
            if v > 2 ^ 63 div un then None
            else (let w = v * un + (if f > 0 then float f un scale else 0)
                  in if w > 2 ^ 63 then None else Some (w, drop (length u) s2))))"

lemma leading_int_length: "leading_int x s = Some (v, s1) \<Longrightarrow> length s1 \<le> length s"
  by (induction x s rule: leading_int.induct) (auto split: if_splits)

lemma leading_fraction_length: "leading_fraction x k b s = (f, k', s1) \<Longrightarrow> length s1 \<le> length s"
  by (induction x k b s rule: leading_fraction.induct) (auto split: if_splits)

lemma duration_term_length: "duration_term float s = Some (v, s1) \<Longrightarrow> length s1 < length s"
  unfolding duration_term_def Let_def
  by (auto split: if_splits option.splits prod.splits dest!: leading_int_length leading_fraction_length)

text \<open>The loop over the terms; the sum is a \<^verbatim>\<open>uint64\<close>.\<close>

function duration_terms :: "(nat \<Rightarrow> nat \<Rightarrow> nat \<Rightarrow> nat) \<Rightarrow> nat \<Rightarrow> string \<Rightarrow> nat option" where
  "duration_terms float d s =
     (if s = [] then Some d
      else case duration_term float s of None \<Rightarrow> None | Some (v, s1) \<Rightarrow>
        (let d1 = (d + v) mod 2 ^ 64 in if d1 > 2 ^ 63 then None else duration_terms float d1 s1))"
  by pat_completeness auto

termination
  by (relation "measure (\<lambda>(float, d, s). length s)") (auto dest: duration_term_length)

declare duration_terms.simps [simp del]

definition ParseDuration :: "(nat \<Rightarrow> nat \<Rightarrow> nat \<Rightarrow> nat) \<Rightarrow> string \<Rightarrow> int option" where
  "ParseDuration float s =
     (let neg = s \<noteq> [] \<and> hd s = CHR ''-'';
          s1 = (if s \<noteq> [] \<and> (hd s = CHR ''-'' \<or> hd s = CHR ''+'') then tl s else s)
      in if s1 = ''0'' then Some 0
         else if s1 = [] then None
         else case duration_terms float 0 s1 of None \<Rightarrow> None | Some d \<Rightarrow>
           if neg then Some (int64 (- int64 (int d)))
           else if d > 2 ^ 63 - 1 then None
           else Some (int d))"

datatype timeout_error = BadDuration string | TimeoutNotPositive string | TimeoutOutOfRange string

definition parseTimeoutSeconds :: "(nat \<Rightarrow> nat \<Rightarrow> nat \<Rightarrow> nat) \<Rightarrow> string \<Rightarrow> timeout_error + u32" where
  "parseTimeoutSeconds float s =
     (case ParseDuration float s of
        None \<Rightarrow> Inl (BadDuration s)
      | Some d \<Rightarrow>
          if d \<le> 0 then Inl (TimeoutNotPositive s)
          else (let secs = d div Second in
                if secs = 0 \<or> secs > 2 ^ 32 - 1 then Inl (TimeoutOutOfRange s)
                else Inr (word_of_int secs)))"

subsection \<open>Nesting\<close>

datatype transfer_error =
    BadID id_error
  | BadName registry_error
  | BadAmount amount_error
  | PendingIDRequired
  | PendingIDNotAllowed
  | BadUserData128 id_error
  | BadTimeout timeout_error

datatype poison =
    PanicWhileDecoding panic
  | MessageTooLarge nat int
  | NestingTooDeep int
  | JSONError string
  | MustNotCarryAccounts
  | MustNotCarryTransfers
  | UnknownOperation string
  | EmptyTransfers
  | EmptyAccounts
  | TooManyEvents nat int
  | BadTransfer nat transfer_error
  | BadAccount nat transfer_error

text \<open>The loop of \<^verbatim>\<open>checkDepth\<close>, with its four variables.\<close>

fun depth_loop :: "int \<Rightarrow> int \<Rightarrow> int \<Rightarrow> bool \<Rightarrow> bool \<Rightarrow> string \<Rightarrow> poison option" where
  "depth_loop m depth maxSeen inStr esc [] = None"
| "depth_loop m depth maxSeen inStr esc (b # s) =
     (if esc then depth_loop m depth maxSeen inStr False s
      else if inStr \<and> b = CHR 0x5C then depth_loop m depth maxSeen inStr True s
      else if b = CHR 0x22 then depth_loop m depth maxSeen (\<not> inStr) esc s
      else if inStr then depth_loop m depth maxSeen inStr esc s
      else if b = CHR ''{'' \<or> b = CHR ''['' then
        (let maxSeen1 = (if depth + 1 > maxSeen then depth + 1 else maxSeen) in
         if maxSeen1 > m then Some (NestingTooDeep m) else depth_loop m (depth + 1) maxSeen1 inStr esc s)
      else if b = CHR ''}'' \<or> b = CHR '']'' then depth_loop m (depth - 1) maxSeen inStr esc s
      else depth_loop m depth maxSeen inStr esc s)"

definition checkDepth :: "string \<Rightarrow> int \<Rightarrow> poison option" where
  "checkDepth payload m = depth_loop m 0 0 False False payload"

subsection \<open>Events\<close>

text \<open>An event fails with an error of its own, or with a panic that \<^verbatim>\<open>Decode\<close> recovers.\<close>

datatype event_fail = Panicked panic | Failed transfer_error

text \<open>An amount that panics is a panic; its other errors are the event's.\<close>

definition amount_fail :: "amount_error \<Rightarrow> event_fail" where
  "amount_fail e = (case e of AmountPanic p \<Rightarrow> Panicked p | _ \<Rightarrow> Failed (BadAmount e))"

definition parse_id :: "'u decode_lib \<Rightarrow> string \<Rightarrow> event_fail + 'u" where
  "parse_id G s = mapE (\<lambda>e. Failed (BadID e)) (ParseID (d_u128 G) (d_uuid G) s)"

definition parse_id_if_given :: "'u decode_lib \<Rightarrow> string \<Rightarrow> event_fail + 'u" where
  "parse_id_if_given G s = (if s = [] then Inr (zero_id (d_u128 G)) else parse_id G s)"

definition user_data :: "'u decode_lib \<Rightarrow> string \<Rightarrow> event_fail + 'u" where
  "user_data G s =
     (if s = [] then Inr (zero_id (d_u128 G))
      else mapE (\<lambda>e. Failed (BadUserData128 e)) (ParseID (d_u128 G) (d_uuid G) s))"

text \<open>Pending id, debit account and credit account, by whether the transfer posts or voids.\<close>

definition parties :: "'u decode_lib \<Rightarrow> bool \<Rightarrow> json_transfer \<Rightarrow> event_fail + 'u \<times> 'u \<times> 'u" where
  "parties G postOrVoid jt =
     (if postOrVoid then
        if jt_PendingID jt = [] then Inl (Failed PendingIDRequired)
        else bindE (parse_id G (jt_PendingID jt)) (\<lambda>pending.
             bindE (parse_id_if_given G (jt_DebitAccountID jt)) (\<lambda>debit.
             bindE (parse_id_if_given G (jt_CreditAccountID jt)) (\<lambda>credit. Inr (pending, debit, credit))))
      else if jt_PendingID jt \<noteq> [] then Inl (Failed PendingIDNotAllowed)
      else bindE (parse_id G (jt_DebitAccountID jt)) (\<lambda>debit.
           bindE (parse_id G (jt_CreditAccountID jt)) (\<lambda>credit. Inr (zero_id (d_u128 G), debit, credit))))"

definition transfer :: "'u decode_lib \<Rightarrow> decoder \<Rightarrow> json_transfer \<Rightarrow> event_fail + 'u transfer" where
  "transfer G d jt =
     bindE (parse_id G (jt_ID jt)) (\<lambda>i.
     bindE (mapE (\<lambda>e. Failed (BadName e)) (TransferFlags (elems (jt_Flags jt)))) (\<lambda>flags.
     bindE (parties G (tf_PostPendingTransfer flags \<or> tf_VoidPendingTransfer flags) jt) (\<lambda>(pending, debit, credit).
     bindE (mapE (\<lambda>e. Failed (BadName e)) (Ledger (d_reg d) (jt_Ledger jt))) (\<lambda>l.
     bindE (mapE (\<lambda>e. Failed (BadName e)) (Code (d_reg d) (jt_Code jt))) (\<lambda>code.
     bindE (mapE amount_fail (ParseAmount (d_u128 G) (jt_Amount jt) (Scale l))) (\<lambda>amount.
     bindE (user_data G (jt_UserData128 jt)) (\<lambda>ud.
     bindE (if jt_Timeout jt = [] then Inr 0
            else mapE (\<lambda>e. Failed (BadTimeout e)) (parseTimeoutSeconds (float_part G) (jt_Timeout jt))) (\<lambda>secs.
     Inr \<lparr> t_ID = i, t_DebitAccountID = debit, t_CreditAccountID = credit, t_Amount = amount,
           t_PendingID = pending, t_UserData128 = ud, t_UserData64 = jt_UserData64 jt,
           t_UserData32 = jt_UserData32 jt, t_Timeout = secs, t_Ledger = ledger_ID l, t_Code = code,
           t_Flags = transfer_ToUint16 G flags \<rparr>))))))))"

text \<open>The body of the loop of \<^verbatim>\<open>decodeAccounts\<close>.\<close>

definition account :: "'u decode_lib \<Rightarrow> decoder \<Rightarrow> json_account \<Rightarrow> event_fail + 'u account" where
  "account G d ja =
     bindE (parse_id G (ja_ID ja)) (\<lambda>i.
     bindE (mapE (\<lambda>e. Failed (BadName e)) (Ledger (d_reg d) (ja_Ledger ja))) (\<lambda>l.
     bindE (mapE (\<lambda>e. Failed (BadName e)) (Code (d_reg d) (ja_Code ja))) (\<lambda>code.
     bindE (mapE (\<lambda>e. Failed (BadName e)) (AccountFlags (elems (ja_Flags ja)))) (\<lambda>flags.
     bindE (user_data G (ja_UserData128 ja)) (\<lambda>ud.
     Inr \<lparr> a_ID = i, a_UserData128 = ud, a_UserData64 = ja_UserData64 ja, a_UserData32 = ja_UserData32 ja,
           a_Ledger = ledger_ID l, a_Code = code, a_Flags = account_ToUint16 G flags \<rparr>)))))"

text \<open>A loop over a message's events, from index \<open>i\<close> on, that stops at the first failure.\<close>

fun decode_each :: "(nat \<Rightarrow> transfer_error \<Rightarrow> poison) \<Rightarrow> ('a \<Rightarrow> event_fail + 'b) \<Rightarrow> nat \<Rightarrow> 'a list \<Rightarrow> poison + 'b list" where
  "decode_each bad f i [] = Inr []"
| "decode_each bad f i (x # xs) =
     (case f x of
        Inl (Panicked p) \<Rightarrow> Inl (PanicWhileDecoding p)
      | Inl (Failed e) \<Rightarrow> Inl (bad i e)
      | Inr y \<Rightarrow> bindE (decode_each bad f (Suc i) xs) (\<lambda>ys. Inr (y # ys)))"

definition clearLinked :: "u16 \<Rightarrow> u16" where
  "clearLinked flags = and flags (not 1)"

definition clear_last_transfer :: "'u transfer list \<Rightarrow> 'u transfer list" where
  "clear_last_transfer ts =
     ts[length ts - 1 := (ts ! (length ts - 1))\<lparr>t_Flags := clearLinked (t_Flags (ts ! (length ts - 1)))\<rparr>]"

definition clear_last_account :: "'u account list \<Rightarrow> 'u account list" where
  "clear_last_account as =
     as[length as - 1 := (as ! (length as - 1))\<lparr>a_Flags := clearLinked (a_Flags (as ! (length as - 1)))\<rparr>]"

definition decodeTransfers :: "'u decode_lib \<Rightarrow> decoder \<Rightarrow> json_transfer list \<Rightarrow> poison + 'u command" where
  "decodeTransfers G d ts =
     (if ts = [] then Inl EmptyTransfers
      else if int (length ts) > MaxEventsPerMessage (d_lim d)
        then Inl (TooManyEvents (length ts) (MaxEventsPerMessage (d_lim d)))
      else bindE (decode_each BadTransfer (transfer G d) 0 ts) (\<lambda>out.
           Inr \<lparr> Op = OpCreateTransfers, Transfers = clear_last_transfer out, Accounts = [], IDs = map jt_ID ts \<rparr>))"

definition decodeAccounts :: "'u decode_lib \<Rightarrow> decoder \<Rightarrow> json_account list \<Rightarrow> poison + 'u command" where
  "decodeAccounts G d as =
     (if as = [] then Inl EmptyAccounts
      else if int (length as) > MaxEventsPerMessage (d_lim d)
        then Inl (TooManyEvents (length as) (MaxEventsPerMessage (d_lim d)))
      else bindE (decode_each BadAccount (account G d) 0 as) (\<lambda>out.
           Inr \<lparr> Op = OpCreateAccounts, Transfers = [], Accounts = clear_last_account out, IDs = map ja_ID as \<rparr>))"

text \<open>\<^verbatim>\<open>Decode\<close>; a panic anywhere below is recovered as poison.\<close>

definition Decode :: "'u decode_lib \<Rightarrow> decoder \<Rightarrow> string \<Rightarrow> poison + 'u command" where
  "Decode G d payload =
     (if int (length payload) > MaxMessageBytes (d_lim d)
      then Inl (MessageTooLarge (length payload) (MaxMessageBytes (d_lim d)))
      else case checkDepth payload (MaxJSONDepth (d_lim d)) of Some e \<Rightarrow> Inl e | None \<Rightarrow>
        (case unmarshal_message G payload of
           Inl p \<Rightarrow> Inl (PanicWhileDecoding p)
         | Inr (Inl e) \<Rightarrow> Inl (JSONError e)
         | Inr (Inr m) \<Rightarrow>
             if Operation m = OpCreateTransfers then
               if elems (jm_Accounts m) \<noteq> [] then Inl MustNotCarryAccounts else decodeTransfers G d (elems (jm_Transfers m))
             else if Operation m = OpCreateAccounts then
               if elems (jm_Transfers m) \<noteq> [] then Inl MustNotCarryTransfers else decodeAccounts G d (elems (jm_Accounts m))
             else Inl (UnknownOperation (Operation m))))"

subsection \<open>Choosing a decoder: \<^verbatim>\<open>internal/codec/codec.go\<close>\<close>

type_synonym 'd codec_registry = "string \<rightharpoonup> 'd"

definition For :: "'d codec_registry \<Rightarrow> string \<Rightarrow> 'd option" where
  "For r topic = r topic"

text \<open>\<^verbatim>\<open>NewRegistry\<close> over the configured topics; the error names the topic it could not serve.\<close>

definition NewCodecRegistry :: "topic_cfg list \<Rightarrow> (string \<Rightarrow> string + 'd) \<Rightarrow> (string \<times> string) + 'd codec_registry" where
  "NewCodecRegistry topics build =
     fold_err (\<lambda>r t. case build (topic_Codec t) of
         Inl e \<Rightarrow> Inl (topic_Name t, e)
       | Inr d \<Rightarrow> Inr (r(topic_Name t \<mapsto> d))) Map.empty topics"

subsection \<open>What a decoded event is\<close>

lemma decode_each_Inr: "decode_each bad f i xs = Inr ys \<Longrightarrow> list_all2 (\<lambda>x y. f x = Inr y) xs ys"
proof (induction xs arbitrary: i ys)
  case (Cons x xs)
  then show ?case by (auto simp: bindE_Inr split: sum.splits event_fail.splits)
qed simp

lemma bit_clearLinked: "bit (clearLinked f) n \<longleftrightarrow> bit f n \<and> n \<noteq> 0"
  using bit_imp_le_length [of f n] by (auto simp: clearLinked_def bit_and_iff bit_not_iff bit_1_iff)

lemma clearLinked_same: "\<not> bit f 0 \<Longrightarrow> clearLinked f = f"
  by (rule bit_word_eqI) (auto simp: bit_clearLinked intro!: gr0I)

lemma parse_id_Inr [simp]: "parse_id G s = Inr u \<longleftrightarrow> ParseID (d_u128 G) (d_uuid G) s = Inr u"
  by (simp add: parse_id_def)

definition libs_ok :: "'u decode_lib \<Rightarrow> bool" where
  "libs_ok G \<longleftrightarrow> u128_ok (d_u128 G) \<and> uuid_ok (d_uuid G) \<and> transfer_mask_ok (transfer_ToUint16 G) \<and>
     account_mask_ok (account_ToUint16 G)"

lemma libs_okD:
  assumes "libs_ok G"
  shows "u128_ok (d_u128 G)" and "uuid_ok (d_uuid G)"
    and "bit (transfer_ToUint16 G f) b = transfer_bits f b" and "bit (account_ToUint16 G g) b = account_bits g b"
  using assms by (simp_all add: libs_ok_def transfer_mask_ok_def account_mask_ok_def)

lemma nonzero_id: "libs_ok G \<Longrightarrow> ParseID (d_u128 G) (d_uuid G) s = Inr u \<Longrightarrow> u \<noteq> zero_id (d_u128 G)"
  using ParseID_nonzero(1) libs_okD(1,2) by metis

text \<open>
  What every transfer sent to TigerBeetle satisfies: an id, a registered ledger and code, a
  pending id exactly when it posts or voids, both accounts otherwise, and no flag that is not
  the producer's to set.
\<close>

definition transfer_ok :: "'u decode_lib \<Rightarrow> registry \<Rightarrow> 'u transfer \<Rightarrow> bool" where
  "transfer_ok G r t \<longleftrightarrow>
     t_ID t \<noteq> zero_id (d_u128 G) \<and>
     (\<exists>n l. Ledger r n = Inr l \<and> ledger_ID l = t_Ledger t) \<and> (\<exists>n. Code r n = Inr (t_Code t)) \<and>
     (if bit (t_Flags t) 2 \<or> bit (t_Flags t) 3 then t_PendingID t \<noteq> zero_id (d_u128 G)
      else t_PendingID t = zero_id (d_u128 G) \<and> t_DebitAccountID t \<noteq> zero_id (d_u128 G) \<and>
        t_CreditAccountID t \<noteq> zero_id (d_u128 G)) \<and>
     (\<forall>b. bit (t_Flags t) b \<longrightarrow> b < 8)"

definition account_ok :: "'u decode_lib \<Rightarrow> registry \<Rightarrow> 'u account \<Rightarrow> bool" where
  "account_ok G r a \<longleftrightarrow>
     a_ID a \<noteq> zero_id (d_u128 G) \<and>
     (\<exists>n l. Ledger r n = Inr l \<and> ledger_ID l = a_Ledger a) \<and> (\<exists>n. Code r n = Inr (a_Code a)) \<and>
     (\<forall>b. bit (a_Flags a) b \<longrightarrow> b \<in> {0, 1, 2, 3, 5})"

lemma parties_ok:
  assumes "libs_ok G" and "parties G pv jt = Inr (pending, debit, credit)"
  shows "if pv then pending \<noteq> zero_id (d_u128 G)
     else pending = zero_id (d_u128 G) \<and> debit \<noteq> zero_id (d_u128 G) \<and> credit \<noteq> zero_id (d_u128 G)"
  using assms(2) by (auto simp: parties_def bindE_Inr dest: nonzero_id [OF assms(1)] split: if_splits)

lemma transfer_sound:
  assumes "libs_ok G" and "transfer G d jt = Inr t"
  shows "transfer_ok G (d_reg d) t \<and> ParseID (d_u128 G) (d_uuid G) (jt_ID jt) = Inr (t_ID t)"
proof -
  obtain flags pending debit credit l where t: "ParseID (d_u128 G) (d_uuid G) (jt_ID jt) = Inr (t_ID t)"
    "t_Flags t = transfer_ToUint16 G flags"
    "parties G (tf_PostPendingTransfer flags \<or> tf_VoidPendingTransfer flags) jt = Inr (pending, debit, credit)"
    "Ledger (d_reg d) (jt_Ledger jt) = Inr l" "t_Ledger t = ledger_ID l" "Code (d_reg d) (jt_Code jt) = Inr (t_Code t)"
    "t_PendingID t = pending" "t_DebitAccountID t = debit" "t_CreditAccountID t = credit"
    using assms(2) unfolding transfer_def by (auto simp: bindE_Inr simp del: lookup_Inr)
  have bits: "bit (t_Flags t) b \<longleftrightarrow> transfer_bits flags b" for b
    by (simp add: t(2) libs_okD [OF assms(1)])
  have "t_ID t \<noteq> zero_id (d_u128 G)" by (rule nonzero_id [OF assms(1) t(1)])
  moreover have "b < 8" if "bit (t_Flags t) b" for b using that unfolding bits by (auto simp: transfer_bits_def)
  moreover have "bit (t_Flags t) 2 \<or> bit (t_Flags t) 3 \<longleftrightarrow> tf_PostPendingTransfer flags \<or> tf_VoidPendingTransfer flags"
    unfolding bits by (simp add: transfer_bits_def)
  ultimately show ?thesis
    using parties_ok [OF assms(1) t(3)] t unfolding transfer_ok_def by metis
qed

lemma account_sound:
  assumes "libs_ok G" and "account G d ja = Inr a"
  shows "account_ok G (d_reg d) a \<and> ParseID (d_u128 G) (d_uuid G) (ja_ID ja) = Inr (a_ID a)"
proof -
  obtain flags l where a: "ParseID (d_u128 G) (d_uuid G) (ja_ID ja) = Inr (a_ID a)"
    "a_Flags a = account_ToUint16 G flags" "Ledger (d_reg d) (ja_Ledger ja) = Inr l" "a_Ledger a = ledger_ID l"
    "Code (d_reg d) (ja_Code ja) = Inr (a_Code a)"
    using assms(2) unfolding account_def by (auto simp: bindE_Inr simp del: lookup_Inr)
  have bits: "bit (a_Flags a) b \<longleftrightarrow> account_bits flags b" for b
    by (simp add: a(2) libs_okD [OF assms(1)])
  have "a_ID a \<noteq> zero_id (d_u128 G)" by (rule nonzero_id [OF assms(1) a(1)])
  moreover have "b \<in> {0, 1, 2, 3, 5}" if "bit (a_Flags a) b" for b using that unfolding bits by (auto simp: account_bits_def)
  ultimately show ?thesis using a unfolding account_ok_def by metis
qed

text \<open>
  What the two kinds of event share: how one is read from the message and cleared of its chain
  bit. The events of a message are then fit, in step with its ids, and leave no chain open.
\<close>

locale event_kind =
  fixes decode :: "'j \<Rightarrow> event_fail + 'e"
    and unlink :: "'e \<Rightarrow> 'e"
    and clear_last :: "'e list \<Rightarrow> 'e list"
    and fit :: "'j \<Rightarrow> 'e \<Rightarrow> bool"
    and linked :: "'e \<Rightarrow> bool"
  assumes decode_fit: "decode j = Inr e \<Longrightarrow> fit j e"
    and unlink_fit: "fit j e \<Longrightarrow> fit j (unlink e)"
    and unlink_open: "\<not> linked (unlink e)"
    and clear_last_eq: "es \<noteq> [] \<Longrightarrow> clear_last es = es[length es - 1 := unlink (es ! (length es - 1))]"
begin

lemma events_fit:
  assumes "decode_each bad decode 0 js = Inr out" and "js \<noteq> []"
  shows "length (clear_last out) = length js" and "i < length js \<Longrightarrow> fit (js ! i) (clear_last out ! i)"
    and "\<not> linked (clear_last out ! (length js - 1))"
proof -
  note all = decode_each_Inr [OF assms(1)]
  then have len: "length out = length js" by (simp add: list_all2_lengthD)
  then have eq: "clear_last out = out[length js - 1 := unlink (out ! (length js - 1))]"
    using clear_last_eq [of out] assms(2) by fastforce
  show "length (clear_last out) = length js" using len eq by simp
  show "\<not> linked (clear_last out ! (length js - 1))" using len eq assms(2) by (simp add: unlink_open)
  assume i: "i < length js"
  have "fit (js ! i) (out ! i)" using list_all2_nthD [OF all i] by (rule decode_fit)
  then show "fit (js ! i) (clear_last out ! i)" using i len eq by (auto simp: nth_list_update unlink_fit)
qed

end

text \<open>An event that is fit and has the id its message gives it.\<close>

definition fit_transfer :: "'u decode_lib \<Rightarrow> decoder \<Rightarrow> json_transfer \<Rightarrow> 'u transfer \<Rightarrow> bool" where
  "fit_transfer G d jt t \<longleftrightarrow>
     (libs_ok G \<longrightarrow> transfer_ok G (d_reg d) t \<and> ParseID (d_u128 G) (d_uuid G) (jt_ID jt) = Inr (t_ID t))"

definition fit_account :: "'u decode_lib \<Rightarrow> decoder \<Rightarrow> json_account \<Rightarrow> 'u account \<Rightarrow> bool" where
  "fit_account G d ja a \<longleftrightarrow>
     (libs_ok G \<longrightarrow> account_ok G (d_reg d) a \<and> ParseID (d_u128 G) (d_uuid G) (ja_ID ja) = Inr (a_ID a))"

lemma decoded_fits:
  "transfer G d jt = Inr t \<Longrightarrow> fit_transfer G d jt t" "account G d ja = Inr a \<Longrightarrow> fit_account G d ja a"
  by (simp_all add: fit_transfer_def fit_account_def transfer_sound account_sound)

interpretation transfer_events: event_kind "transfer G d" "\<lambda>t. t\<lparr>t_Flags := clearLinked (t_Flags t)\<rparr>"
    clear_last_transfer "fit_transfer G d" "\<lambda>t. bit (t_Flags t) 0"
  by unfold_locales
    (auto simp: decoded_fits, auto simp: fit_transfer_def transfer_ok_def bit_clearLinked clear_last_transfer_def)

interpretation account_events: event_kind "account G d" "\<lambda>a. a\<lparr>a_Flags := clearLinked (a_Flags a)\<rparr>"
    clear_last_account "fit_account G d" "\<lambda>a. bit (a_Flags a) 0"
  by unfold_locales
    (auto simp: decoded_fits, auto simp: fit_account_def account_ok_def bit_clearLinked clear_last_account_def)

definition transfers_of_message :: "'u decode_lib \<Rightarrow> registry \<Rightarrow> 'u command \<Rightarrow> bool" where
  "transfers_of_message G r c \<longleftrightarrow> Op c = OpCreateTransfers \<and> Accounts c = [] \<and> length (IDs c) = length (Transfers c) \<and>
     (\<forall>i < length (Transfers c). ParseID (d_u128 G) (d_uuid G) (IDs c ! i) = Inr (t_ID (Transfers c ! i)) \<and>
        transfer_ok G r (Transfers c ! i)) \<and>
     \<not> bit (t_Flags (Transfers c ! (length (Transfers c) - 1))) 0"

definition accounts_of_message :: "'u decode_lib \<Rightarrow> registry \<Rightarrow> 'u command \<Rightarrow> bool" where
  "accounts_of_message G r c \<longleftrightarrow> Op c = OpCreateAccounts \<and> Transfers c = [] \<and> length (IDs c) = length (Accounts c) \<and>
     (\<forall>i < length (Accounts c). ParseID (d_u128 G) (d_uuid G) (IDs c ! i) = Inr (a_ID (Accounts c ! i)) \<and>
        account_ok G r (Accounts c ! i)) \<and>
     \<not> bit (a_Flags (Accounts c ! (length (Accounts c) - 1))) 0"

lemma decodeTransfers_sound:
  assumes "libs_ok G" and "decodeTransfers G d ts = Inr c"
  shows "transfers_of_message G (d_reg d) c \<and> 0 < Len c \<and> int (Len c) \<le> MaxEventsPerMessage (d_lim d)"
proof -
  obtain out where out: "decode_each BadTransfer (transfer G d) 0 ts = Inr out" "ts \<noteq> []"
    "int (length ts) \<le> MaxEventsPerMessage (d_lim d)"
    "c = \<lparr> Op = OpCreateTransfers, Transfers = clear_last_transfer out, Accounts = [], IDs = map jt_ID ts \<rparr>"
    using assms(2) by (auto simp: decodeTransfers_def bindE_Inr split: if_splits)
  note fit = transfer_events.events_fit [OF out(1,2)]
  have "Len c = length ts"
    using out(4) fit(1) by (simp add: Len_def OpCreateTransfers_def OpCreateAccounts_def)
  then show ?thesis
    using out fit assms(1) by (simp add: transfers_of_message_def fit_transfer_def)
qed

lemma decodeAccounts_sound:
  assumes "libs_ok G" and "decodeAccounts G d as = Inr c"
  shows "accounts_of_message G (d_reg d) c \<and> 0 < Len c \<and> int (Len c) \<le> MaxEventsPerMessage (d_lim d)"
proof -
  obtain out where out: "decode_each BadAccount (account G d) 0 as = Inr out" "as \<noteq> []"
    "int (length as) \<le> MaxEventsPerMessage (d_lim d)"
    "c = \<lparr> Op = OpCreateAccounts, Transfers = [], Accounts = clear_last_account out, IDs = map ja_ID as \<rparr>"
    using assms(2) by (auto simp: decodeAccounts_def bindE_Inr split: if_splits)
  note fit = account_events.events_fit [OF out(1,2)]
  have "Len c = length as" using out(4) fit(1) by (simp add: Len_def)
  then show ?thesis using out fit assms(1) by (simp add: accounts_of_message_def fit_account_def)
qed

subsection \<open>Nesting as a specification\<close>

text \<open>The bytes outside string literals, and how deep a text leaves one.\<close>

fun outside :: "bool \<Rightarrow> bool \<Rightarrow> string \<Rightarrow> string" where
  "outside inStr esc [] = []"
| "outside inStr esc (b # s) =
     (if esc then outside inStr False s
      else if inStr \<and> b = CHR 0x5C then outside True True s
      else if b = CHR 0x22 then outside (\<not> inStr) False s
      else if inStr then outside True False s
      else b # outside False False s)"

definition opens :: "char \<Rightarrow> int" where
  "opens b = (if b = CHR ''{'' \<or> b = CHR ''['' then 1 else if b = CHR ''}'' \<or> b = CHR '']'' then -1 else 0)"

definition nesting :: "string \<Rightarrow> int" where
  "nesting s = sum_list (map opens s)"

lemma nesting_simps [simp]: "nesting [] = 0" "nesting (b # s) = opens b + nesting s"
  by (simp_all add: nesting_def)

lemma ex_prefix_Cons: "(\<exists>p. prefix p (b # s) \<and> Q p) \<longleftrightarrow> Q [] \<or> (\<exists>p. prefix p s \<and> Q (b # p))"
  by (auto simp: prefix_Cons)

lemma depth_loop_nesting:
  assumes "depth \<le> maxSeen" and "maxSeen \<le> m"
  shows "depth_loop m depth maxSeen inStr esc s =
     (if \<exists>p. prefix p (outside inStr esc s) \<and> m < depth + nesting p then Some (NestingTooDeep m) else None)"
  using assms
proof (induction m depth maxSeen inStr esc s rule: depth_loop.induct)
  case (2 m depth maxSeen inStr esc b s)
  show ?case
  proof (cases "esc \<or> inStr \<or> b = CHR 0x22")
    case True
    with 2 show ?thesis by (cases esc; cases inStr) (auto split: if_splits)
  next
    case False
    then have out: "outside inStr esc (b # s) = b # outside False False s" by simp
    have ex: "(\<exists>p. prefix p (b # outside False False s) \<and> m < depth + nesting p) \<longleftrightarrow>
        (\<exists>p. prefix p (outside False False s) \<and> m < depth + opens b + nesting p)"
      using "2.prems" by (simp add: ex_prefix_Cons add.assoc)
    consider (op) "b = CHR ''{'' \<or> b = CHR ''[''" | (cl) "b = CHR ''}'' \<or> b = CHR '']''" | (other) "opens b = 0"
      "\<not> (b = CHR ''{'' \<or> b = CHR ''['')" "\<not> (b = CHR ''}'' \<or> b = CHR '']'')"
      by (auto simp: opens_def)
    then show ?thesis
    proof cases
      case op
      then have o: "opens b = 1" by (auto simp: opens_def)
      show ?thesis
      proof (cases "depth + 1 > m")
        case True
        then have "\<exists>p. prefix p (outside False False s) \<and> m < depth + opens b + nesting p"
          using o by (intro exI [of _ "[]"]) simp
        then show ?thesis using False True op "2.prems" unfolding out ex by (auto simp: Let_def)
      next
        case fits: False
        then show ?thesis using False op 2 o unfolding out ex by (auto simp: Let_def)
      qed
    next
      case cl
      then have o: "opens b = -1" by (auto simp: opens_def)
      then show ?thesis using False cl 2 unfolding out ex by auto
    next
      case other
      then show ?thesis using False 2 unfolding out ex by auto
    qed
  qed
qed auto

lemma Decode_sound:
  assumes "libs_ok G" and "Decode G d payload = Inr c"
  shows "(transfers_of_message G (d_reg d) c \<or> accounts_of_message G (d_reg d) c) \<and>
     0 < Len c \<and> int (Len c) \<le> MaxEventsPerMessage (d_lim d) \<and> int (length payload) \<le> MaxMessageBytes (d_lim d)"
proof -
  have size: "int (length payload) \<le> MaxMessageBytes (d_lim d)"
    using assms(2) by (auto simp: Decode_def split: if_splits)
  have "(\<exists>ts. decodeTransfers G d ts = Inr c) \<or> (\<exists>as. decodeAccounts G d as = Inr c)"
    using assms(2) by (auto simp: Decode_def split: if_splits option.splits sum.splits)
  with size show ?thesis
    using decodeTransfers_sound [OF assms(1), of d] decodeAccounts_sound [OF assms(1), of d] by blast
qed

subsection \<open>Properties\<close>

text \<open>
  C17: what \<^verbatim>\<open>Decode\<close> lets through is fit for TigerBeetle: between one and
  \<^verbatim>\<open>max_events_per_message\<close> events of one kind, each with its original id text beside a non-zero
  id it denotes, a registered ledger and code, a pending id exactly when it posts or voids and
  both accounts otherwise, only flags a producer may set; and the last event leaves no chain
  open. The payload was within \<^verbatim>\<open>max_message_bytes\<close>.
\<close>

theorem decoded_command_is_fit:
  assumes "libs_ok G" and "Decode G d payload = Inr c"
  shows "(transfers_of_message G (d_reg d) c \<or> accounts_of_message G (d_reg d) c) \<and>
     0 < Len c \<and> int (Len c) \<le> MaxEventsPerMessage (d_lim d) \<and> int (length payload) \<le> MaxMessageBytes (d_lim d)"
  by (rule Decode_sound [OF assms])

text \<open>
  C38: the nesting check is exact: with strings and their escapes left out, a payload is refused
  exactly when some prefix of it leaves more than the limit of brackets and braces open.
\<close>

theorem checkDepth_is_exact:
  assumes "0 \<le> m"
  shows "checkDepth payload m =
     (if \<exists>p. prefix p (outside False False payload) \<and> m < nesting p then Some (NestingTooDeep m) else None)"
  unfolding checkDepth_def using depth_loop_nesting [of 0 0 m False False payload] assms by simp

subsection \<open>Witnesses\<close>

theorem checkDepth_is_exact_witness:
  "checkDepth ''[{}]'' 1 = Some (NestingTooDeep 1)"
proof -
  have "prefix ''[{'' (outside False False ''[{}]'') \<and> 1 < nesting ''[{''"
    by (simp add: opens_def)
  then have "\<exists>p. prefix p (outside False False ''[{}]'') \<and> 1 < nesting p" by blast
  then show ?thesis by (subst checkDepth_is_exact) simp_all
qed

definition demo_id :: "128 word \<Rightarrow> string" where
  "demo_id n = FormatID word_u128 raw_uuid n"

definition demo_amount :: string where
  "demo_amount = projr (FormatAmount word_u128 1234 2)"

definition demo_linked :: json_transfer where
  "demo_linked = \<lparr> jt_ID = demo_id 7, jt_DebitAccountID = demo_id 5, jt_CreditAccountID = demo_id 5, jt_PendingID = [],
     jt_Amount = demo_amount, jt_Ledger = ''USD'', jt_Code = ''payment'', jt_Flags = Some [''linked''],
     jt_UserData128 = [], jt_UserData64 = 0, jt_UserData32 = 0, jt_Timeout = [] \<rparr>"

definition demo_decode :: "128 word decode_lib" where
  "demo_decode = \<lparr> d_u128 = word_u128, d_uuid = raw_uuid, transfer_ToUint16 = word_transfer_mask,
     account_ToUint16 = word_account_mask,
     unmarshal_message = (\<lambda>_. Inr (Inr \<lparr> Operation = OpCreateTransfers, jm_Transfers = Some [demo_linked], jm_Accounts = None \<rparr>)),
     float_part = (\<lambda>f un scale. f * un div scale) \<rparr>"

definition demo_decoder :: decoder where
  "demo_decoder = \<lparr> d_reg = sample_registry, d_lim = Limits sample_config \<rparr>"

lemma demo_decode_ok: "libs_ok demo_decode"
  by (simp add: libs_ok_def demo_decode_def word_u128_ok raw_uuid_ok word_transfer_mask_ok word_account_mask_ok)

lemma demo_ids: "ParseID word_u128 raw_uuid (demo_id 7) = Inr 7" "ParseID word_u128 raw_uuid (demo_id 5) = Inr 5"
proof -
  have "Bytes word_u128 7 \<noteq> zero_bytes" "Bytes word_u128 5 \<noteq> zero_bytes" by code_simp+
  then have "7 \<noteq> zero_id word_u128" "5 \<noteq> zero_id word_u128" using Bytes_zero [OF word_u128_ok] by blast+
  then show "ParseID word_u128 raw_uuid (demo_id 7) = Inr 7" "ParseID word_u128 raw_uuid (demo_id 5) = Inr 5"
    by (simp_all add: demo_id_def ParseID_FormatID [OF word_u128_ok raw_uuid_ok])
qed

lemma demo_amount_parses: "ParseAmount word_u128 demo_amount 2 = Inr 1234"
  using FormatAmount_parses [OF word_u128_ok, of 2 1234] by (auto simp: demo_amount_def)

lemma demo_decodes: "\<exists>c. Decode demo_decode demo_decoder ''{}'' = Inr c"
proof -
  have "\<exists>t. transfer demo_decode demo_decoder demo_linked = Inr t"
    by (simp add: transfer_def parse_id_def parties_def user_data_def demo_decode_def demo_linked_def demo_ids
        TransferFlags_def transfer_flag_step_def no_transfer_flags_def demo_decoder_def sample_registry_def
        NewRegistry_def sample_config_def Ledger_def Code_def demo_amount_parses del: lookup_Inr)
  moreover have "checkDepth ''{}'' (MaxJSONDepth (Limits sample_config)) = None"
    by (simp add: checkDepth_def sample_config_def)
  ultimately show ?thesis
    by (auto simp: Decode_def demo_decode_def demo_decoder_def decodeTransfers_def sample_config_def)
qed

theorem decoded_command_is_fit_witness:
  "\<exists>c. Decode demo_decode demo_decoder ''{}'' = Inr c \<and> 0 < Len c"
  using demo_decodes decoded_command_is_fit [OF demo_decode_ok] by blast

end
