(* ===== verification/Replay.thy ===== *)
theory Replay
  imports Cdc_Message Decoder
begin

section \<open>From the change-event stream back into the sink\<close>

text \<open>
  The CDC message speaks the vocabulary the sink's decoder reads: a transfer published by the
  job, sent back as a command, decodes to the transfer TigerBeetle recorded.
\<close>

subsection \<open>Timeouts\<close>

lemma leading_int_digits:
  assumes "list_all is_digit ds" and "rest = [] \<or> \<not> is_digit (hd rest)" and "x * 10 ^ length ds + dec_val ds \<le> 2 ^ 63"
  shows "leading_int x (ds @ rest) = Some (x * 10 ^ length ds + dec_val ds, rest)"
  using assms
proof (induction ds arbitrary: x)
  case Nil
  then show ?case by (cases rest) auto
next
  case (Cons c ds)
  let ?y = "x * 10 + digit_val c"
  have val: "x * 10 ^ length (c # ds) + dec_val (c # ds) = ?y * 10 ^ length ds + dec_val ds"
    by (simp add: dec_val_Cons algebra_simps)
  then have "?y * 10 ^ length ds \<le> 2 ^ 63" using Cons.prems(3) by linarith
  moreover have "?y \<le> ?y * 10 ^ length ds" by simp
  ultimately have y: "?y \<le> 2 ^ 63" by (rule order_trans [rotated])
  then have "x * 10 \<le> 2 ^ 63" by linarith
  then have "x \<le> 2 ^ 63 div 10" by linarith
  then show ?case using Cons.IH [of ?y] Cons.prems y val by simp
qed

text \<open>A whole number with a unit of one letter, followed by another number or the end.\<close>

lemma duration_term_whole:
  assumes "unitMap [u] = Some un" and "u \<noteq> CHR ''.''" and "\<not> is_digit u" and "n \<le> 2 ^ 63 div un" and "0 < un"
    and "rest = [] \<or> is_digit (hd rest)"
  shows "duration_term float (dec n @ u # rest) = Some (n * un, rest)"
proof -
  have "n \<le> 2 ^ 63" using assms(4) by (meson div_le_dividend order_trans)
  then have lead: "leading_int 0 (dec n @ u # rest) = Some (n, u # rest)"
    using leading_int_digits [of "dec n" "u # rest" 0] assms(3) by simp
  have hd: "is_digit (hd (dec n))" using dec_digits [of n] dec_nonempty [of n] by (cases "dec n") auto
  have tw: "takeWhile (\<lambda>c. c \<noteq> CHR ''.'' \<and> \<not> is_digit c) (u # rest) = [u]"
    using assms(2,3,6) by (cases rest) auto
  have "n * un \<le> 2 ^ 63"
    using assms(4,5) by (metis div_le_mono div_mult_self_is_m le_less_linear less_mult_imp_div_less not_le)
  then show ?thesis
    using assms(1-4) hd lead tw by (simp add: duration_term_def Let_def)
qed

lemma units: "unitMap ''s'' = Some 1000000000" "unitMap ''m'' = Some 60000000000" "unitMap ''h'' = Some 3600000000000"
  by (simp_all add: unitMap_def)

lemma not_digits: "\<not> is_digit CHR ''s''" "\<not> is_digit CHR ''m''" "\<not> is_digit CHR ''h''"
  by (simp_all add: is_digit_def)

lemma dec_starts: "is_digit (hd (dec n @ s))"
  using dec_digits [of n] dec_nonempty [of n] by (cases "dec n") auto

lemma terms_end: "duration_terms float d [] = Some d"
  by (simp add: duration_terms.simps)

lemma terms_step:
  assumes "unitMap [u] = Some un" and "u \<noteq> CHR ''.''" and "\<not> is_digit u" and "n \<le> 2 ^ 63 div un" and "0 < un"
    and "rest = [] \<or> is_digit (hd rest)" and "d + n * un \<le> 2 ^ 63"
  shows "duration_terms float d (dec n @ u # rest) = duration_terms float (d + n * un) rest"
proof -
  have "dec n @ u # rest \<noteq> []" by simp
  then show ?thesis
    using duration_term_whole [OF assms(1-6), of float] assms(7)
    by (subst duration_terms.simps) simp
qed

text \<open>A positive number of seconds that fits 32 bits is read back from its \<^verbatim>\<open>String\<close>.\<close>

lemma ParseDuration_seconds:
  assumes "0 < n" and "n < 2 ^ 32"
  shows "ParseDuration float (seconds_String n) = Some (int (n * 1000000000))"
proof -
  let ?ns = "n * 1000000000"
  have terms: "duration_terms float 0 (seconds_String n) = Some ?ns"
  proof (cases "n < 60")
    case True
    then show ?thesis using assms terms_step [OF units(1), of n "[]" 0 float] not_digits
      by (simp add: seconds_String_def terms_end)
  next
    case m: False
    let ?s = "n mod 60"
    have secs: "duration_terms float (d * 60000000000) (dec ?s @ ''s'') = Some (d * 60000000000 + ?s * 1000000000)"
      if "d \<le> 100000000" for d
      using that terms_step [OF units(1), of ?s "[]" "d * 60000000000" float] not_digits
      by (simp add: terms_end)
    show ?thesis
    proof (cases "n < 3600")
      case True
      then have "duration_terms float 0 (seconds_String n) = Some (n div 60 * 60000000000 + ?s * 1000000000)"
        using m terms_step [OF units(2), of "n div 60" "dec ?s @ ''s''" 0 float] not_digits secs [of "n div 60"] dec_starts
        by (simp add: seconds_String_def)
      also have "n div 60 * 60000000000 + ?s * 1000000000 = ?ns"
        using div_mult_mod_eq [of n 60] by linarith
      finally show ?thesis .
    next
      case h: False
      let ?m = "n div 60 mod 60"
      let ?tail = "dec ?m @ CHR ''m'' # dec ?s @ ''s''"
      have small: "n div 3600 \<le> 1193046" using assms(2) by simp
      have "duration_terms float 0 (seconds_String n) = duration_terms float (n div 3600 * 3600000000000) ?tail"
        using m h small terms_step [OF units(3), of "n div 3600" ?tail 0 float] not_digits dec_starts
        by (simp add: seconds_String_def)
      also have "\<dots> = duration_terms float (n div 3600 * 3600000000000 + ?m * 60000000000) (dec ?s @ ''s'')"
      proof (rule terms_step [OF units(2)])
        have "?m < 60" by simp
        then show "?m \<le> 2 ^ 63 div 60000000000" "n div 3600 * 3600000000000 + ?m * 60000000000 \<le> 2 ^ 63"
          using small by simp_all
      qed (use not_digits dec_starts in simp_all)
      also have "n div 3600 * 3600000000000 + ?m * 60000000000 = n div 60 * 60000000000"
      proof -
        have "n div 60 = n div 3600 * 60 + ?m"
          using div_mult_mod_eq [of "n div 60" 60] by (simp add: div_mult2_eq [symmetric])
        then show ?thesis by linarith
      qed
      also have "duration_terms float (n div 60 * 60000000000) (dec ?s @ ''s'') = Some (n div 60 * 60000000000 + ?s * 1000000000)"
        using secs [of "n div 60"] assms(2) by simp
      also have "n div 60 * 60000000000 + ?s * 1000000000 = ?ns"
        using div_mult_mod_eq [of n 60] by linarith
      finally show ?thesis .
    qed
  qed
  obtain k rest where start: "seconds_String n = dec k @ rest" "rest \<noteq> []"
  proof -
    have "\<exists>rest. seconds_String n = dec (if n < 60 then n else if n < 3600 then n div 60 else n div 3600) @ rest \<and> rest \<noteq> []"
      by (simp add: seconds_String_def)
    then show ?thesis using that by blast
  qed
  have hd: "is_digit (hd (seconds_String n))" "seconds_String n \<noteq> []" using start dec_starts by auto
  then have "hd (seconds_String n) \<noteq> CHR ''-''" "hd (seconds_String n) \<noteq> CHR ''+''" by (auto simp: is_digit_def)
  moreover have "seconds_String n \<noteq> ''0''"
  proof
    assume "seconds_String n = ''0''"
    then have "length (dec k) + length rest = 1" using start(1) by (metis length_Cons length_append list.size(3) One_nat_def)
    then show False using start(2) dec_nonempty [of k] by (cases "dec k"; cases rest) auto
  qed
  moreover have "?ns \<le> 2 ^ 63 - 1" using assms(2) by simp
  ultimately show ?thesis using hd(2) terms by (simp add: ParseDuration_def Let_def)
qed

lemma timeout_reads_back:
  assumes "t \<noteq> 0"
  shows "timeout t \<noteq> [] \<and> parseTimeoutSeconds float (timeout t) = Inr t"
proof -
  have n: "0 < unat t" "unat t < 2 ^ 32" using assms unsigned_less [of t, where 'a = nat] by (simp_all add: unat_gt_0)
  have u: "uint t \<noteq> 0" "uint t < 2 ^ 32" using assms uint_lt2p [of t] by (simp_all add: uint_0_iff)
  have "seconds_String (unat t) \<noteq> []" by (simp add: seconds_String_def)
  moreover have "int (unat t * 1000000000) div Second = int (unat t)" by (simp add: Second_def)
  moreover have "(word_of_int (int (unat t)) :: u32) = t" by simp
  ultimately show ?thesis
    using assms n u ParseDuration_seconds [OF n, of float]
    by (simp add: timeout_def parseTimeoutSeconds_def Let_def)
qed

subsection \<open>Transfers\<close>

text \<open>The command a consumer of the stream writes for a transfer: the message's own texts.\<close>

definition as_command :: "cdc_message \<Rightarrow> json_transfer" where
  "as_command msg =
     \<lparr> jt_ID = tm_ID (m_Transfer msg), jt_DebitAccountID = am_ID (m_DebitAccount msg),
       jt_CreditAccountID = am_ID (m_CreditAccount msg), jt_PendingID = tm_PendingID (m_Transfer msg),
       jt_Amount = tm_Amount (m_Transfer msg), jt_Ledger = m_Ledger msg, jt_Code = tm_Code (m_Transfer msg),
       jt_Flags = tm_Flags (m_Transfer msg), jt_UserData128 = tm_UserData128 (m_Transfer msg),
       jt_UserData64 = tm_UserData64 (m_Transfer msg), jt_UserData32 = tm_UserData32 (m_Transfer msg),
       jt_Timeout = tm_Timeout (m_Transfer msg) \<rparr>"

text \<open>The transfer an event records.\<close>

definition recorded :: "'u change_event \<Rightarrow> 'u transfer" where
  "recorded ev =
     \<lparr> t_ID = ce_TransferID ev, t_DebitAccountID = sn_ID (ce_DebitAccount ev),
       t_CreditAccountID = sn_ID (ce_CreditAccount ev), t_Amount = ce_TransferAmount ev,
       t_PendingID = ce_TransferPendingID ev, t_UserData128 = ce_TransferUserData128 ev,
       t_UserData64 = ce_TransferUserData64 ev, t_UserData32 = ce_TransferUserData32 ev,
       t_Timeout = ce_TransferTimeout ev, t_Ledger = ce_Ledger ev, t_Code = ce_TransferCode ev,
       t_Flags = ce_TransferFlags ev \<rparr>"

text \<open>
  What TigerBeetle guarantees of an event made by this program's own transfers: non-zero ids, a
  pending id exactly with the post or void flag, no flag beyond the eight a producer may set.
\<close>

definition event_ok :: "'u u128_api \<Rightarrow> 'u change_event \<Rightarrow> bool" where
  "event_ok L ev \<longleftrightarrow>
     ce_TransferID ev \<noteq> zero_id L \<and> sn_ID (ce_DebitAccount ev) \<noteq> zero_id L \<and>
     sn_ID (ce_CreditAccount ev) \<noteq> zero_id L \<and>
     (ce_TransferPendingID ev \<noteq> zero_id L \<longleftrightarrow> bit (ce_TransferFlags ev) 2 \<or> bit (ce_TransferFlags ev) 3) \<and>
     (\<forall>b. bit (ce_TransferFlags ev) b \<longrightarrow> b < 8)"

text \<open>\<^verbatim>\<open>uuid.Parse\<close> refuses the empty text, so no id prints as one.\<close>

definition uuid_nonempty :: "uuid_api \<Rightarrow> bool" where
  "uuid_nonempty U \<longleftrightarrow> (\<forall>bs. uuid_Parse U [] \<noteq> Inr bs)"

lemma FormatID_nonempty: "u128_ok L \<Longrightarrow> uuid_ok U \<Longrightarrow> uuid_nonempty U \<Longrightarrow> FormatID L U u \<noteq> []"
  by (metis FormatID_def u128_bytes(2) uuid_nonempty_def uuid_parse_string)

definition flags_of_mask :: "u16 \<Rightarrow> transfer_flags" where
  "flags_of_mask w = \<lparr> tf_Linked = bit w 0, tf_Pending = bit w 1, tf_PostPendingTransfer = bit w 2,
     tf_VoidPendingTransfer = bit w 3, tf_BalancingDebit = bit w 4, tf_BalancingCredit = bit w 5,
     tf_ClosingDebit = bit w 6, tf_ClosingCredit = bit w 7 \<rparr>"

lemma flags_of_mask_bits:
  assumes "\<forall>b. bit w b \<longrightarrow> b < 8"
  shows "bit w b = transfer_bits (flags_of_mask w) b"
proof (cases "b < 8")
  case True
  then have "b \<in> {0, 1, 2, 3, 4, 5, 6, 7}" by auto
  then show ?thesis by (elim insertE emptyE) (simp_all add: transfer_bits_def flags_of_mask_def)
next
  case False
  then show ?thesis using assms by (auto simp: transfer_bits_def)
qed

lemma flags_reread:
  assumes "\<forall>b. bit w b \<longrightarrow> b < 8" and "libs_ok D"
  shows "TransferFlags (TransferFlagNames w) = Inr (flags_of_mask w)" and "transfer_ToUint16 D (flags_of_mask w) = w"
proof -
  show "TransferFlags (TransferFlagNames w) = Inr (flags_of_mask w)"
    using transfer_vocab.round_trip [OF flags_of_mask_bits [OF assms(1)]] by (simp add: TransferFlags_def TransferFlagNames_def)
  show "transfer_ToUint16 D (flags_of_mask w) = w"
    by (rule bit_eqI) (simp add: libs_okD(3) [OF assms(2)] flags_of_mask_bits [OF assms(1)])
qed

lemma optional_rereads:
  assumes "u128_ok (u128 G)" and "uuid_ok (uuid G)" and "uuid_nonempty (uuid G)"
  shows "optionalID G u = [] \<longleftrightarrow> u = zero_id (u128 G)"
    and "u \<noteq> zero_id (u128 G) \<Longrightarrow> ParseID (u128 G) (uuid G) (optionalID G u) = Inr u"
  using FormatID_nonempty [OF assms] ParseID_FormatID [OF assms(1,2)] by (simp_all add: optionalID_def)

text \<open>The texts of a message, piece by piece.\<close>

lemma message_parts:
  assumes "fst (message_of G ev c e) = Inr msg" and "ledger_text (reg e) (ce_Ledger ev) = (name, k)"
  obtains amount where "FormatAmount (u128 G) (ce_TransferAmount ev) k = Inr amount"
    and "as_command msg = \<lparr> jt_ID = FormatID (u128 G) (uuid G) (ce_TransferID ev),
       jt_DebitAccountID = FormatID (u128 G) (uuid G) (sn_ID (ce_DebitAccount ev)),
       jt_CreditAccountID = FormatID (u128 G) (uuid G) (sn_ID (ce_CreditAccount ev)),
       jt_PendingID = optionalID G (ce_TransferPendingID ev), jt_Amount = amount, jt_Ledger = name,
       jt_Code = code_text (reg e) (ce_TransferCode ev), jt_Flags = Some (TransferFlagNames (ce_TransferFlags ev)),
       jt_UserData128 = optionalID G (ce_TransferUserData128 ev), jt_UserData64 = ce_TransferUserData64 ev,
       jt_UserData32 = ce_TransferUserData32 ev, jt_Timeout = timeout (ce_TransferTimeout ev) \<rparr>"
  using assms
  by (auto simp: message_of_split message_text_def bindE_Inr transfer_of_def account_of_def as_command_def)

text \<open>
  The change-event stream replays into the sink. Take any event whose ledger and code the
  registry names: the transfer in its message, written back as a command, is decoded to exactly
  the transfer TigerBeetle recorded: id, accounts, amount, pending id, user data, timeout in
  seconds, ledger, code and flags.
\<close>

lemma replayed_transfer_is_the_recorded_one:
  assumes "libs_ok D" and "d_u128 D = u128 G" and "d_uuid D = uuid G" and "uuid_nonempty (uuid G)"
    and "registry_ok (reg e)" and "d_reg d = reg e" and "event_ok (u128 G) ev"
    and "LedgerName (reg e) (ce_Ledger ev) = Inr name" and "CodeName (reg e) (ce_TransferCode ev) = Inr code"
    and "fst (message_of G ev c e) = Inr msg"
  shows "transfer D d (as_command msg) = Inr (recorded ev)"
proof -
  have lib: "u128_ok (u128 G)" "uuid_ok (uuid G)" using libs_okD(1,2) [OF assms(1)] assms(2,3) by simp_all
  obtain l where l: "Ledger (reg e) name = Inr l" "ledger_ID l = ce_Ledger ev"
    "ScaleByLedgerID (reg e) (ce_Ledger ev) = Inr (Scale l)" "0 \<le> Scale l" "Scale l \<le> 18"
    using registry_okD(1) [OF assms(5,8)] by blast
  have lt: "ledger_text (reg e) (ce_Ledger ev) = (name, Scale l)"
    unfolding ledger_text_def assms(8) l(3) by simp
  have ct: "code_text (reg e) (ce_TransferCode ev) = code" unfolding code_text_def assms(9) by simp
  have code: "Code (reg e) code = Inr (ce_TransferCode ev)" by (rule registry_okD(2) [OF assms(5,9)])
  obtain amount where amount: "FormatAmount (u128 G) (ce_TransferAmount ev) (Scale l) = Inr amount"
    and cmd: "as_command msg = \<lparr> jt_ID = FormatID (u128 G) (uuid G) (ce_TransferID ev),
       jt_DebitAccountID = FormatID (u128 G) (uuid G) (sn_ID (ce_DebitAccount ev)),
       jt_CreditAccountID = FormatID (u128 G) (uuid G) (sn_ID (ce_CreditAccount ev)),
       jt_PendingID = optionalID G (ce_TransferPendingID ev), jt_Amount = amount, jt_Ledger = name,
       jt_Code = code, jt_Flags = Some (TransferFlagNames (ce_TransferFlags ev)),
       jt_UserData128 = optionalID G (ce_TransferUserData128 ev), jt_UserData64 = ce_TransferUserData64 ev,
       jt_UserData32 = ce_TransferUserData32 ev, jt_Timeout = timeout (ce_TransferTimeout ev) \<rparr>"
    using message_parts [OF assms(10) lt] unfolding ct by metis
  have parse: "ParseAmount (u128 G) amount (Scale l) = Inr (ce_TransferAmount ev)"
    using FormatAmount_parses [OF lib(1) l(4,5), of "ce_TransferAmount ev"] amount by auto
  have small: "\<forall>b. bit (ce_TransferFlags ev) b \<longrightarrow> b < 8" using assms(7) by (simp add: event_ok_def)
  note flags = flags_reread [OF this assms(1)]
  have pv: "tf_PostPendingTransfer (flags_of_mask (ce_TransferFlags ev)) \<or> tf_VoidPendingTransfer (flags_of_mask (ce_TransferFlags ev))
      \<longleftrightarrow> ce_TransferPendingID ev \<noteq> zero_id (u128 G)"
    using assms(7) by (simp add: event_ok_def flags_of_mask_def)
  note opt = optional_rereads [OF lib assms(4)]
  note ids = ParseID_FormatID [OF lib] FormatID_nonempty [OF lib assms(4)]
  have parties: "parties D (ce_TransferPendingID ev \<noteq> zero_id (u128 G)) (as_command msg) =
      Inr (ce_TransferPendingID ev, sn_ID (ce_DebitAccount ev), sn_ID (ce_CreditAccount ev))"
    using assms(7) ids opt
    by (cases "ce_TransferPendingID ev = zero_id (u128 G)")
      (auto simp: cmd parties_def parse_id_def parse_id_if_given_def assms(2,3) event_ok_def)
  have ud: "user_data D (optionalID G (ce_TransferUserData128 ev)) = Inr (ce_TransferUserData128 ev)"
    using opt by (simp add: user_data_def assms(2,3))
  have id: "parse_id D (jt_ID (as_command msg)) = Inr (ce_TransferID ev)"
    using assms(7) ids by (simp add: cmd parse_id_def assms(2,3) event_ok_def)
  show ?thesis
    unfolding transfer_def id bindE_simps
    using parties timeout_reads_back [of "ce_TransferTimeout ev" "float_part D"]
    by (cases "ce_TransferTimeout ev = 0") (simp_all add: cmd flags pv assms(2,6) l(1,2) code parse ud recorded_def timeout_def del: lookup_Inr)
qed

text \<open>A pending transfer of the sample registry, with a timeout of an hour and a half.\<close>

definition pending_event :: "128 word change_event" where
  "pending_event = (event_at 9)\<lparr>ce_TransferFlags := 2, ce_TransferTimeout := 5400\<rparr>"

lemma pending_event_laws:
  "d_u128 demo_decode = u128 demo_lib" "d_uuid demo_decode = uuid demo_lib" "uuid_nonempty (uuid demo_lib)"
  "u128_ok (u128 demo_lib)" "reg (NewEncoder (CDC sample_config) sample_registry) = sample_registry"
  by (simp_all add: demo_decode_def demo_lib_def word_u128_ok uuid_nonempty_def raw_uuid_def NewEncoder_def)

lemma pending_event_ok: "event_ok (u128 demo_lib) pending_event"
proof -
  have "Bytes word_u128 7 \<noteq> zero_bytes" "Bytes word_u128 5 \<noteq> zero_bytes" by code_simp+
  then have "7 \<noteq> zero_id word_u128" "5 \<noteq> zero_id word_u128" using Bytes_zero [OF word_u128_ok] by blast+
  moreover have "zero_id word_u128 = 0" by code_simp
  moreover have "bit (2 :: u16) b \<longleftrightarrow> b = 1" for b by (auto simp: bit_2_iff)
  ultimately show ?thesis by (simp add: event_ok_def demo_lib_def pending_event_def event_at_def demo_snapshot_def)
qed

lemma pending_event_names:
  "LedgerName sample_registry (ce_Ledger pending_event) = Inr ''USD''"
  "CodeName sample_registry (ce_TransferCode pending_event) = Inr ''payment''"
  by (simp_all add: pending_event_def event_at_def sample_registry_def NewRegistry_def index_names_def sample_config_def)

end
