(* ===== verification/Health.thy ===== *)
theory Health
  imports Config
begin

section \<open>The health server: \<^verbatim>\<open>internal/obs/health.go\<close>\<close>

text \<open>
  \<^verbatim>\<open>/readyz\<close> probes share one call to \<^verbatim>\<open>ready\<close>, which takes no context and may hang for as long
  as TigerBeetle is unreachable. Probes and the goroutines that run \<^verbatim>\<open>ready\<close> interleave, so
  \<^verbatim>\<open>checkReady\<close> is a step relation: the section under the mutex, the return of \<^verbatim>\<open>ready\<close> with the
  closing of \<^verbatim>\<open>done\<close>, the section that clears \<^verbatim>\<open>inFlight\<close>, and a probe's two ways out.
\<close>

subsection \<open>Construction and routes\<close>

definition defaultReadyTimeout :: int where "defaultReadyTimeout = 3 * Second"

definition defaultServerShutdownTimeout :: int where "defaultServerShutdownTimeout = 5 * Second"

record server_cfg =
  addr :: string
  pprof :: bool
  readyTimeout :: int
  serverShutdownTimeout :: int

definition WithPprof :: "bool \<Rightarrow> server_cfg \<Rightarrow> server_cfg" where
  "WithPprof enabled s = s\<lparr>pprof := enabled\<rparr>"

definition NewServer :: "string \<Rightarrow> (server_cfg \<Rightarrow> server_cfg) list \<Rightarrow> server_cfg" where
  "NewServer a opts =
     foldl (\<lambda>s opt. opt s)
       \<lparr> addr = a, pprof = False, readyTimeout = defaultReadyTimeout,
         serverShutdownTimeout = defaultServerShutdownTimeout \<rparr> opts"

definition mountPprof :: "string list" where
  "mountPprof = [''/debug/pprof/'', ''/debug/pprof/cmdline'', ''/debug/pprof/profile'', ''/debug/pprof/symbol'',
     ''/debug/pprof/trace'']"

definition mounted :: "server_cfg \<Rightarrow> string list" where
  "mounted s = [''/metrics'', ''/healthz'', ''/readyz''] @ (if pprof s then mountPprof else [])"

subsection \<open>Probes and calls\<close>

text \<open>A call: \<^verbatim>\<open>ready\<close> is running; \<^verbatim>\<open>done\<close> is closed with a result; \<^verbatim>\<open>inFlight\<close> was cleared after it.\<close>

datatype ready_call = Calling | DoneClosed "string option" | Over "string option"

fun result_of_call :: "ready_call \<Rightarrow> string option option" where
  "result_of_call Calling = None"
| "result_of_call (DoneClosed e) = Some e"
| "result_of_call (Over e) = Some e"

text \<open>A probe: what it waits on, and what it answers (\<open>None\<close>: ready).\<close>

datatype probe = NotAsking | Awaiting nat | Answers "string option"

record server =
  readyInFlight :: "nat option"
  ready_calls :: "ready_call list"
  probes :: "nat \<Rightarrow> probe"

definition idle_server :: server where
  "idle_server = \<lparr> readyInFlight = None, ready_calls = [], probes = (\<lambda>_. NotAsking) \<rparr>"

definition errReadyTimeout :: string where
  "errReadyTimeout = ''readiness check timed out''"

text \<open>\<^verbatim>\<open>checkReady\<close> up to the \<^verbatim>\<open>select\<close>: join the call in flight or start one.\<close>

definition checkReady_join :: "nat \<Rightarrow> server \<Rightarrow> server" where
  "checkReady_join i s =
     (case readyInFlight s of
        Some k \<Rightarrow> s\<lparr>probes := (probes s)(i := Awaiting k)\<rparr>
      | None \<Rightarrow>
          s\<lparr>readyInFlight := Some (length (ready_calls s)), ready_calls := ready_calls s @ [Calling],
            probes := (probes s)(i := Awaiting (length (ready_calls s)))\<rparr>)"

text \<open>The goroutine: \<^verbatim>\<open>call.err = err; close(call.done)\<close>, then \<^verbatim>\<open>inFlight = nil\<close> under the mutex.\<close>

definition ready_returns :: "nat \<Rightarrow> string option \<Rightarrow> server \<Rightarrow> server" where
  "ready_returns k err s = s\<lparr>ready_calls := (ready_calls s)[k := DoneClosed err]\<rparr>"

definition clear_in_flight :: "nat \<Rightarrow> string option \<Rightarrow> server \<Rightarrow> server" where
  "clear_in_flight k err s = s\<lparr>readyInFlight := None, ready_calls := (ready_calls s)[k := Over err]\<rparr>"

definition probe_answers :: "nat \<Rightarrow> string option \<Rightarrow> server \<Rightarrow> server" where
  "probe_answers i err s = s\<lparr>probes := (probes s)(i := Answers err)\<rparr>"

inductive health_step :: "server \<Rightarrow> server \<Rightarrow> bool" where
  ask: "probes s i = NotAsking \<Longrightarrow> health_step s (checkReady_join i s)"
| returns: "k < length (ready_calls s) \<Longrightarrow> ready_calls s ! k = Calling \<Longrightarrow> health_step s (ready_returns k err s)"
| clear: "k < length (ready_calls s) \<Longrightarrow> ready_calls s ! k = DoneClosed err \<Longrightarrow> health_step s (clear_in_flight k err s)"
| answer: "probes s i = Awaiting k \<Longrightarrow> result_of_call (ready_calls s ! k) = Some err \<Longrightarrow> health_step s (probe_answers i err s)"
| time_out: "probes s i = Awaiting k \<Longrightarrow> health_step s (probe_answers i (Some errReadyTimeout) s)"
| leave: "probes s i = Answers err \<Longrightarrow> health_step s (s\<lparr>probes := (probes s)(i := NotAsking)\<rparr>)"

inductive_cases health_stepE: "health_step s t"

abbreviation health_reaches :: "server \<Rightarrow> bool" where
  "health_reaches \<equiv> reachable health_step idle_server"

text \<open>The \<^verbatim>\<open>/readyz\<close> handler's status and body.\<close>

definition readyz :: "string option \<Rightarrow> nat \<times> string" where
  "readyz err = (case err of None \<Rightarrow> (200, []) | Some e \<Rightarrow> (503, e))"

text \<open>
  \<^verbatim>\<open>Serve\<close>: either the listener fails first (\<^verbatim>\<open>ErrServerClosed\<close> is no failure) or the context
  ends and the server is shut down, where a probe still in flight at the deadline is no failure.
\<close>

datatype serve_error = ErrServerClosed | DeadlineExceeded | OtherServe string

datatype serve_event = ListenerEnds "serve_error option" | ContextEnds "serve_error option"

definition Serve :: "serve_event \<Rightarrow> serve_error option" where
  "Serve ev =
     (case ev of
        ListenerEnds (Some e) \<Rightarrow> if e = ErrServerClosed then None else Some e
      | ListenerEnds None \<Rightarrow> None
      | ContextEnds (Some e) \<Rightarrow> if e = DeadlineExceeded then None else Some e
      | ContextEnds None \<Rightarrow> None)"

subsection \<open>One call at a time\<close>

definition outstanding :: "server \<Rightarrow> nat set" where
  "outstanding s = {k. k < length (ready_calls s) \<and> (\<forall>err. ready_calls s ! k \<noteq> Over err)}"

definition health_inv :: "server \<Rightarrow> bool" where
  "health_inv s \<longleftrightarrow> outstanding s = set_option (readyInFlight s) \<and> (\<forall>i k. probes s i = Awaiting k \<longrightarrow> k < length (ready_calls s))"

lemma health_inv_start: "health_inv idle_server"
  by (simp add: health_inv_def idle_server_def outstanding_def)

lemma health_inv_step: "health_inv s \<Longrightarrow> health_step s t \<Longrightarrow> health_inv t"
proof (elim health_stepE)
  fix i
  assume inv: "health_inv s" and t: "t = checkReady_join i s"
  show "health_inv t"
  proof (cases "readyInFlight s")
    case None
    have "outstanding t = insert (length (ready_calls s)) (outstanding s)"
      by (auto simp: t checkReady_join_def None outstanding_def nth_append less_Suc_eq)
    then show ?thesis using inv by (auto simp: health_inv_def t checkReady_join_def None less_Suc_eq)
  next
    case (Some k)
    then have "k < length (ready_calls s)" using inv by (auto simp: health_inv_def outstanding_def)
    then show ?thesis using inv by (auto simp: health_inv_def t checkReady_join_def Some outstanding_def)
  qed
next
  fix k err
  assume inv: "health_inv s" and t: "t = ready_returns k err s" and k: "k < length (ready_calls s)" "ready_calls s ! k = Calling"
  have "outstanding t = outstanding s"
    using k by (auto simp: t ready_returns_def outstanding_def nth_list_update split: if_splits)
  then show "health_inv t" using inv by (simp add: health_inv_def t ready_returns_def)
next
  fix k err
  assume inv: "health_inv s" and t: "t = clear_in_flight k err s"
    and k: "k < length (ready_calls s)" "ready_calls s ! k = DoneClosed err"
  have "outstanding t = outstanding s - {k}"
    using k by (auto simp: t clear_in_flight_def outstanding_def nth_list_update split: if_splits)
  moreover have "k \<in> outstanding s" using k by (simp add: outstanding_def)
  ultimately show "health_inv t" using inv by (cases "readyInFlight s") (auto simp: health_inv_def t clear_in_flight_def)
qed (auto simp: health_inv_def probe_answers_def outstanding_def split: if_splits)

lemma health_inv_reachable: "health_reaches s \<Longrightarrow> health_inv s"
  by (rule reachable_invariant [of health_step idle_server s health_inv]) (auto intro: health_inv_start health_inv_step)

text \<open>
  C39: however many probes arrive and however long TigerBeetle does not answer, at most one call
  to \<^verbatim>\<open>ready\<close> is outstanding; a probe that arrives while there is one waits on that call, and
  one that arrives when there is none starts a new one. So an outage costs one goroutine, and
  once the stuck call is over the next probe asks TigerBeetle afresh.
\<close>

theorem one_readiness_call_at_a_time:
  assumes "health_reaches s"
  shows "card (outstanding s) \<le> 1 \<and>
    (\<exists>k. probes (checkReady_join i s) i = Awaiting k \<and> outstanding (checkReady_join i s) = {k} \<and>
       (if outstanding s = {} then ready_calls (checkReady_join i s) = ready_calls s @ [Calling] \<and> k = length (ready_calls s)
        else ready_calls (checkReady_join i s) = ready_calls s))"
proof -
  note inv = health_inv_reachable [OF assms]
  show ?thesis
  proof (cases "readyInFlight s")
    case None
    then have "outstanding s = {}" using inv by (simp add: health_inv_def)
    moreover have "outstanding (checkReady_join i s) = insert (length (ready_calls s)) (outstanding s)"
      by (auto simp: checkReady_join_def None outstanding_def nth_append less_Suc_eq)
    ultimately show ?thesis by (simp add: checkReady_join_def None)
  next
    case (Some k)
    then have out: "outstanding s = {k}" using inv by (simp add: health_inv_def)
    moreover have "outstanding (checkReady_join i s) = outstanding s"
      by (simp add: checkReady_join_def Some outstanding_def)
    ultimately show ?thesis by (simp add: checkReady_join_def Some)
  qed
qed

text \<open>Two probes during one stuck call.\<close>

theorem one_readiness_call_at_a_time_witness:
  "card (outstanding (checkReady_join 1 (checkReady_join 0 idle_server))) \<le> 1"
proof -
  have "health_reaches (checkReady_join 1 (checkReady_join 0 idle_server))"
  proof (rule reachable.next_state [OF reachable.next_state [OF reachable.start]])
    show "health_step idle_server (checkReady_join 0 idle_server)"
      by (rule health_step.ask) (simp add: idle_server_def)
    show "health_step (checkReady_join 0 idle_server) (checkReady_join 1 (checkReady_join 0 idle_server))"
      by (rule health_step.ask) (simp add: idle_server_def checkReady_join_def)
  qed
  from one_readiness_call_at_a_time [OF this] show ?thesis by blast
qed

text \<open>The endpoints that expose the process are mounted only when asked for.\<close>

lemma pprof_is_off_by_default: "set (mounted (NewServer a [])) \<inter> set mountPprof = {}"
  by (simp add: mounted_def NewServer_def mountPprof_def)

end
