(* ===== verification/Kafkatb.thy ===== *)
theory Kafkatb
  imports Config_Load Decoder
begin

section \<open>The process: \<^verbatim>\<open>cmd/kafkatb/main.go\<close>\<close>

text \<open>
  Which pipelines a subcommand starts and from where, what is built and closed on every path of
  \<^verbatim>\<open>run\<close>, and how its end is reported. What the constructors of the client libraries return is
  in a record; the effects are a list of the parts opened, started and closed, in order.
\<close>

subsection \<open>Subcommands\<close>

text \<open>\<open>cdcCursor\<close> is \<^verbatim>\<open>nil\<close> when the cursor is to be recovered from the topic.\<close>

record jobs =
  sink_job :: bool
  cdc_job :: bool
  cdcCursor :: "u64 option"

datatype subcommand = SinkCmd | RunCmd | CdcCmd

text \<open>\<^verbatim>\<open>--timestamp-last\<close>: \<open>None\<close> when it was not set; zero is a value.\<close>

definition cdcStart :: "u64 option \<Rightarrow> u64 option" where
  "cdcStart flag = flag"

datatype command_error = TimestampLastWithoutCDC | EmptyCDCTopic

definition command_jobs :: "subcommand \<Rightarrow> u64 option \<Rightarrow> config \<Rightarrow> command_error + jobs" where
  "command_jobs sc flag c =
     (case sc of
        SinkCmd \<Rightarrow> Inr \<lparr> sink_job = True, cdc_job = False, cdcCursor = None \<rparr>
      | RunCmd \<Rightarrow>
          (let cdcOn = cdc_Topic (CDC c) \<noteq> [] in
           if \<not> cdcOn \<and> flag \<noteq> None then Inl TimestampLastWithoutCDC
           else Inr \<lparr> sink_job = True, cdc_job = cdcOn, cdcCursor = cdcStart flag \<rparr>)
      | CdcCmd \<Rightarrow>
          if cdc_Topic (CDC c) = [] then Inl EmptyCDCTopic
          else Inr \<lparr> sink_job = False, cdc_job = True, cdcCursor = cdcStart flag \<rparr>)"

subsection \<open>Parts and effects\<close>

datatype part = TBClient | BatcherPart | SinkProducer | SinkConsumer | CDCProducer

datatype effect = Opened part | Closed part | SinkRuns | CDCRuns u64 | ServerRuns

text \<open>An error of a library: its text, and whether it wraps \<^verbatim>\<open>context.Canceled\<close>.\<close>

type_synonym lib_error = "string \<times> bool"

datatype run_error =
    TBClientFailed lib_error
  | CodecRegistryFailed "string \<times> string"
  | ProducerFailed lib_error
  | ConsumerFailed lib_error
  | NoChangeEvents
  | CursorInterrupted lib_error
  | CursorFailed lib_error
  | CDCProducerFailed lib_error
  | PipelineFailed lib_error

record main_env =
  new_tb_client :: "lib_error option"
  new_producer :: "lib_error option"
  new_consumer :: "lib_error option"
  exposes_change_events :: bool
  resumed :: "lib_error + u64"
  ctx_ended :: bool
  new_cdc_producer :: "lib_error option"
  group_wait :: "lib_error option"

definition json_decoder :: "registry \<Rightarrow> config \<Rightarrow> string \<Rightarrow> string + decoder" where
  "json_decoder r c name =
     (if name \<noteq> ''json'' then Inl (''unsupported codec '' @ name)
      else Inr \<lparr> d_reg = r, d_lim = Limits c \<rparr>)"

text \<open>\<^verbatim>\<open>startSink\<close>: its effects, and an error or what \<^verbatim>\<open>stop\<close> closes.\<close>

definition startSink :: "main_env \<Rightarrow> registry \<Rightarrow> config \<Rightarrow> (run_error + part list) \<times> effect list" where
  "startSink E r c =
     (case NewCodecRegistry (Topics (Kafka c)) (json_decoder r c) of
        Inl e \<Rightarrow> (Inl (CodecRegistryFailed e), [Opened BatcherPart, Closed BatcherPart])
      | Inr decoders \<Rightarrow>
          (case new_producer E of
             Some e \<Rightarrow> (Inl (ProducerFailed e), [Opened BatcherPart, Closed BatcherPart])
           | None \<Rightarrow>
               (case new_consumer E of
                  Some e \<Rightarrow>
                    (Inl (ConsumerFailed e),
                     [Opened BatcherPart, Opened SinkProducer, Closed SinkProducer, Closed BatcherPart])
                | None \<Rightarrow>
                    (Inr [SinkConsumer, SinkProducer, BatcherPart],
                     [Opened BatcherPart, Opened SinkProducer, Opened SinkConsumer, SinkRuns]))))"

definition startCDC :: "main_env \<Rightarrow> u64 option \<Rightarrow> (run_error + part list) \<times> effect list" where
  "startCDC E cursor =
     (if \<not> exposes_change_events E then (Inl NoChangeEvents, [])
      else
        (case (case cursor of
                 Some ck \<Rightarrow> Inr ck
               | None \<Rightarrow>
                   (case resumed E of
                      Inl e \<Rightarrow> if ctx_ended E then Inl (CursorInterrupted e) else Inl (CursorFailed e)
                    | Inr ck \<Rightarrow> Inr ck)) of
           Inl e \<Rightarrow> (Inl e, [])
         | Inr ck \<Rightarrow>
             (case new_cdc_producer E of
                Some e \<Rightarrow> (Inl (CDCProducerFailed e), [])
              | None \<Rightarrow> (Inr [CDCProducer], [Opened CDCProducer, CDCRuns ck]))))"

text \<open>\<^verbatim>\<open>run\<close>: the deferred calls are run in the reverse order of their registration.\<close>

definition run_parts :: "main_env \<Rightarrow> registry \<Rightarrow> config \<Rightarrow> jobs \<Rightarrow> run_error option \<times> effect list" where
  "run_parts E r c w =
     (case new_tb_client E of
        Some e \<Rightarrow> (Some (TBClientFailed e), [])
      | None \<Rightarrow>
          (case (if sink_job w then startSink E r c else (Inr [], [])) of
             (Inl e, fx) \<Rightarrow> (Some e, [Opened TBClient] @ fx @ [Closed TBClient])
           | (Inr stop, fx) \<Rightarrow>
               (case (if cdc_job w then startCDC E (cdcCursor w) else (Inr [], [])) of
                  (Inl e, fx2) \<Rightarrow> (Some e, [Opened TBClient] @ fx @ fx2 @ map Closed (stop @ [TBClient]))
                | (Inr stop2, fx2) \<Rightarrow>
                    (map_option PipelineFailed (group_wait E),
                     [Opened TBClient] @ fx @ fx2 @ [ServerRuns] @ map Closed (stop2 @ stop @ [TBClient])))))"

text \<open>The readiness checks handed to the server: TigerBeetle first, then the consumer group.\<close>

definition nop_check :: "string option \<Rightarrow> string option" where
  "nop_check nop = map_option (\<lambda>e. ''tigerbeetle: '' @ e) nop"

definition joined_check :: "string \<times> int \<Rightarrow> string option" where
  "joined_check member =
     (if fst member = [] \<or> snd member = -1 then Some ''consumer: not joined to group'' else None)"

definition checks :: "jobs \<Rightarrow> string option \<Rightarrow> string \<times> int \<Rightarrow> string option list" where
  "checks w nop member = nop_check nop # (if sink_job w then [joined_check member] else [])"

fun first_failure :: "string option list \<Rightarrow> string option" where
  "first_failure [] = None"
| "first_failure (Some e # cs) = Some e"
| "first_failure (None # cs) = first_failure cs"

definition readiness :: "jobs \<Rightarrow> string option \<Rightarrow> string \<times> int \<Rightarrow> string option" where
  "readiness w nop member = first_failure (checks w nop member)"

lemma ready_exactly:
  "readiness w nop member = None \<longleftrightarrow>
     nop = None \<and> (sink_job w \<longrightarrow> fst member \<noteq> [] \<and> snd member \<noteq> -1)"
  by (cases nop) (auto simp: readiness_def checks_def nop_check_def joined_check_def)

subsection \<open>The end of a subcommand\<close>

fun is_canceled :: "run_error \<Rightarrow> bool" where
  "is_canceled (TBClientFailed e) = snd e"
| "is_canceled (CodecRegistryFailed e) = False"
| "is_canceled (ProducerFailed e) = snd e"
| "is_canceled (ConsumerFailed e) = snd e"
| "is_canceled NoChangeEvents = False"
| "is_canceled (CursorInterrupted e) = True"
| "is_canceled (CursorFailed e) = snd e"
| "is_canceled (CDCProducerFailed e) = snd e"
| "is_canceled (PipelineFailed e) = snd e"

datatype exit_error = ConfigFailed config_error | BadCommand command_error | ShutdownWithError run_error

text \<open>
  \<^verbatim>\<open>runUntilSignal\<close> around a subcommand's body; \<open>sig\<close> says whether the context was cancelled
  by the end.
\<close>

definition runUntilSignal ::
    "config_error + config \<Rightarrow> bool \<Rightarrow> (config \<Rightarrow> registry) \<Rightarrow> main_env \<Rightarrow> subcommand \<Rightarrow> u64 option \<Rightarrow>
     exit_error option \<times> effect list" where
  "runUntilSignal loaded sig mkreg E sc flag =
     (case loaded of
        Inl e \<Rightarrow> (Some (ConfigFailed e), [])
      | Inr c \<Rightarrow>
          (case command_jobs sc flag c of
             Inl e \<Rightarrow> (Some (BadCommand e), [])
           | Inr w \<Rightarrow>
               (case run_parts E (mkreg c) c w of
                  (None, fx) \<Rightarrow> (None, fx)
                | (Some e, fx) \<Rightarrow> (if sig \<and> is_canceled e then None else Some (ShutdownWithError e), fx))))"

subsection \<open>Revocation before the sink exists\<close>

text \<open>\<^verbatim>\<open>sinkHolder\<close>: a revocation that comes before \<^verbatim>\<open>set\<close> finds no sink and does nothing.\<close>

definition holder_set :: "'s \<Rightarrow> 's option \<Rightarrow> 's option" where
  "holder_set s h = Some s"

definition holder_onRevoked :: "('s \<Rightarrow> 'w \<Rightarrow> 'w) \<Rightarrow> 's option \<Rightarrow> 'w \<Rightarrow> 'w" where
  "holder_onRevoked revoke h w = (case h of None \<Rightarrow> w | Some s \<Rightarrow> revoke s w)"

subsection \<open>What is opened is closed\<close>

definition opened :: "effect list \<Rightarrow> part list" where
  "opened fx = concat (map (\<lambda>f. case f of Opened p \<Rightarrow> [p] | _ \<Rightarrow> []) fx)"

definition closed :: "effect list \<Rightarrow> part list" where
  "closed fx = concat (map (\<lambda>f. case f of Closed p \<Rightarrow> [p] | _ \<Rightarrow> []) fx)"

text \<open>The order of the shutdown contract.\<close>

definition shutdown_order :: "part list" where
  "shutdown_order = [CDCProducer, SinkConsumer, SinkProducer, BatcherPart, TBClient]"

definition shuts_down_cleanly :: "effect list \<Rightarrow> bool" where
  "shuts_down_cleanly fx \<longleftrightarrow>
     distinct (opened fx) \<and> closed fx = filter (\<lambda>p. p \<in> set (opened fx)) shutdown_order"

lemma parts_simps [simp]:
  "opened [] = []" "closed [] = []"
  "opened (Opened p # fx) = p # opened fx" "opened (Closed p # fx) = opened fx" "opened (SinkRuns # fx) = opened fx"
  "opened (CDCRuns ck # fx) = opened fx" "opened (ServerRuns # fx) = opened fx"
  "closed (Opened p # fx) = closed fx" "closed (Closed p # fx) = p # closed fx" "closed (SinkRuns # fx) = closed fx"
  "closed (CDCRuns ck # fx) = closed fx" "closed (ServerRuns # fx) = closed fx"
  by (simp_all add: opened_def closed_def)

lemma startSink_cases:
  "startSink E r c \<in> {(Inr [SinkConsumer, SinkProducer, BatcherPart],
       [Opened BatcherPart, Opened SinkProducer, Opened SinkConsumer, SinkRuns])} \<or>
   (\<exists>e. startSink E r c = (Inl e, [Opened BatcherPart, Closed BatcherPart]) \<or>
      startSink E r c = (Inl e, [Opened BatcherPart, Opened SinkProducer, Closed SinkProducer, Closed BatcherPart]))"
  by (auto simp: startSink_def split: sum.splits option.splits)

lemma startCDC_cases:
  "(\<exists>ck. startCDC E cursor = (Inr [CDCProducer], [Opened CDCProducer, CDCRuns ck])) \<or>
   (\<exists>e. startCDC E cursor = (Inl e, []))"
  by (auto simp: startCDC_def split: sum.splits option.splits)

text \<open>
  C19: on every path of \<^verbatim>\<open>run\<close>, whichever constructor fails and however the pipelines end, each
  part that was opened is closed exactly once, in the shutdown order: the CDC producer, the
  consumer, the sink's producer, the batcher and at the end the TigerBeetle client; nothing that
  was not opened is closed.
\<close>

theorem run_closes_what_it_opened:
  "shuts_down_cleanly (snd (run_parts E r c w))"
proof (cases "new_tb_client E")
  case None
  define rs where "rs = (if sink_job w then startSink E r c else (Inr [], []))"
  define rc where "rc = (if cdc_job w then startCDC E (cdcCursor w) else (Inr [], []))"
  have "rs = (Inr [], []) \<or> rs = (Inr [SinkConsumer, SinkProducer, BatcherPart],
       [Opened BatcherPart, Opened SinkProducer, Opened SinkConsumer, SinkRuns]) \<or>
     (\<exists>e. rs = (Inl e, [Opened BatcherPart, Closed BatcherPart]) \<or>
      rs = (Inl e, [Opened BatcherPart, Opened SinkProducer, Closed SinkProducer, Closed BatcherPart]))"
    unfolding rs_def using startSink_cases [of E r c] by auto
  moreover have "rc = (Inr [], []) \<or> (\<exists>ck. rc = (Inr [CDCProducer], [Opened CDCProducer, CDCRuns ck])) \<or> (\<exists>e. rc = (Inl e, []))"
    unfolding rc_def using startCDC_cases [of E "cdcCursor w"] by auto
  ultimately show ?thesis
    using None unfolding run_parts_def rs_def [symmetric] rc_def [symmetric] shuts_down_cleanly_def
    by (elim disjE exE) (simp_all add: shutdown_order_def)
qed (simp add: run_parts_def shuts_down_cleanly_def)

subsection \<open>Decoders for every topic\<close>

lemma NewCodecRegistry_ok:
  assumes "\<forall>t \<in> set ts. build (topic_Codec t) = Inr d"
  shows "\<exists>m. NewCodecRegistry ts build = Inr m \<and> (\<forall>t \<in> set ts. For m (topic_Name t) = Some d)"
proof -
  have "\<exists>m. fold_err (\<lambda>r t. case build (topic_Codec t) of Inl e \<Rightarrow> Inl (topic_Name t, e) | Inr d \<Rightarrow> Inr (r(topic_Name t \<mapsto> d))) m0 ts = Inr m \<and>
      (\<forall>t \<in> set ts. m (topic_Name t) = Some d) \<and> (\<forall>n. m0 n = Some d \<longrightarrow> m n = Some d)" for m0
    using assms
  proof (induction ts arbitrary: m0)
    case (Cons t ts)
    from Cons.IH [of "m0(topic_Name t \<mapsto> d)"] Cons.prems show ?case by fastforce
  qed simp
  from this [of Map.empty] show ?thesis by (auto simp: NewCodecRegistry_def For_def)
qed

text \<open>
  A validated configuration never stops the sink from starting for its codecs, and each of
  the topics the consumer subscribes to has a decoder, with the configuration's own limits.
\<close>

theorem every_configured_topic_has_a_decoder:
  assumes "settings_ok c"
  shows "\<exists>decoders. NewCodecRegistry (Topics (Kafka c)) (json_decoder r c) = Inr decoders \<and>
     (\<forall>t \<in> set (Topics (Kafka c)). For decoders (topic_Name t) = Some \<lparr> d_reg = r, d_lim = Limits c \<rparr>)"
  using assms by (intro NewCodecRegistry_ok) (auto simp: settings_ok_def json_decoder_def)

theorem every_configured_topic_has_a_decoder_witness:
  "\<exists>decoders. NewCodecRegistry (Topics (Kafka sample_config)) (json_decoder sample_registry sample_config) = Inr decoders \<and>
     For decoders ''commands'' = Some \<lparr> d_reg = sample_registry, d_lim = Limits sample_config \<rparr>"
  using every_configured_topic_has_a_decoder [OF sample_ok(1), of sample_registry]
  by (auto simp: sample_config_def)

text \<open>The operator's cursor wins over the topic's, and zero is a cursor.\<close>

lemma explicit_cursor_wins:
  assumes "exposes_change_events E" and "new_cdc_producer E = None"
  shows "CDCRuns ck \<in> set (snd (startCDC E (Some ck)))"
  using assms by (simp add: startCDC_def)

end
