(* ===== verification/Json_Lexer.thy ===== *)
theory Json_Lexer
  imports Emit
begin

section \<open>Reading and writing JSON with easyjson\<close>

text \<open>
  The readers and writers generated by easyjson are programs over a lexer and a writer of that
  library. The library is not part of the repository: its lexer is a record of operations on an
  abstract state, with the laws relied on; the loops all generated readers are made of are
  defined here once, with what they compute on a JSON tree.
\<close>

subsection \<open>JSON trees and tokens\<close>

datatype json =
    JNull
  | JBool bool
  | JNumber string
  | JString string
  | JArray "json list"
  | JObject "(string \<times> json) list"

datatype token = TNull | TBool bool | TNumber string | TString string | TPunct char

fun commas :: "token list list \<Rightarrow> token list" where
  "commas [] = []"
| "commas [ts] = ts"
| "commas (ts # us # tss) = ts @ TPunct CHR '','' # commas (us # tss)"

fun tokens :: "json \<Rightarrow> token list" where
  "tokens JNull = [TNull]"
| "tokens (JBool b) = [TBool b]"
| "tokens (JNumber n) = [TNumber n]"
| "tokens (JString s) = [TString s]"
| "tokens (JArray js) = TPunct CHR ''['' # commas (map tokens js) @ [TPunct CHR '']'']"
| "tokens (JObject ms) =
     TPunct CHR ''{'' # commas (map (\<lambda>(k, v). TString k # TPunct CHR '':'' # tokens v) ms) @ [TPunct CHR ''}'']"

lemma tokens_start: "\<exists>t ts. tokens j = t # ts \<and> (t = TNull \<longleftrightarrow> j = JNull) \<and> t \<noteq> TPunct CHR '']'' \<and> t \<noteq> TPunct CHR ''}''"
  by (cases j) auto

subsection \<open>The lexer\<close>

record lexer_error =
  le_Offset :: int
  le_Reason :: string
  le_Data :: string

record 'l jlexer =
  jl_New :: "string \<Rightarrow> 'l"
  jl_IsStart :: "'l \<Rightarrow> bool"
  jl_IsNull :: "'l \<Rightarrow> bool \<times> 'l"
  jl_Skip :: "'l \<Rightarrow> 'l"
  jl_Consumed :: "'l \<Rightarrow> 'l"
  jl_Delim :: "char \<Rightarrow> 'l \<Rightarrow> 'l"
  jl_IsDelim :: "char \<Rightarrow> 'l \<Rightarrow> bool \<times> 'l"
  jl_UnsafeFieldName :: "'l \<Rightarrow> string \<times> 'l"
  jl_WantColon :: "'l \<Rightarrow> 'l"
  jl_WantComma :: "'l \<Rightarrow> 'l"
  jl_String :: "'l \<Rightarrow> string \<times> 'l"
  jl_Uint64 :: "'l \<Rightarrow> u64 \<times> 'l"
  jl_Uint32 :: "'l \<Rightarrow> u32 \<times> 'l"
  jl_Int :: "'l \<Rightarrow> int \<times> 'l"
  jl_Int32 :: "'l \<Rightarrow> int \<times> 'l"
  jl_Int64 :: "'l \<Rightarrow> int \<times> 'l"
  jl_GetPos :: "'l \<Rightarrow> int"
  jl_AddError :: "lexer_error \<Rightarrow> 'l \<Rightarrow> 'l"
  jl_Error :: "'l \<Rightarrow> string option"

text \<open>\<^verbatim>\<open>strconv.ParseInt(s, 10, bits)\<close>.\<close>

definition ParseInt :: "nat \<Rightarrow> string \<Rightarrow> int option" where
  "ParseInt bits s =
     (let neg = s \<noteq> [] \<and> hd s = CHR ''-'';
          ds = (if s \<noteq> [] \<and> (hd s = CHR ''-'' \<or> hd s = CHR ''+'') then tl s else s);
          v = (if neg then - int (dec_val ds) else int (dec_val ds))
      in if ds \<noteq> [] \<and> list_all is_digit ds \<and> - (2 ^ (bits - 1)) \<le> v \<and> v < 2 ^ (bits - 1) then Some v else None)"

lemma ParseInt_itoa [simp]:
  "ParseInt bits (itoa n) = (if - (2 ^ (bits - 1)) \<le> n \<and> n < 2 ^ (bits - 1) then Some n else None)"
proof -
  have "is_digit (hd (dec k))" for k using dec_digits [of k] dec_nonempty [of k] by (cases "dec k") auto
  moreover have "\<not> is_digit CHR ''-''" "\<not> is_digit CHR ''+''" by (simp_all add: is_digit_def)
  ultimately have "hd (dec k) \<noteq> CHR ''-''" "hd (dec k) \<noteq> CHR ''+''" for k by metis+
  then show ?thesis by (simp add: ParseInt_def itoa_def Let_def)
qed

text \<open>What the typed readers make of a token.\<close>

fun string_token :: "token \<Rightarrow> string option" where
  "string_token (TString s) = Some s"
| "string_token _ = None"

fun uint_token :: "nat \<Rightarrow> token \<Rightarrow> ('w :: len) word option" where
  "uint_token bits (TNumber n) = map_option of_nat (ParseUint bits n)"
| "uint_token bits _ = None"

fun int_token :: "nat \<Rightarrow> token \<Rightarrow> int option" where
  "int_token bits (TNumber n) = ParseInt bits n"
| "int_token bits _ = None"

text \<open>
  The laws. \<open>left\<close> measures what is left to read, and is 0 exactly after an error, which is final:
  no operation gains input, each reader of a token uses one up or fails, and \<^verbatim>\<open>IsDelim\<close> holds after an
  error, so that loops end.
\<close>

definition lexer_stops :: "'l jlexer \<Rightarrow> ('l \<Rightarrow> nat) \<Rightarrow> bool" where
  "lexer_stops L left \<longleftrightarrow>
     (\<forall>l. left l = 0 \<longleftrightarrow> jl_Error L l \<noteq> None) \<and>
     (\<forall>l. left (snd (jl_IsNull L l)) \<le> left l) \<and>
     (\<forall>l. left (jl_Consumed L l) \<le> left l) \<and>
     (\<forall>l. left (jl_WantColon L l) \<le> left l) \<and>
     (\<forall>l. left (jl_WantComma L l) \<le> left l) \<and>
     (\<forall>c l. left (snd (jl_IsDelim L c l)) \<le> left l \<and> (left l = 0 \<longrightarrow> fst (jl_IsDelim L c l))) \<and>
     (\<forall>l. left (jl_Skip L l) \<le> left l - 1) \<and>
     (\<forall>c l. left (jl_Delim L c l) \<le> left l - 1) \<and>
     (\<forall>l. left (snd (jl_UnsafeFieldName L l)) \<le> left l - 1) \<and>
     (\<forall>l. left (snd (jl_String L l)) \<le> left l - 1) \<and>
     (\<forall>l. left (snd (jl_Uint64 L l)) \<le> left l - 1) \<and>
     (\<forall>l. left (snd (jl_Uint32 L l)) \<le> left l - 1) \<and>
     (\<forall>l. left (snd (jl_Int L l)) \<le> left l - 1) \<and>
     (\<forall>l. left (snd (jl_Int32 L l)) \<le> left l - 1) \<and>
     (\<forall>l. left (snd (jl_Int64 L l)) \<le> left l - 1) \<and>
     (\<forall>e l. left (jl_AddError L e l) = 0)"

text \<open>
  \<open>rdy l ts\<close>: the lexer has the tokens \<open>ts\<close> before it and will take the first; \<open>aft l ts\<close>: it has
  taken a name or a value and waits for the separator. A typed reader takes a token of its type
  and fails on any other.
\<close>

definition takes :: "('l \<Rightarrow> nat) \<Rightarrow> ('l \<Rightarrow> token list \<Rightarrow> bool) \<Rightarrow> ('l \<Rightarrow> token list \<Rightarrow> bool) \<Rightarrow>
    ('l \<Rightarrow> 'a \<times> 'l) \<Rightarrow> (token \<Rightarrow> 'a option) \<Rightarrow> bool" where
  "takes left rdy aft get val \<longleftrightarrow>
     (\<forall>l t ts. rdy l (t # ts) \<longrightarrow>
        (case val t of Some v \<Rightarrow> fst (get l) = v \<and> aft (snd (get l)) ts | None \<Rightarrow> left (snd (get l)) = 0))"

definition closing :: "token \<Rightarrow> bool" where
  "closing t \<longleftrightarrow> t = TPunct CHR ''}'' \<or> t = TPunct CHR '']''"

definition lexer_reads ::
    "'l jlexer \<Rightarrow> ('l \<Rightarrow> nat) \<Rightarrow> ('l \<Rightarrow> token list \<Rightarrow> bool) \<Rightarrow> ('l \<Rightarrow> token list \<Rightarrow> bool) \<Rightarrow> bool" where
  "lexer_reads L left rdy aft \<longleftrightarrow>
     (\<forall>l ts. rdy l ts \<longrightarrow> \<not> jl_IsStart L l) \<and>
     (\<forall>l t ts. rdy l (t # ts) \<longrightarrow> (fst (jl_IsNull L l) \<longleftrightarrow> t = TNull) \<and> rdy (snd (jl_IsNull L l)) (t # ts)) \<and>
     (\<forall>l ts. rdy l (TNull # ts) \<longrightarrow> aft (jl_Skip L l) ts) \<and>
     (\<forall>l c t ts. rdy l (t # ts) \<longrightarrow> (fst (jl_IsDelim L c l) \<longleftrightarrow> t = TPunct c) \<and> rdy (snd (jl_IsDelim L c l)) (t # ts)) \<and>
     (\<forall>l c ts. c \<in> {CHR ''{'', CHR ''[''} \<longrightarrow> rdy l (TPunct c # ts) \<longrightarrow> rdy (jl_Delim L c l) ts) \<and>
     (\<forall>l c ts. c \<in> {CHR ''}'', CHR '']''} \<longrightarrow> rdy l (TPunct c # ts) \<longrightarrow> aft (jl_Delim L c l) ts) \<and>
     (\<forall>l c t ts. rdy l (t # ts) \<longrightarrow> t \<noteq> TPunct c \<longrightarrow> left (jl_Delim L c l) = 0) \<and>
     (\<forall>l ts. aft l (TPunct CHR '':'' # ts) \<longrightarrow> rdy (jl_WantColon L l) ts) \<and>
     (\<forall>l t ts. aft l (TPunct CHR '','' # t # ts) \<longrightarrow> \<not> closing t \<longrightarrow> rdy (jl_WantComma L l) (t # ts)) \<and>
     (\<forall>l t ts. aft l (t # ts) \<longrightarrow> closing t \<longrightarrow> rdy (jl_WantComma L l) (t # ts)) \<and>
     (\<forall>l. aft l [] \<longrightarrow> left (jl_Consumed L l) \<noteq> 0) \<and>
     takes left rdy aft (jl_UnsafeFieldName L) string_token \<and>
     takes left rdy aft (jl_String L) string_token \<and>
     takes left rdy aft (jl_Uint64 L) (uint_token 64) \<and>
     takes left rdy aft (jl_Uint32 L) (uint_token 32) \<and>
     takes left rdy aft (jl_Int L) (int_token 64) \<and>
     takes left rdy aft (jl_Int32 L) (int_token 32) \<and>
     takes left rdy aft (jl_Int64 L) (int_token 64)"

text \<open>\<open>denotes s j\<close>: the text \<open>s\<close> is JSON for the tree \<open>j\<close>; a new lexer on it has its tokens before it.\<close>

definition lexer_opens ::
    "'l jlexer \<Rightarrow> ('l \<Rightarrow> token list \<Rightarrow> bool) \<Rightarrow> (string \<Rightarrow> json \<Rightarrow> bool) \<Rightarrow> bool" where
  "lexer_opens L rdy denotes \<longleftrightarrow>
     (\<forall>s. jl_IsStart L (jl_New L s)) \<and>
     (\<forall>s j. denotes s j \<longrightarrow>
        (fst (jl_IsNull L (jl_New L s)) \<longleftrightarrow> j = JNull) \<and> rdy (snd (jl_IsNull L (jl_New L s))) (tokens j))"

subsection \<open>The generated readers\<close>

type_synonym ('l, 'r) handler = "'l \<times> 'r \<Rightarrow> ('l \<times> 'r) option"

text \<open>\<^verbatim>\<open>if in.IsNull() { in.Skip() } else { ... }\<close>.\<close>

definition unless_null :: "'l jlexer \<Rightarrow> ('l, 'r) handler \<Rightarrow> ('l, 'r) handler" where
  "unless_null L h = (\<lambda>(l, r). case jl_IsNull L l of (isNull, l1) \<Rightarrow>
     if isNull then Some (jl_Skip L l1, r) else h (l1, r))"

definition scalar :: "'l jlexer \<Rightarrow> ('l \<Rightarrow> 'a \<times> 'l) \<Rightarrow> ('a \<Rightarrow> 'r \<Rightarrow> 'r) \<Rightarrow> ('l, 'r) handler" where
  "scalar L get upd = unless_null L (\<lambda>(l, r). case get l of (v, l1) \<Rightarrow> Some (l1, upd v r))"

definition unknown_field :: "'l jlexer \<Rightarrow> string \<Rightarrow> ('l, 'r) handler" where
  "unknown_field L key = (\<lambda>(l, r).
     Some (jl_AddError L \<lparr> le_Offset = jl_GetPos L l, le_Reason = ''unknown field'', le_Data = key \<rparr> l, r))"

text \<open>The loop over an object's members; \<open>None\<close>: it does not return.\<close>

partial_function (option) object_loop ::
    "'l jlexer \<Rightarrow> (string \<Rightarrow> 'l \<times> 'r \<Rightarrow> ('l \<times> 'r) option) \<Rightarrow> 'l \<Rightarrow> 'r \<Rightarrow> ('l \<times> 'r) option" where
  "object_loop L field l r =
     (let d = jl_IsDelim L CHR ''}'' l in
      if fst d then Some (snd d, r)
      else let k = jl_UnsafeFieldName L (snd d) in
        Option.bind (field (fst k) (jl_WantColon L (snd k), r)) (\<lambda>s. object_loop L field (jl_WantComma L (fst s)) (snd s)))"

definition decode_object :: "'l jlexer \<Rightarrow> (string \<Rightarrow> ('l, 'r) handler) \<Rightarrow> ('l, 'r) handler" where
  "decode_object L field = (\<lambda>(l, r).
     let isTopLevel = jl_IsStart L l in
     case jl_IsNull L l of (isNull, l1) \<Rightarrow>
       if isNull then Some (jl_Skip L (if isTopLevel then jl_Consumed L l1 else l1), r)
       else Option.bind (object_loop L field (jl_Delim L CHR ''{'' l1) r) (\<lambda>(l2, r2).
         let l3 = jl_Delim L CHR ''}'' l2 in Some (if isTopLevel then jl_Consumed L l3 else l3, r2)))"

partial_function (option) array_loop ::
    "'l jlexer \<Rightarrow> ('l \<Rightarrow> ('l \<times> 'a) option) \<Rightarrow> 'l \<Rightarrow> 'a list \<Rightarrow> ('l \<times> 'a list) option" where
  "array_loop L item l xs =
     (let d = jl_IsDelim L CHR '']'' l in
      if fst d then Some (snd d, xs)
      else Option.bind (item (snd d)) (\<lambda>s. array_loop L item (jl_WantComma L (fst s)) (xs @ [snd s])))"

text \<open>
  A slice field. A nil slice is made before the loop, its size taken from a look at the next
  token; a slice that is there is emptied. Every element starts from \<open>zero\<close>.
\<close>

definition slice_field ::
    "'l jlexer \<Rightarrow> ('l, 'a) handler \<Rightarrow> 'a \<Rightarrow> ('r \<Rightarrow> 'a slice) \<Rightarrow> ('a slice \<Rightarrow> 'r \<Rightarrow> 'r) \<Rightarrow> ('l, 'r) handler" where
  "slice_field L item zero get upd = (\<lambda>(l, r). case jl_IsNull L l of (isNull, l1) \<Rightarrow>
     if isNull then Some (jl_Skip L l1, upd None r)
     else let l2 = jl_Delim L CHR ''['' l1;
              l3 = (if get r = None then snd (jl_IsDelim L CHR '']'' l2) else l2)
          in Option.bind (array_loop L (\<lambda>l. unless_null L item (l, zero)) l3 []) (\<lambda>(l4, xs).
             Some (jl_Delim L CHR '']'' l4, upd (Some xs) r)))"

definition string_item :: "'l jlexer \<Rightarrow> ('l, string) handler" where
  "string_item L = (\<lambda>(l, _). case jl_String L l of (v, l1) \<Rightarrow> Some (l1, v))"

definition struct_field ::
    "'l jlexer \<Rightarrow> ('l, 'a) handler \<Rightarrow> ('r \<Rightarrow> 'a) \<Rightarrow> ('a \<Rightarrow> 'r \<Rightarrow> 'r) \<Rightarrow> ('l, 'r) handler" where
  "struct_field L unmarshal get upd = unless_null L (\<lambda>(l, r).
     Option.bind (unmarshal (l, get r)) (\<lambda>(l1, v). Some (l1, upd v r)))"

text \<open>\<^verbatim>\<open>UnmarshalJSON\<close>: a new lexer on the data, and its error.\<close>

definition unmarshal_json :: "'l jlexer \<Rightarrow> ('l, 'r) handler \<Rightarrow> string \<Rightarrow> 'r \<Rightarrow> (string + 'r) option" where
  "unmarshal_json L unmarshal data v =
     Option.bind (unmarshal (jl_New L data, v)) (\<lambda>(l, r).
       Some (case jl_Error L l of Some e \<Rightarrow> Inl e | None \<Rightarrow> Inr r))"

subsection \<open>What they compute on a tree\<close>

text \<open>The fold over an object's members; \<open>None\<close> is an error.\<close>

fun read_members :: "(string \<Rightarrow> json \<Rightarrow> 'r \<Rightarrow> 'r option) \<Rightarrow> (string \<times> json) list \<Rightarrow> 'r \<Rightarrow> 'r option" where
  "read_members g [] r = Some r"
| "read_members g ((k, v) # ms) r = Option.bind (g k v r) (read_members g ms)"

fun read_object :: "(string \<Rightarrow> json \<Rightarrow> 'r \<Rightarrow> 'r option) \<Rightarrow> json \<Rightarrow> 'r \<Rightarrow> 'r option" where
  "read_object g JNull r = Some r"
| "read_object g (JObject ms) r = read_members g ms r"
| "read_object g _ r = None"

definition read_scalar :: "(token \<Rightarrow> 'a option) \<Rightarrow> ('a \<Rightarrow> 'r \<Rightarrow> 'r) \<Rightarrow> json \<Rightarrow> 'r \<Rightarrow> 'r option" where
  "read_scalar val upd j r = (if j = JNull then Some r else map_option (\<lambda>v. upd v r) (val (hd (tokens j))))"

fun read_items :: "(json \<Rightarrow> 'a option) \<Rightarrow> json list \<Rightarrow> 'a list option" where
  "read_items g [] = Some []"
| "read_items g (j # js) = Option.bind (g j) (\<lambda>x. map_option ((#) x) (read_items g js))"

fun read_slice :: "(json \<Rightarrow> 'a \<Rightarrow> 'a option) \<Rightarrow> 'a \<Rightarrow> ('a slice \<Rightarrow> 'r \<Rightarrow> 'r) \<Rightarrow> json \<Rightarrow> 'r \<Rightarrow> 'r option" where
  "read_slice g zero upd JNull r = Some (upd None r)"
| "read_slice g zero upd (JArray js) r =
     map_option (\<lambda>xs. upd (Some xs) r) (read_items (\<lambda>j. if j = JNull then Some zero else g j zero) js)"
| "read_slice g zero upd _ r = None"

definition read_string :: "json \<Rightarrow> string \<Rightarrow> string option" where
  "read_string j _ = string_token (hd (tokens j))"

definition read_struct :: "(json \<Rightarrow> 'a \<Rightarrow> 'a option) \<Rightarrow> ('r \<Rightarrow> 'a) \<Rightarrow> ('a \<Rightarrow> 'r \<Rightarrow> 'r) \<Rightarrow> json \<Rightarrow> 'r \<Rightarrow> 'r option" where
  "read_struct g get upd j r = (if j = JNull then Some r else map_option (\<lambda>v. upd v r) (g j (get r)))"

text \<open>A struct's fields as a table; a name that is not in it is an error.\<close>

definition in_schema :: "(string \<times> (json \<Rightarrow> 'r \<Rightarrow> 'r option)) list \<Rightarrow> string \<Rightarrow> json \<Rightarrow> 'r \<Rightarrow> 'r option" where
  "in_schema table k v r = (case map_of table k of None \<Rightarrow> None | Some g \<Rightarrow> g v r)"

subsection \<open>The readers follow the tree\<close>

definition follows :: "('l \<Rightarrow> nat) \<Rightarrow> ('l \<Rightarrow> bool) \<Rightarrow> ('l \<times> 'r) option \<Rightarrow> 'r option \<Rightarrow> bool" where
  "follows left at res expected \<longleftrightarrow>
     (case expected of
        Some r \<Rightarrow> (\<exists>l. res = Some (l, r) \<and> at l)
      | None \<Rightarrow> (\<exists>l r. res = Some (l, r) \<and> left l = 0))"

lemma follows_simps [simp]:
  "follows left at (Some (l, r)) (Some r') \<longleftrightarrow> r' = r \<and> at l"
  "follows left at (Some (l, r)) None \<longleftrightarrow> left l = 0"
  by (auto simp: follows_def)

text \<open>One step after another: from where the first one got, or after its error.\<close>

lemma follows_bind:
  assumes "follows left at res expected"
    and "\<And>l r. expected = Some r \<Longrightarrow> at l \<Longrightarrow> follows left at' (f (l, r)) (h r)"
    and "\<And>l r. left l = 0 \<Longrightarrow> follows left at' (f (l, r)) None"
  shows "follows left at' (Option.bind res f) (Option.bind expected h)"
proof (cases expected)
  case (Some a)
  with assms(1) obtain l where "res = Some (l, a)" "at l" by (auto simp: follows_def)
  then show ?thesis using assms(2) [OF Some] Some by simp
next
  case None
  with assms(1) obtain l r where "res = Some (l, r)" "left l = 0" by (auto simp: follows_def)
  then show ?thesis using assms(3) None by simp
qed

definition sim :: "('l \<Rightarrow> nat) \<Rightarrow> ('l \<Rightarrow> token list \<Rightarrow> bool) \<Rightarrow> ('l \<Rightarrow> token list \<Rightarrow> bool) \<Rightarrow>
    ('l, 'r) handler \<Rightarrow> (json \<Rightarrow> 'r \<Rightarrow> 'r option) \<Rightarrow> bool" where
  "sim left rdy aft h g \<longleftrightarrow>
     (\<forall>v l ts r. rdy l (tokens v @ ts) \<longrightarrow> follows left (\<lambda>l'. aft l' ts) (h (l, r)) (g v r))"

text \<open>A reader of what is not null.\<close>

definition sim_value :: "('l \<Rightarrow> nat) \<Rightarrow> ('l \<Rightarrow> token list \<Rightarrow> bool) \<Rightarrow> ('l \<Rightarrow> token list \<Rightarrow> bool) \<Rightarrow>
    ('l, 'r) handler \<Rightarrow> (json \<Rightarrow> 'r \<Rightarrow> 'r option) \<Rightarrow> bool" where
  "sim_value left rdy aft h g \<longleftrightarrow>
     (\<forall>v l ts r. v \<noteq> JNull \<longrightarrow> rdy l (tokens v @ ts) \<longrightarrow> follows left (\<lambda>l'. aft l' ts) (h (l, r)) (g v r))"

text \<open>It returns on every input, and uses input up unless it fails.\<close>

definition total :: "('l \<Rightarrow> nat) \<Rightarrow> ('l, 'r) handler \<Rightarrow> bool" where
  "total left h \<longleftrightarrow> (\<forall>l r. \<exists>l' r'. h (l, r) = Some (l', r') \<and> left l' \<le> left l - 1)"

lemma totalI: "(\<And>l r. \<exists>l' r'. h (l, r) = Some (l', r') \<and> left l' \<le> left l - 1) \<Longrightarrow> total left h"
  by (simp add: total_def)

lemma totalD: "total left h \<Longrightarrow> \<exists>l' r'. h (l, r) = Some (l', r') \<and> left l' \<le> left l - 1"
  by (simp add: total_def)

lemma stops:
  assumes "lexer_stops L left"
  shows "left (snd (jl_IsNull L l)) \<le> left l" "left (jl_Consumed L l) \<le> left l" "left (jl_WantColon L l) \<le> left l"
    "left (jl_WantComma L l) \<le> left l" "left (snd (jl_IsDelim L c l)) \<le> left l"
    "left l = 0 \<Longrightarrow> fst (jl_IsDelim L c l)" "left (jl_Skip L l) \<le> left l - 1" "left (jl_Delim L c l) \<le> left l - 1"
    "left (snd (jl_UnsafeFieldName L l)) \<le> left l - 1" "left (snd (jl_String L l)) \<le> left l - 1"
    "left (snd (jl_Uint64 L l)) \<le> left l - 1" "left (snd (jl_Uint32 L l)) \<le> left l - 1"
    "left (snd (jl_Int L l)) \<le> left l - 1" "left (snd (jl_Int32 L l)) \<le> left l - 1"
    "left (snd (jl_Int64 L l)) \<le> left l - 1" "left (jl_AddError L e l) = 0" "left l = 0 \<longleftrightarrow> jl_Error L l \<noteq> None"
  using assms unfolding lexer_stops_def by blast+

lemma reads:
  assumes "lexer_reads L left rdy aft"
  shows "rdy l ts \<Longrightarrow> \<not> jl_IsStart L l" "rdy l (t # ts) \<Longrightarrow> fst (jl_IsNull L l) \<longleftrightarrow> t = TNull"
    "rdy l (t # ts) \<Longrightarrow> rdy (snd (jl_IsNull L l)) (t # ts)" "rdy l (TNull # ts) \<Longrightarrow> aft (jl_Skip L l) ts"
    "rdy l (t # ts) \<Longrightarrow> fst (jl_IsDelim L c l) \<longleftrightarrow> t = TPunct c" "rdy l (t # ts) \<Longrightarrow> rdy (snd (jl_IsDelim L c l)) (t # ts)"
    "c \<in> {CHR ''{'', CHR ''[''} \<Longrightarrow> rdy l (TPunct c # ts) \<Longrightarrow> rdy (jl_Delim L c l) ts"
    "c \<in> {CHR ''}'', CHR '']''} \<Longrightarrow> rdy l (TPunct c # ts) \<Longrightarrow> aft (jl_Delim L c l) ts"
    "rdy l (t # ts) \<Longrightarrow> t \<noteq> TPunct c \<Longrightarrow> left (jl_Delim L c l) = 0"
    "aft l (TPunct CHR '':'' # ts) \<Longrightarrow> rdy (jl_WantColon L l) ts"
    "aft l (TPunct CHR '','' # t # ts) \<Longrightarrow> \<not> closing t \<Longrightarrow> rdy (jl_WantComma L l) (t # ts)"
    "aft l (t # ts) \<Longrightarrow> closing t \<Longrightarrow> rdy (jl_WantComma L l) (t # ts)" "aft l [] \<Longrightarrow> left (jl_Consumed L l) \<noteq> 0"
    "takes left rdy aft (jl_UnsafeFieldName L) string_token" "takes left rdy aft (jl_String L) string_token"
    "takes left rdy aft (jl_Uint64 L) (uint_token 64)" "takes left rdy aft (jl_Uint32 L) (uint_token 32)"
    "takes left rdy aft (jl_Int L) (int_token 64)" "takes left rdy aft (jl_Int32 L) (int_token 32)"
    "takes left rdy aft (jl_Int64 L) (int_token 64)"
  using assms unfolding lexer_reads_def by (simp_all only: simp_thms)

lemma takesD:
  assumes "takes left rdy aft get val" and "rdy l (t # ts)"
  shows "val t = Some v \<Longrightarrow> fst (get l) = v \<and> aft (snd (get l)) ts" and "val t = None \<Longrightarrow> left (snd (get l)) = 0"
  using assms unfolding takes_def by (force split: option.splits)+

lemma unless_null_sim:
  assumes "lexer_reads L left rdy aft" and "sim_value left rdy aft h g"
  shows "sim left rdy aft (unless_null L h) (\<lambda>j r. if j = JNull then Some r else g j r)"
  unfolding sim_def
proof (intro allI impI)
  fix v l ts r assume rdy: "rdy l (tokens v @ ts)"
  obtain t us where t: "tokens v = t # us" "t = TNull \<longleftrightarrow> v = JNull" using tokens_start by blast
  note R = reads [OF assms(1)]
  from rdy t(1) have n: "fst (jl_IsNull L l) \<longleftrightarrow> v = JNull" "rdy (snd (jl_IsNull L l)) (tokens v @ ts)"
    using R(2,3) [of l t "us @ ts"] t(2) by auto
  show "follows left (\<lambda>l'. aft l' ts) (unless_null L h (l, r)) (if v = JNull then Some r else g v r)"
  proof (cases "v = JNull")
    case True
    with n have "aft (jl_Skip L (snd (jl_IsNull L l))) ts" using R(4) [of "snd (jl_IsNull L l)" ts] by simp
    with True n show ?thesis by (simp add: unless_null_def case_prod_beta)
  next
    case False
    with n assms(2) have "follows left (\<lambda>l'. aft l' ts) (h (snd (jl_IsNull L l), r)) (g v r)"
      unfolding sim_value_def by blast
    with False n show ?thesis by (simp add: unless_null_def case_prod_beta)
  qed
qed

lemma tokens_scalar: "tokens v = t # us \<Longrightarrow> us = [] \<or> (\<exists>c. t = TPunct c)"
  by (cases v) auto

lemma scalar_sim:
  assumes "lexer_reads L left rdy aft" and "takes left rdy aft get val" and "\<And>c. val (TPunct c) = None"
  shows "sim left rdy aft (scalar L get upd) (read_scalar val upd)"
proof -
  have "sim_value left rdy aft (\<lambda>(l, r). case get l of (v, l1) \<Rightarrow> Some (l1, upd v r))
      (\<lambda>j r. map_option (\<lambda>v. upd v r) (val (hd (tokens j))))"
    unfolding sim_value_def
  proof (intro allI impI)
    fix v l ts r assume "rdy l (tokens v @ ts)"
    moreover obtain t us where t: "tokens v = t # us" using tokens_start by blast
    ultimately have rdy: "rdy l (t # us @ ts)" by simp
    show "follows left (\<lambda>l'. aft l' ts) ((\<lambda>(l, r). case get l of (v, l1) \<Rightarrow> Some (l1, upd v r)) (l, r))
        (map_option (\<lambda>v. upd v r) (val (hd (tokens v))))"
      using takesD [OF assms(2) rdy] t tokens_scalar [OF t] assms(3) by (cases "val t") (auto simp: case_prod_beta)
  qed
  from unless_null_sim [OF assms(1) this] show ?thesis
    unfolding scalar_def read_scalar_def [abs_def] .
qed

subsection \<open>Objects\<close>

lemma commas_Cons: "commas (x # xs) = x @ (if xs = [] then [] else TPunct CHR '','' # commas xs)"
  by (cases xs) simp_all

definition member_tokens :: "string \<times> json \<Rightarrow> token list" where
  "member_tokens m = TString (fst m) # TPunct CHR '':'' # tokens (snd m)"

lemma tokens_JObject: "tokens (JObject ms) = TPunct CHR ''{'' # commas (map member_tokens ms) @ [TPunct CHR ''}'']"
proof -
  have "(\<lambda>(k, v). TString k # TPunct CHR '':'' # tokens v) = member_tokens"
    by (simp add: fun_eq_iff member_tokens_def)
  then show ?thesis by simp
qed

lemma object_loop_failed:
  assumes "lexer_stops L left" and "left l = 0"
  shows "\<exists>l'. object_loop L field l r = Some (l', r) \<and> left l' = 0"
  using stops(5) [OF assms(1), of "CHR ''}''" l] stops(6) [OF assms] assms(2) by (subst object_loop.simps) (simp add: Let_def)

lemma array_loop_failed:
  assumes "lexer_stops L left" and "left l = 0"
  shows "\<exists>l'. array_loop L item l xs = Some (l', xs) \<and> left l' = 0"
  using stops(5) [OF assms(1), of "CHR '']''" l] stops(6) [OF assms] assms(2) by (subst array_loop.simps) (simp add: Let_def)

lemma object_loop_sim:
  assumes "lexer_reads L left rdy aft" and "lexer_stops L left" and "\<And>k. sim left rdy aft (field k) (g k)"
    and "rdy l (commas (map member_tokens ms) @ TPunct CHR ''}'' # ts)"
  shows "follows left (\<lambda>l'. rdy l' (TPunct CHR ''}'' # ts)) (object_loop L field l r) (read_members g ms r)"
  using assms(4)
proof (induction ms arbitrary: l r)
  case Nil
  then show ?case
    using reads(5,6) [OF assms(1), of l "TPunct CHR ''}''" ts "CHR ''}''"]
    by (subst object_loop.simps) (simp add: Let_def)
next
  case (Cons m ms)
  note R = reads [OF assms(1)] and S = stops [OF assms(2)]
  obtain k v where m: "m = (k, v)" by (cases m)
  define rest where "rest = (if ms = [] then [] else TPunct CHR '','' # commas (map member_tokens ms)) @ TPunct CHR ''}'' # ts"
  let ?all = "TString k # TPunct CHR '':'' # tokens v @ rest"
  let ?d = "jl_IsDelim L CHR ''}'' l"
  let ?k = "jl_UnsafeFieldName L (snd ?d)"
  have "rdy l ?all" using Cons.prems by (simp add: m commas_Cons rest_def member_tokens_def [of "(k, v)"])
  then have d: "\<not> fst ?d" "rdy (snd ?d) ?all" using R(5,6) by auto
  have key: "fst ?k = k" "aft (snd ?k) (TPunct CHR '':'' # tokens v @ rest)"
    using takesD(1) [OF R(14) d(2), of k] by auto
  have sep: "rdy (jl_WantComma L l') (commas (map member_tokens ms) @ TPunct CHR ''}'' # ts)" if "aft l' rest" for l'
  proof (cases ms)
    case Nil
    with that R(12) [of l' "TPunct CHR ''}''" ts] show ?thesis by (simp add: rest_def closing_def)
  next
    case (Cons a as)
    then obtain s us where "commas (map member_tokens ms) = TString s # us"
      by (auto simp: commas_Cons member_tokens_def split: prod.split)
    with that Cons R(11) [of l' "TString s" "us @ TPunct CHR ''}'' # ts"] show ?thesis by (simp add: rest_def closing_def)
  qed
  have "follows left (\<lambda>l'. rdy l' (TPunct CHR ''}'' # ts))
      (Option.bind (field k (jl_WantColon L (snd ?k), r)) (\<lambda>s. object_loop L field (jl_WantComma L (fst s)) (snd s)))
      (Option.bind (g k v r) (read_members g ms))"
  proof (rule follows_bind [where at = "\<lambda>l'. aft l' rest"])
    show "follows left (\<lambda>l'. aft l' rest) (field k (jl_WantColon L (snd ?k), r)) (g k v r)"
      using assms(3) [of k] R(10) [OF key(2)] unfolding sim_def by blast
    show "follows left (\<lambda>l'. rdy l' (TPunct CHR ''}'' # ts)) (object_loop L field (jl_WantComma L (fst (l', r'))) (snd (l', r')))
        (read_members g ms r')" if "aft l' rest" for l' r'
      using Cons.IH [OF sep [OF that]] by simp
    show "follows left (\<lambda>l'. rdy l' (TPunct CHR ''}'' # ts)) (object_loop L field (jl_WantComma L (fst (l', r'))) (snd (l', r'))) None"
      if "left l' = 0" for l' r'
      using object_loop_failed [OF assms(2), of "jl_WantComma L l'" field r'] S(4) [of l'] that by auto
  qed
  then show ?case using d(1) key(1) by (subst object_loop.simps) (simp add: Let_def m)
qed

lemma decode_object_sim:
  assumes "lexer_reads L left rdy aft" and "lexer_stops L left" and "\<And>k. sim left rdy aft (field k) (g k)"
  shows "sim left rdy aft (decode_object L field) (read_object g)"
  unfolding sim_def
proof (intro allI impI)
  fix v l ts r assume rdy: "rdy l (tokens v @ ts)"
  note R = reads [OF assms(1)] and S = stops [OF assms(2)]
  obtain t us where t: "tokens v = t # us" "t = TNull \<longleftrightarrow> v = JNull" using tokens_start by blast
  let ?l1 = "snd (jl_IsNull L l)"
  have top: "\<not> jl_IsStart L l" using R(1) [OF rdy] .
  have n: "fst (jl_IsNull L l) \<longleftrightarrow> v = JNull" "rdy ?l1 (tokens v @ ts)"
    using R(2,3) [of l t "us @ ts"] rdy t by auto
  let ?rest = "\<lambda>l1. Option.bind (object_loop L field (jl_Delim L CHR ''{'' l1) r)
    (\<lambda>(l2, r2). Some (jl_Delim L CHR ''}'' l2, r2))"
  have eq: "decode_object L field (l, r) = (if v = JNull then Some (jl_Skip L ?l1, r) else ?rest ?l1)"
    using top n(1) by (simp add: decode_object_def Let_def case_prod_beta)
  show "follows left (\<lambda>l'. aft l' ts) (decode_object L field (l, r)) (read_object g v r)"
  proof (cases "v = JNull")
    case True
    with n(2) R(4) [of ?l1 ts] show ?thesis by (simp add: eq)
  next
    case nn: False
    show ?thesis
    proof (cases "\<exists>ms. v = JObject ms")
      case True
      then obtain ms where v: "v = JObject ms" by blast
      have "rdy (jl_Delim L CHR ''{'' ?l1) (commas (map member_tokens ms) @ TPunct CHR ''}'' # ts)"
        using n(2) R(7) [of "CHR ''{''" ?l1] by (simp add: v tokens_JObject del: tokens.simps)
      from object_loop_sim [where field = field and g = g and r = r, OF assms(1,2,3) this]
      have "follows left (\<lambda>l'. aft l' ts) (?rest ?l1) (Option.bind (read_members g ms r) Some)"
      proof (rule follows_bind)
        show "follows left (\<lambda>l'. aft l' ts) ((\<lambda>(l2, r2). Some (jl_Delim L CHR ''}'' l2, r2)) (l, r')) (Some r')"
          if "rdy l (TPunct CHR ''}'' # ts)" for l r'
          using R(8) [of "CHR ''}''" l ts] that by simp
        show "follows left (\<lambda>l'. aft l' ts) ((\<lambda>(l2, r2). Some (jl_Delim L CHR ''}'' l2, r2)) (l, r')) None"
          if "left l = 0" for l r'
          using S(8) [of "CHR ''}''" l] that by simp
      qed
      then show ?thesis by (simp add: eq v)
    next
      case False
      with nn have none: "read_object g v r = None" by (cases v) auto
      have "t \<noteq> TPunct CHR ''{''" using t(1) False by (cases v) auto
      then have "left (jl_Delim L CHR ''{'' ?l1) = 0" using R(9) [of ?l1 t "us @ ts"] n(2) t(1) by auto
      from object_loop_failed [OF assms(2) this, of field r]
      obtain l2 where "object_loop L field (jl_Delim L CHR ''{'' ?l1) r = Some (l2, r)" "left l2 = 0" by blast
      then show ?thesis using nn none S(8) [of "CHR ''}''" l2] by (simp add: eq)
    qed
  qed
qed

subsection \<open>Slices and nested structs\<close>

lemma array_loop_sim:
  assumes "lexer_reads L left rdy aft" and "lexer_stops L left"
    and "\<And>j l us. rdy l (tokens j @ us) \<Longrightarrow> follows left (\<lambda>l'. aft l' us) (item l) (g j)"
    and "rdy l (commas (map tokens js) @ TPunct CHR '']'' # ts)"
  shows "follows left (\<lambda>l'. rdy l' (TPunct CHR '']'' # ts)) (array_loop L item l xs) (map_option ((@) xs) (read_items g js))"
  using assms(4)
proof (induction js arbitrary: l xs)
  case Nil
  then show ?case
    using reads(5,6) [OF assms(1), of l "TPunct CHR '']''" ts "CHR '']''"]
    by (subst array_loop.simps) (simp add: Let_def)
next
  case (Cons j js)
  note R = reads [OF assms(1)] and S = stops [OF assms(2)]
  define rest where "rest = (if js = [] then [] else TPunct CHR '','' # commas (map tokens js)) @ TPunct CHR '']'' # ts"
  let ?d = "jl_IsDelim L CHR '']'' l"
  have rdy: "rdy l (tokens j @ rest)" using Cons.prems by (simp add: commas_Cons rest_def)
  obtain t us where t: "tokens j = t # us" "t \<noteq> TPunct CHR '']''" using tokens_start by blast
  have d: "\<not> fst ?d" "rdy (snd ?d) (tokens j @ rest)" using R(5,6) [of l t "us @ rest"] rdy t by auto
  have sep: "rdy (jl_WantComma L l') (commas (map tokens js) @ TPunct CHR '']'' # ts)" if "aft l' rest" for l'
  proof (cases js)
    case Nil
    with that R(12) [of l' "TPunct CHR '']''" ts] show ?thesis by (simp add: rest_def closing_def)
  next
    case (Cons a as)
    obtain u vs where u: "tokens a = u # vs" "\<not> closing u" using tokens_start [of a] by (auto simp: closing_def)
    with that Cons R(11) [of l' u] show ?thesis by (simp add: rest_def commas_Cons)
  qed
  have "follows left (\<lambda>l'. rdy l' (TPunct CHR '']'' # ts))
      (Option.bind (item (snd ?d)) (\<lambda>s. array_loop L item (jl_WantComma L (fst s)) (xs @ [snd s])))
      (Option.bind (g j) (\<lambda>x. map_option ((@) (xs @ [x])) (read_items g js)))"
  proof (rule follows_bind [OF assms(3) [OF d(2)]])
    show "follows left (\<lambda>l'. rdy l' (TPunct CHR '']'' # ts)) (array_loop L item (jl_WantComma L (fst (l', x))) (xs @ [snd (l', x)]))
        (map_option ((@) (xs @ [x])) (read_items g js))" if "aft l' rest" for l' x
      using Cons.IH [OF sep [OF that]] by simp
    show "follows left (\<lambda>l'. rdy l' (TPunct CHR '']'' # ts)) (array_loop L item (jl_WantComma L (fst (l', x))) (xs @ [snd (l', x)])) None"
      if "left l' = 0" for l' x
      using array_loop_failed [OF assms(2), of "jl_WantComma L l'" item "xs @ [x]"] S(4) [of l'] that by auto
  qed
  moreover have "map_option ((@) xs) (read_items g (j # js)) = Option.bind (g j) (\<lambda>x. map_option ((@) (xs @ [x])) (read_items g js))"
    by (cases "g j"; cases "read_items g js") simp_all
  ultimately show ?case using d(1) by (subst array_loop.simps) (simp add: Let_def)
qed

lemma slice_field_sim:
  assumes "lexer_reads L left rdy aft" and "lexer_stops L left" and "sim_value left rdy aft item g"
  shows "sim left rdy aft (slice_field L item zero get upd) (read_slice g zero upd)"
  unfolding sim_def
proof (intro allI impI)
  fix v l ts r assume rdy: "rdy l (tokens v @ ts)"
  note R = reads [OF assms(1)] and S = stops [OF assms(2)]
  obtain t us where t: "tokens v = t # us" "t = TNull \<longleftrightarrow> v = JNull" using tokens_start by blast
  let ?l1 = "snd (jl_IsNull L l)"
  let ?l2 = "jl_Delim L CHR ''['' ?l1"
  let ?l3 = "if get r = None then snd (jl_IsDelim L CHR '']'' ?l2) else ?l2"
  let ?item = "\<lambda>l. unless_null L item (l, zero)"
  let ?g = "\<lambda>j. if j = JNull then Some zero else g j zero"
  have n: "fst (jl_IsNull L l) \<longleftrightarrow> v = JNull" "rdy ?l1 (tokens v @ ts)"
    using R(2,3) [of l t "us @ ts"] rdy t by auto
  let ?rest = "Option.bind (array_loop L ?item ?l3 []) (\<lambda>(l4, xs). Some (jl_Delim L CHR '']'' l4, upd (Some xs) r))"
  have eq: "slice_field L item zero get upd (l, r) = (if v = JNull then Some (jl_Skip L ?l1, upd None r) else ?rest)"
    using n(1) by (simp add: slice_field_def Let_def case_prod_beta)
  show "follows left (\<lambda>l'. aft l' ts) (slice_field L item zero get upd (l, r)) (read_slice g zero upd v r)"
  proof (cases "v = JNull")
    case True
    with n(2) R(4) [of ?l1 ts] show ?thesis by (simp add: eq)
  next
    case nn: False
    show ?thesis
    proof (cases "\<exists>js. v = JArray js")
      case True
      then obtain js where v: "v = JArray js" by blast
      have "rdy ?l2 (commas (map tokens js) @ TPunct CHR '']'' # ts)" using n(2) R(7) [of "CHR ''[''" ?l1] by (simp add: v)
      then have "rdy ?l3 (commas (map tokens js) @ TPunct CHR '']'' # ts)"
        using R(6) by (cases "commas (map tokens js) @ TPunct CHR '']'' # ts") auto
      moreover have "follows left (\<lambda>l'. aft l' us) (?item l) (?g j)" if "rdy l (tokens j @ us)" for j l us
        using unless_null_sim [OF assms(1,3)] that unfolding sim_def by blast
      ultimately have "follows left (\<lambda>l'. rdy l' (TPunct CHR '']'' # ts)) (array_loop L ?item ?l3 []) (map_option ((@) []) (read_items ?g js))"
        using array_loop_sim [OF assms(1,2), of ?item ?g] by blast
      then have "follows left (\<lambda>l'. aft l' ts) ?rest (Option.bind (map_option ((@) []) (read_items ?g js)) (\<lambda>xs. Some (upd (Some xs) r)))"
      proof (rule follows_bind)
        show "follows left (\<lambda>l'. aft l' ts) ((\<lambda>(l4, xs). Some (jl_Delim L CHR '']'' l4, upd (Some xs) r)) (l, xs)) (Some (upd (Some xs) r))"
          if "rdy l (TPunct CHR '']'' # ts)" for l xs
          using R(8) [of "CHR '']''" l ts] that by simp
        show "follows left (\<lambda>l'. aft l' ts) ((\<lambda>(l4, xs). Some (jl_Delim L CHR '']'' l4, upd (Some xs) r)) (l, xs)) None"
          if "left l = 0" for l xs
          using S(8) [of "CHR '']''" l] that by simp
      qed
      then show ?thesis by (simp add: eq v map_conv_bind_option comp_def)
    next
      case False
      with nn have none: "read_slice g zero upd v r = None" by (cases v) auto
      have "t \<noteq> TPunct CHR ''[''" using t(1) False by (cases v) auto
      then have "left ?l2 = 0" using R(9) [of ?l1 t "us @ ts"] n(2) t(1) by auto
      then have "left ?l3 = 0" using S(5) [of "CHR '']''" ?l2] by simp
      from array_loop_failed [OF assms(2) this, of ?item "[]"]
      obtain l4 where "array_loop L ?item ?l3 [] = Some (l4, [])" "left l4 = 0" by blast
      then show ?thesis using nn none S(8) [of "CHR '']''" l4] by (simp add: eq)
    qed
  qed
qed

lemma string_item_sim:
  assumes "lexer_reads L left rdy aft"
  shows "sim_value left rdy aft (string_item L) read_string"
  unfolding sim_value_def
proof (intro allI impI)
  fix v l ts r assume "rdy l (tokens v @ ts)"
  moreover obtain t us where t: "tokens v = t # us" using tokens_start by blast
  ultimately have rdy: "rdy l (t # us @ ts)" by simp
  show "follows left (\<lambda>l'. aft l' ts) (string_item L (l, r)) (read_string v r)"
    using takesD [OF reads(15) [OF assms] rdy] t tokens_scalar [OF t]
    by (cases "string_token t") (auto simp: string_item_def read_string_def case_prod_beta)
qed

lemma struct_field_sim:
  assumes "lexer_reads L left rdy aft" and "sim left rdy aft unmarshal g"
  shows "sim left rdy aft (struct_field L unmarshal get upd) (read_struct g get upd)"
proof -
  have "sim_value left rdy aft (\<lambda>(l, r). Option.bind (unmarshal (l, get r)) (\<lambda>(l1, v). Some (l1, upd v r)))
      (\<lambda>j r. map_option (\<lambda>v. upd v r) (g j (get r)))"
    unfolding sim_value_def
  proof (intro allI impI)
    fix v l ts r assume "rdy l (tokens v @ ts)"
    with assms(2) have "follows left (\<lambda>l'. aft l' ts) (unmarshal (l, get r)) (g v (get r))" unfolding sim_def by blast
    then have "follows left (\<lambda>l'. aft l' ts) (Option.bind (unmarshal (l, get r)) (\<lambda>(l1, v). Some (l1, upd v r)))
        (Option.bind (g v (get r)) (\<lambda>v. Some (upd v r)))" by (rule follows_bind) auto
    then show "follows left (\<lambda>l'. aft l' ts) ((\<lambda>(l, r). Option.bind (unmarshal (l, get r)) (\<lambda>(l1, v). Some (l1, upd v r))) (l, r))
        (map_option (\<lambda>v. upd v r) (g v (get r)))" by (simp add: map_conv_bind_option comp_def)
  qed
  from unless_null_sim [OF assms(1) this] show ?thesis
    unfolding struct_field_def read_struct_def [abs_def] .
qed

lemma sim_value: "sim left rdy aft h g \<Longrightarrow> sim_value left rdy aft h g"
  by (simp add: sim_def sim_value_def)

lemma unknown_field_sim:
  assumes "lexer_stops L left"
  shows "sim left rdy aft (unknown_field L key) (\<lambda>v r. None)"
  using stops(16) [OF assms] by (simp add: sim_def unknown_field_def)

subsection \<open>The readers return\<close>

lemma unless_null_total:
  assumes "lexer_stops L left" and "total left h"
  shows "total left (unless_null L h)"
proof (rule totalI)
  fix l r
  let ?l1 = "snd (jl_IsNull L l)"
  have le: "left ?l1 \<le> left l" "left (jl_Skip L ?l1) \<le> left ?l1 - 1" using stops [OF assms(1)] by blast+
  obtain l' r' where "h (?l1, r) = Some (l', r')" "left l' \<le> left ?l1 - 1" using totalD [OF assms(2)] by blast
  with le show "\<exists>l' r'. unless_null L h (l, r) = Some (l', r') \<and> left l' \<le> left l - 1"
    by (auto simp: unless_null_def case_prod_beta)
qed

lemma scalar_total:
  assumes "lexer_stops L left" and "\<And>l. left (snd (get l)) \<le> left l - 1"
  shows "total left (scalar L get upd)"
  unfolding scalar_def using assms(2)
  by (intro unless_null_total [OF assms(1)]) (auto simp: total_def case_prod_beta)

lemma object_loop_total:
  assumes "lexer_stops L left" and "\<And>k. total left (field k)"
  shows "\<exists>l' r'. object_loop L field l r = Some (l', r') \<and> left l' \<le> left l"
proof (induction "left l" arbitrary: l r rule: less_induct)
  case less
  note S = stops [OF assms(1)]
  let ?d = "jl_IsDelim L CHR ''}'' l"
  let ?k = "jl_UnsafeFieldName L (snd ?d)"
  show ?case
  proof (cases "fst ?d")
    case True
    then show ?thesis using S(5) [of "CHR ''}''" l] by (subst object_loop.simps) (simp add: Let_def)
  next
    case False
    then have pos: "0 < left l" using S(6) [of l] by auto
    obtain l1 r1 where f: "field (fst ?k) (jl_WantColon L (snd ?k), r) = Some (l1, r1)"
      "left l1 \<le> left (jl_WantColon L (snd ?k)) - 1"
      using totalD [OF assms(2)] by blast
    have "left (jl_WantComma L l1) < left l"
      using pos f(2) S(3) [of "snd ?k"] S(4) [of l1] S(5) [of "CHR ''}''" l] S(9) [of "snd ?d"] by linarith
    then obtain l2 r2 where "object_loop L field (jl_WantComma L l1) r1 = Some (l2, r2)" "left l2 \<le> left l"
      using less.hyps [of "jl_WantComma L l1" r1] by (meson less_imp_le order_trans)
    then show ?thesis using False f(1) by (subst object_loop.simps) (simp add: Let_def)
  qed
qed

lemma decode_object_total:
  assumes "lexer_stops L left" and "\<And>k. total left (field k)"
  shows "total left (decode_object L field)"
proof (rule totalI)
  fix l r
  note S = stops [OF assms(1)]
  let ?l1 = "snd (jl_IsNull L l)"
  obtain l2 r2 where o: "object_loop L field (jl_Delim L CHR ''{'' ?l1) r = Some (l2, r2)"
    "left l2 \<le> left (jl_Delim L CHR ''{'' ?l1)"
    using object_loop_total [where field = field, OF assms(1,2)] by blast
  have "left (jl_Skip L (jl_Consumed L ?l1)) \<le> left l - 1" "left (jl_Skip L ?l1) \<le> left l - 1"
    using S(1) [of l] S(2) [of ?l1] S(7) [of "jl_Consumed L ?l1"] S(7) [of ?l1] by linarith+
  moreover have "left (jl_Delim L CHR ''}'' l2) \<le> left l - 1" "left (jl_Consumed L (jl_Delim L CHR ''}'' l2)) \<le> left l - 1"
    using S(1) [of l] S(2) [of "jl_Delim L CHR ''}'' l2"] S(8) [of "CHR ''{''" ?l1] S(8) [of "CHR ''}''" l2] o(2) by linarith+
  ultimately show "\<exists>l' r'. decode_object L field (l, r) = Some (l', r') \<and> left l' \<le> left l - 1"
    using o(1) by (simp add: decode_object_def Let_def case_prod_beta)
qed

lemma array_loop_total:
  assumes "lexer_stops L left" and "\<And>l. \<exists>l' x. item l = Some (l', x) \<and> left l' \<le> left l - 1"
  shows "\<exists>l' ys. array_loop L item l xs = Some (l', ys) \<and> left l' \<le> left l"
proof (induction "left l" arbitrary: l xs rule: less_induct)
  case less
  note S = stops [OF assms(1)]
  let ?d = "jl_IsDelim L CHR '']'' l"
  show ?case
  proof (cases "fst ?d")
    case True
    then show ?thesis using S(5) [of "CHR '']''" l] by (subst array_loop.simps) (simp add: Let_def)
  next
    case False
    then have pos: "0 < left l" using S(6) [of l] by auto
    obtain l1 x where f: "item (snd ?d) = Some (l1, x)" "left l1 \<le> left (snd ?d) - 1" using assms(2) by blast
    have "left (jl_WantComma L l1) < left l"
      using pos f(2) S(4) [of l1] S(5) [of "CHR '']''" l] by linarith
    then obtain l2 ys where "array_loop L item (jl_WantComma L l1) (xs @ [x]) = Some (l2, ys)" "left l2 \<le> left l"
      using less.hyps [of "jl_WantComma L l1" "xs @ [x]"] by (meson less_imp_le order_trans)
    then show ?thesis using False f(1) by (subst array_loop.simps) (simp add: Let_def)
  qed
qed

lemma slice_field_total:
  assumes "lexer_stops L left" and "total left item"
  shows "total left (slice_field L item zero get upd)"
proof (rule totalI)
  fix l r
  note S = stops [OF assms(1)]
  let ?l1 = "snd (jl_IsNull L l)"
  let ?l2 = "jl_Delim L CHR ''['' ?l1"
  let ?l3 = "if get r = None then snd (jl_IsDelim L CHR '']'' ?l2) else ?l2"
  let ?item = "\<lambda>l. unless_null L item (l, zero)"
  have "\<exists>l' x. ?item l = Some (l', x) \<and> left l' \<le> left l - 1" for l
    using totalD [OF unless_null_total [OF assms]] by blast
  from array_loop_total [OF assms(1) this]
  obtain l4 xs where a: "array_loop L ?item ?l3 [] = Some (l4, xs)" "left l4 \<le> left ?l3" by blast
  have "left ?l3 \<le> left l - 1" using S(1) [of l] S(5) [of "CHR '']''" ?l2] S(8) [of "CHR ''[''" ?l1] by auto
  then have "left (jl_Delim L CHR '']'' l4) \<le> left l - 1" using a(2) S(8) [of "CHR '']''" l4] by linarith
  moreover have "left (jl_Skip L ?l1) \<le> left l - 1" using S(1) [of l] S(7) [of ?l1] by linarith
  ultimately show "\<exists>l' r'. slice_field L item zero get upd (l, r) = Some (l', r') \<and> left l' \<le> left l - 1"
    using a(1) by (simp add: slice_field_def Let_def case_prod_beta)
qed

lemma string_item_total: "lexer_stops L left \<Longrightarrow> total left (string_item L)"
  by (simp add: total_def string_item_def case_prod_beta stops del: One_nat_def)

lemma struct_field_total:
  assumes "lexer_stops L left" and "total left unmarshal"
  shows "total left (struct_field L unmarshal get upd)"
  unfolding struct_field_def
proof (rule unless_null_total [OF assms(1)], rule totalI)
  fix l r
  obtain l' v where "unmarshal (l, get r) = Some (l', v)" "left l' \<le> left l - 1" using totalD [OF assms(2)] by blast
  then show "\<exists>l' r'. (\<lambda>(l, r). Option.bind (unmarshal (l, get r)) (\<lambda>(l1, v). Some (l1, upd v r))) (l, r) = Some (l', r') \<and>
      left l' \<le> left l - 1" by simp
qed

lemma unknown_field_total: "lexer_stops L left \<Longrightarrow> total left (unknown_field L key)"
  by (simp add: total_def unknown_field_def stops)

lemmas handler_total =
  scalar_total slice_field_total string_item_total struct_field_total unknown_field_total decode_object_total

subsection \<open>A generated struct\<close>

text \<open>
  What every generated reader offers: its switch follows a table of fields, and each of its cases
  returns. From that, \<^verbatim>\<open>UnmarshalJSON\<close> computes the fold of the table over the tree, and returns on
  every input.
\<close>

locale generated_struct =
  fixes field :: "'l jlexer \<Rightarrow> string \<Rightarrow> ('l, 'r) handler"
    and table :: "(string \<times> (json \<Rightarrow> 'r \<Rightarrow> 'r option)) list"
  assumes follows_table:
      "lexer_reads L left rdy aft \<Longrightarrow> lexer_stops L left \<Longrightarrow> sim left rdy aft (field L k) (in_schema table k)"
    and returns: "lexer_stops L left \<Longrightarrow> total left (field L k)"
begin

lemma nested_sim:
  "lexer_reads L left rdy aft \<Longrightarrow> lexer_stops L left \<Longrightarrow>
   sim left rdy aft (decode_object L (field L)) (read_object (in_schema table))"
  by (rule decode_object_sim) (simp_all add: follows_table)

lemma nested_total: "lexer_stops L left \<Longrightarrow> total left (decode_object L (field L))"
  by (rule decode_object_total) (simp_all add: returns)

lemma unmarshal_returns:
  assumes "lexer_stops L left"
  shows "\<exists>res. unmarshal_json L (decode_object L (field L)) data v = Some res"
  using totalD [OF nested_total [OF assms], of "jl_New L data" v] by (auto simp: unmarshal_json_def)

lemma unmarshal_reads:
  assumes "lexer_reads L left rdy aft" and "lexer_stops L left" and "lexer_opens L rdy denotes"
    and "denotes s j" and "j \<noteq> JNull"
  shows "case read_object (in_schema table) j r of
     Some r' \<Rightarrow> unmarshal_json L (decode_object L (field L)) s r = Some (Inr r')
   | None \<Rightarrow> \<exists>e. unmarshal_json L (decode_object L (field L)) s r = Some (Inl e)"
proof -
  note R = reads [OF assms(1)] and S = stops [OF assms(2)]
  let ?l = "jl_New L s"
  let ?l1 = "snd (jl_IsNull L ?l)"
  let ?fine = "\<lambda>l. left l \<noteq> 0"
  have top: "jl_IsStart L ?l" and n: "\<not> fst (jl_IsNull L ?l)" and rdy: "rdy ?l1 (tokens j)"
    using assms(3-5) unfolding lexer_opens_def by blast+
  let ?rest = "Option.bind (object_loop L (field L) (jl_Delim L CHR ''{'' ?l1) r)
    (\<lambda>(l2, r2). Some (jl_Consumed L (jl_Delim L CHR ''}'' l2), r2))"
  have eq: "decode_object L (field L) (?l, r) = ?rest"
    using top n by (simp add: decode_object_def Let_def case_prod_beta)
  have "follows left ?fine ?rest (read_object (in_schema table) j r)"
  proof (cases "\<exists>ms. j = JObject ms")
    case True
    then obtain ms where j: "j = JObject ms" by blast
    have "rdy (jl_Delim L CHR ''{'' ?l1) (commas (map member_tokens ms) @ TPunct CHR ''}'' # [])"
      using rdy R(7) [of "CHR ''{''" ?l1] by (simp add: j tokens_JObject del: tokens.simps)
    from object_loop_sim [where field = "field L" and g = "in_schema table" and r = r, OF assms(1,2) follows_table [OF assms(1,2)] this]
    have "follows left ?fine ?rest (Option.bind (read_members (in_schema table) ms r) Some)"
    proof (rule follows_bind)
      show "follows left ?fine ((\<lambda>(l2, r2). Some (jl_Consumed L (jl_Delim L CHR ''}'' l2), r2)) (l, r')) (Some r')"
        if "rdy l [TPunct CHR ''}'']" for l r'
        using R(8) [of "CHR ''}''" l "[]"] R(13) that by simp
      show "follows left ?fine ((\<lambda>(l2, r2). Some (jl_Consumed L (jl_Delim L CHR ''}'' l2), r2)) (l, r')) None"
        if "left l = 0" for l r'
        using S(8) [of "CHR ''}''" l] S(2) [of "jl_Delim L CHR ''}'' l"] that by simp
    qed
    then show ?thesis by (simp add: j)
  next
    case False
    obtain t us where t: "tokens j = t # us" using tokens_start by blast
    have none: "read_object (in_schema table) j r = None" using False assms(5) by (cases j) auto
    have "t \<noteq> TPunct CHR ''{''" using t False by (cases j) auto
    then have "left (jl_Delim L CHR ''{'' ?l1) = 0" using R(9) [of ?l1 t us] rdy t by auto
    from object_loop_failed [OF assms(2) this, of "field L" r]
    obtain l2 where "object_loop L (field L) (jl_Delim L CHR ''{'' ?l1) r = Some (l2, r)" "left l2 = 0" by blast
    then show ?thesis using none S(8) [of "CHR ''}''" l2] S(2) [of "jl_Delim L CHR ''}'' l2"] by simp
  qed
  then have "follows left ?fine (decode_object L (field L) (?l, r)) (read_object (in_schema table) j r)" by (simp add: eq)
  then show ?thesis
    using S(17) by (fastforce simp: follows_def unmarshal_json_def split: option.splits)
qed

end

end
