(* ===== verification/Json_Text.thy ===== *)
theory Json_Text
  imports Json_Lexer
begin

section \<open>The writer, and what a round trip needs\<close>

text \<open>
  A generated writer appends raw text and values to a writer of easyjson. How that library writes
  a string is a parameter; the rest of a text is in the generated code.
\<close>

subsection \<open>The generated writers\<close>

record json_writer =
  jw_String :: "string \<Rightarrow> string"
  jw_NilSliceAsEmpty :: bool

text \<open>\<^verbatim>\<open>const prefix string\<close> of a member, with its comma; the first member drops it.\<close>

definition member_prefix :: "string \<Rightarrow> string" where
  "member_prefix k = CHR '','' # CHR 0x22 # k @ [CHR 0x22, CHR '':'']"

fun joined :: "string list \<Rightarrow> string" where
  "joined [] = []"
| "joined [s] = s"
| "joined (s # t # ss) = s @ CHR '','' # joined (t # ss)"

definition write_slice :: "json_writer \<Rightarrow> ('a \<Rightarrow> string) \<Rightarrow> 'a slice \<Rightarrow> string" where
  "write_slice W item xs =
     (if xs = None \<and> \<not> jw_NilSliceAsEmpty W then ''null'' else ''['' @ joined (map item (elems xs)) @ '']'')"

definition write_uint :: "('w :: len) word \<Rightarrow> string" where
  "write_uint w = dec (unat w)"

text \<open>The writer \<^verbatim>\<open>MarshalJSON\<close> makes has no flags.\<close>

definition new_writer :: "json_writer \<Rightarrow> json_writer" where
  "new_writer W = W\<lparr>jw_NilSliceAsEmpty := False\<rparr>"

subsection \<open>The text of a tree\<close>

fun json_text :: "json_writer \<Rightarrow> json \<Rightarrow> string" where
  "json_text W JNull = ''null''"
| "json_text W (JBool b) = (if b then ''true'' else ''false'')"
| "json_text W (JNumber n) = n"
| "json_text W (JString s) = jw_String W s"
| "json_text W (JArray js) = ''['' @ joined (map (json_text W) js) @ '']''"
| "json_text W (JObject ms) = ''{'' @ joined (map (\<lambda>(k, v). jw_String W k @ CHR '':'' # json_text W v) ms) @ ''}''"

fun numbers_ok :: "json \<Rightarrow> bool" where
  "numbers_ok (JNumber n) \<longleftrightarrow> n \<in> range itoa"
| "numbers_ok (JArray js) \<longleftrightarrow> list_all numbers_ok js"
| "numbers_ok (JObject ms) \<longleftrightarrow> list_all (\<lambda>(k, v). numbers_ok v) ms"
| "numbers_ok _ \<longleftrightarrow> True"

text \<open>The tree read back: a string is written as \<open>clean s\<close> when it is not valid UTF-8.\<close>

fun clean_json :: "(string \<Rightarrow> string) \<Rightarrow> json \<Rightarrow> json" where
  "clean_json clean (JString s) = JString (clean s)"
| "clean_json clean (JArray js) = JArray (map (clean_json clean) js)"
| "clean_json clean (JObject ms) = JObject (map (\<lambda>(k, v). (clean k, clean_json clean v)) ms)"
| "clean_json clean j = j"

definition plain :: "char \<Rightarrow> bool" where
  "plain c \<longleftrightarrow> is_digit c \<or> (of_char c :: nat) \<in> {97..122} \<or> (of_char c :: nat) \<in> {65..90} \<or> c \<in> set ''_-.:+''"

lemma plain_chars [simp]:
  "plain CHR ''a''" "plain CHR ''b''" "plain CHR ''c''" "plain CHR ''d''" "plain CHR ''e''" "plain CHR ''f''"
  "plain CHR ''g''" "plain CHR ''h''" "plain CHR ''i''" "plain CHR ''j''" "plain CHR ''k''" "plain CHR ''l''"
  "plain CHR ''m''" "plain CHR ''n''" "plain CHR ''o''" "plain CHR ''p''" "plain CHR ''q''" "plain CHR ''r''"
  "plain CHR ''s''" "plain CHR ''t''" "plain CHR ''u''" "plain CHR ''v''" "plain CHR ''w''" "plain CHR ''x''"
  "plain CHR ''y''" "plain CHR ''z''" "plain CHR ''0''" "plain CHR ''1''" "plain CHR ''2''" "plain CHR ''3''"
  "plain CHR ''4''" "plain CHR ''5''" "plain CHR ''6''" "plain CHR ''7''" "plain CHR ''8''" "plain CHR ''9''"
  "plain CHR ''_''"
  by (simp_all add: plain_def is_digit_def)

text \<open>The writer writes plain text as it is, in quotes, and what it writes is JSON for the tree.\<close>

definition writes_plainly :: "json_writer \<Rightarrow> (string \<Rightarrow> string) \<Rightarrow> bool" where
  "writes_plainly W clean \<longleftrightarrow>
     (\<forall>s. list_all plain s \<longrightarrow> jw_String W s = CHR 0x22 # s @ [CHR 0x22] \<and> clean s = s)"

definition writer_ok :: "json_writer \<Rightarrow> (string \<Rightarrow> string) \<Rightarrow> (string \<Rightarrow> json \<Rightarrow> bool) \<Rightarrow> bool" where
  "writer_ok W clean denotes \<longleftrightarrow>
     writes_plainly W clean \<and> (\<forall>j. numbers_ok j \<longrightarrow> denotes (json_text W j) (clean_json clean j))"

subsection \<open>Documents\<close>

text \<open>A member that is left out of the document unless the condition holds.\<close>

definition optional :: "bool \<Rightarrow> string \<times> json \<Rightarrow> (string \<times> json) list" where
  "optional b m = (if b then [m] else [])"

definition slice_json :: "json_writer \<Rightarrow> ('a \<Rightarrow> json) \<Rightarrow> 'a slice \<Rightarrow> json" where
  "slice_json W f xs = (if xs = None \<and> \<not> jw_NilSliceAsEmpty W then JNull else JArray (map f (elems xs)))"

definition uint_json :: "('w :: len) word \<Rightarrow> json" where
  "uint_json w = JNumber (dec (unat w))"

lemma slice_text: "json_text W (slice_json W f xs) = write_slice W (\<lambda>x. json_text W (f x)) xs"
  by (simp add: slice_json_def write_slice_def comp_def)

lemma uint_text: "json_text W (uint_json w) = write_uint w"
  by (simp add: uint_json_def write_uint_def)

lemma dec_number: "dec n \<in> range itoa"
  by (rule image_eqI [of _ _ "int n"]) (simp_all add: itoa_def)

lemma numbers_simps [simp]:
  "numbers_ok (uint_json w)" "numbers_ok (slice_json W JString xs)" "list_all p (optional b m) \<longleftrightarrow> (b \<longrightarrow> p m)"
  by (auto simp: uint_json_def dec_number slice_json_def optional_def list_all_iff)

lemma slice_numbers: "(\<And>x. numbers_ok (f x)) \<Longrightarrow> numbers_ok (slice_json W f xs)"
  by (simp add: slice_json_def list_all_iff)

lemma joined_Cons: "joined (s # ss) = s @ concat (map (\<lambda>t. CHR '','' # t) ss)"
  by (induction ss arbitrary: s) (simp, metis append_assoc append_Cons concat.simps(2) joined.simps(3) list.simps(9))

definition member_text :: "json_writer \<Rightarrow> string \<times> json \<Rightarrow> string" where
  "member_text W m = member_prefix (fst m) @ json_text W (snd m)"

lemma object_text:
  assumes "writes_plainly W clean" and "list_all (\<lambda>m. list_all plain (fst m)) (m # ms)"
  shows "json_text W (JObject (m # ms)) = ''{'' @ tl (member_text W m) @ concat (map (member_text W) ms) @ ''}''"
proof -
  have one: "CHR '','' # (\<lambda>(k, v). jw_String W k @ CHR '':'' # json_text W v) x = member_text W x"
    if "list_all plain (fst x)" for x
    using assms(1) that by (simp add: writes_plainly_def member_text_def member_prefix_def case_prod_beta)
  have "concat (map (\<lambda>t. CHR '','' # t) (map (\<lambda>(k, v). jw_String W k @ CHR '':'' # json_text W v) ms)) =
      concat (map (member_text W) ms)"
    using assms(2) one by (auto simp: list_all_iff comp_def intro!: arg_cong [of _ _ concat])
  moreover have "(\<lambda>(k, v). jw_String W k @ CHR '':'' # json_text W v) m = tl (member_text W m)"
    using one [of m] assms(2) by (metis list.pred_inject(2) list.sel(3))
  ultimately show ?thesis by (simp only: json_text.simps list.map joined_Cons append_assoc)
qed

lemma member_text_simps:
  "member_text W (k, v) = member_prefix k @ json_text W v"
  "tl (member_prefix k @ s) = tl (member_prefix k) @ s"
  "concat (map (member_text W) (optional b m)) = (if b then member_text W m else [])"
  by (simp_all add: member_text_def member_prefix_def optional_def)

subsection \<open>Reading a document back\<close>

definition clean_members :: "(string \<Rightarrow> string) \<Rightarrow> (string \<times> json) list \<Rightarrow> (string \<times> json) list" where
  "clean_members clean ms = map (\<lambda>m. (clean (fst m), clean_json clean (snd m))) ms"

lemma clean_JObject: "clean_json clean (JObject ms) = JObject (clean_members clean ms)"
  by (simp add: clean_members_def case_prod_beta)

lemma clean_members_simps [simp]:
  "clean_members clean [] = []"
  "clean_members clean (m # ms) = (clean (fst m), clean_json clean (snd m)) # clean_members clean ms"
  "clean_members clean (xs @ ys) = clean_members clean xs @ clean_members clean ys"
  by (simp_all add: clean_members_def)

lemma clean_simps [simp]:
  "clean_json clean (uint_json w) = uint_json w"
  "clean_json clean (slice_json W f xs) = slice_json W (\<lambda>x. clean_json clean (f x)) xs"
  by (simp_all add: uint_json_def slice_json_def comp_def)

lemma read_members_append [simp]:
  "read_members g (xs @ ys) r = Option.bind (read_members g xs r) (read_members g ys)"
  by (induction g xs r rule: read_members.induct) (auto split: bind_splits)

text \<open>A member left out leaves the field at the zero it has.\<close>

lemma read_optional:
  assumes "\<And>r. g (clean k) (clean_json clean v) r = Some (f r)" and "\<not> b \<Longrightarrow> f r = r"
  shows "read_members g (clean_members clean (optional b (k, v))) r = Some (f r)"
  using assms by (simp add: optional_def)

lemma read_scalar_simps [simp]:
  "read_scalar string_token upd (JString s) r = Some (upd s r)"
  "read_scalar (uint_token 64) upd1 (uint_json (w :: u64)) r = Some (upd1 w r)"
  "read_scalar (uint_token 32) upd2 (uint_json (v :: u32)) r = Some (upd2 v r)"
proof -
  have "unat w < 2 ^ 64" "unat v < 2 ^ 32"
    using unsigned_less [of w, where 'a = nat] unsigned_less [of v, where 'a = nat] by simp_all
  then show "read_scalar (uint_token 64) upd1 (uint_json w) r = Some (upd1 w r)"
    "read_scalar (uint_token 32) upd2 (uint_json v) r = Some (upd2 v r)"
    by (simp_all add: read_scalar_def uint_json_def)
qed (simp add: read_scalar_def)

lemma read_int [simp]:
  "- (2 ^ (bits - 1)) \<le> n \<Longrightarrow> n < 2 ^ (bits - 1) \<Longrightarrow>
   read_scalar (int_token bits) upd (JNumber (itoa n)) r = Some (upd n r)"
  by (simp add: read_scalar_def)

lemma read_items_map: "(\<And>x. x \<in> set xs \<Longrightarrow> g (f x) = Some (h x)) \<Longrightarrow> read_items g (map f xs) = Some (map h xs)"
  by (induction xs) auto

text \<open>A slice comes back element by element, and a nil slice as nil when the writer has no flag.\<close>

lemma read_slice_back:
  assumes "\<And>x. x \<in> set (elems xs) \<Longrightarrow> f x \<noteq> JNull \<and> g (f x) zero = Some (h x)" and "\<not> jw_NilSliceAsEmpty W"
  shows "read_slice g zero upd (slice_json W f xs) r = Some (upd (map_option (map h) xs) r)"
proof (cases xs)
  case (Some ys)
  then have "read_items (\<lambda>j. if j = JNull then Some zero else g j zero) (map f ys) = Some (map h ys)"
    using assms(1) by (intro read_items_map) auto
  then show ?thesis using Some by (simp add: slice_json_def)
qed (use assms(2) in \<open>simp add: slice_json_def\<close>)

lemma read_strings [simp]:
  "\<not> jw_NilSliceAsEmpty W \<Longrightarrow>
   read_slice read_string [] upd (slice_json W (\<lambda>s. JString (f s)) xs) r = Some (upd (map_option (map f) xs) r)"
  by (rule read_slice_back) (simp_all add: read_string_def)

lemma in_schema_simps [simp]:
  "in_schema ((k', g) # table) k v r = (if k = k' then g v r else in_schema table k v r)"
  "in_schema [] k v r = None"
  by (auto simp: in_schema_def)

subsection \<open>Switches\<close>

lemma sim_switch:
  "sim left rdy aft h (in_schema table k) \<Longrightarrow> sim left rdy aft h0 g0 \<Longrightarrow>
   sim left rdy aft (if k = k' then h0 else h) (in_schema ((k', g0) # table) k)"
  by (auto simp: sim_def)

lemma sim_default: "lexer_stops L left \<Longrightarrow> sim left rdy aft (unknown_field L key) (in_schema [] k)"
  using unknown_field_sim [of L left rdy aft key] by (simp add: sim_def)

lemma total_switch: "total left h \<Longrightarrow> total left h0 \<Longrightarrow> total left (if b then h0 else h)"
  by simp

text \<open>A scalar case, for each typed reader.\<close>

lemma scalar_sims:
  assumes "lexer_reads L left rdy aft"
  shows "sim left rdy aft (scalar L (jl_String L) upd1) (read_scalar string_token upd1)"
    "sim left rdy aft (scalar L (jl_Uint64 L) upd2) (read_scalar (uint_token 64) upd2)"
    "sim left rdy aft (scalar L (jl_Uint32 L) upd3) (read_scalar (uint_token 32) upd3)"
    "sim left rdy aft (scalar L (jl_Int L) upd4) (read_scalar (int_token 64) upd4)"
    "sim left rdy aft (scalar L (jl_Int32 L) upd4) (read_scalar (int_token 32) upd4)"
    "sim left rdy aft (scalar L (jl_Int64 L) upd4) (read_scalar (int_token 64) upd4)"
  using reads(15-20) [OF assms] by (auto intro!: scalar_sim [OF assms])

lemma scalar_totals:
  assumes "lexer_stops L left"
  shows "total left (scalar L (jl_String L) upd1)" "total left (scalar L (jl_Uint64 L) upd2)"
    "total left (scalar L (jl_Uint32 L) upd3)" "total left (scalar L (jl_Int L) upd4)"
    "total left (scalar L (jl_Int32 L) upd4)" "total left (scalar L (jl_Int64 L) upd4)"
  by (intro scalar_total [OF assms] stops [OF assms])+

lemma strings_sim:
  "lexer_reads L left rdy aft \<Longrightarrow> lexer_stops L left \<Longrightarrow>
   sim left rdy aft (slice_field L (string_item L) [] get upd) (read_slice read_string [] upd)"
  by (rule slice_field_sim) (simp_all add: string_item_sim)

lemma strings_total: "lexer_stops L left \<Longrightarrow> total left (slice_field L (string_item L) zero get upd)"
  by (rule slice_field_total) (simp_all add: string_item_total)

lemmas switch_sims = sim_switch sim_default scalar_sims strings_sim struct_field_sim slice_field_sim sim_value
lemmas switch_totals = total_switch scalar_totals strings_total struct_field_total slice_field_total unknown_field_total

subsection \<open>A generated struct, both ways\<close>

text \<open>
  The writer's text is that of a document, and the table of fields reads the document back into
  the struct. What is written is then what is read, whatever library lexes it by the laws.
\<close>

locale generated_codec = generated_struct field table
  for field :: "'l jlexer \<Rightarrow> string \<Rightarrow> ('l, 'r) handler" and table +
  fixes encode :: "json_writer \<Rightarrow> 'r \<Rightarrow> string"
    and document :: "json_writer \<Rightarrow> 'r \<Rightarrow> json"
    and zero :: 'r
    and cleaned :: "(string \<Rightarrow> string) \<Rightarrow> 'r \<Rightarrow> 'r"
    and fits :: "'r \<Rightarrow> bool"
  assumes writes: "writes_plainly W clean \<Longrightarrow> encode W v = json_text W (document W v)"
    and numbers: "numbers_ok (document W v)"
    and object: "\<exists>ms. document W v = JObject ms"
    and rereads: "writes_plainly W clean \<Longrightarrow> \<not> jw_NilSliceAsEmpty W \<Longrightarrow> fits v \<Longrightarrow>
      read_object (in_schema table) (clean_json clean (document W v)) zero = Some (cleaned clean v)"
begin

lemma writes_fun: "writes_plainly W clean \<Longrightarrow> encode W = (\<lambda>v. json_text W (document W v))"
  using writes by (simp add: fun_eq_iff)

lemma document_not_null: "clean_json clean (document W v) \<noteq> JNull"
  using object [of W v] by auto

lemma struct_back:
  assumes "writes_plainly W clean" and "\<not> jw_NilSliceAsEmpty W" and "get r = zero" and "fits v"
  shows "read_struct (read_object (in_schema table)) get upd (clean_json clean (document W v)) r = Some (upd (cleaned clean v) r)"
  using rereads [OF assms(1,2,4)] assms(3) document_not_null by (simp add: read_struct_def)

lemma slice_back:
  assumes "writes_plainly W clean" and "\<not> jw_NilSliceAsEmpty W" and "\<forall>x \<in> set (elems xs). fits x"
  shows "read_slice (read_object (in_schema table)) zero upd (slice_json W (\<lambda>x. clean_json clean (document W x)) xs) r =
    Some (upd (map_option (map (cleaned clean)) xs) r)"
  using assms(3) rereads [OF assms(1,2)] document_not_null
  by (intro read_slice_back [OF _ assms(2)]) simp

lemma denotes_document:
  "writer_ok W clean denotes \<Longrightarrow> denotes (encode W v) (clean_json clean (document W v))"
  using writes numbers by (auto simp: writer_ok_def)

lemma round_trip:
  assumes "lexer_reads L left rdy aft" and "lexer_stops L left" and "lexer_opens L rdy denotes"
    and "writer_ok W clean denotes" and "\<not> jw_NilSliceAsEmpty W" and "fits v"
  shows "unmarshal_json L (decode_object L (field L)) (encode W v) zero = Some (Inr (cleaned clean v))"
proof -
  have plain: "writes_plainly W clean" using assms(4) by (simp add: writer_ok_def)
  from unmarshal_reads [OF assms(1-3) denotes_document [OF assms(4)] document_not_null, of v zero] rereads [OF plain assms(5,6)]
  show ?thesis by simp
qed

end

end
