(* ===== verification/Loadgen.thy ===== *)
theory Loadgen
  imports Decoder Json_Text
begin

section \<open>The load generator: \<^verbatim>\<open>cmd/loadgen/main.go\<close>\<close>

text \<open>
  Synthetic commands for the sink. Random draws, new UUIDs, the clock and the Kafka client are
  functions of a counter that every question advances; the pacing of \<^verbatim>\<open>-rate\<close> only waits and is
  left out. The structs it sends are written by their JSON tags; that \<^verbatim>\<open>encoding/json\<close> renders the
  resulting document is the only thing left to the library. A loop over draws that may never end
  is partial.
\<close>

definition ledgerName :: string where "ledgerName = ''USD''"

definition codeName :: string where "codeName = ''payment''"

datatype flag_error = TopicRequired | BadCount | TooFewAccounts | BadChain | BadGarbagePct

text \<open>\<open>garbage_ok\<close>: whether the percentage, a float, is within 0 to 100.\<close>

definition validateFlags :: "string \<Rightarrow> int \<Rightarrow> int \<Rightarrow> int \<Rightarrow> bool \<Rightarrow> bool \<Rightarrow> flag_error option" where
  "validateFlags topic count accounts chain hotAccount garbage_ok =
     (if topic = [] then Some TopicRequired
      else if count \<le> 0 then Some BadCount
      else if accounts < 2 then Some TooFewAccounts
      else if chain \<le> 0 then Some BadChain
      else if \<not> garbage_ok then Some BadGarbagePct
      else None)"

subsection \<open>Wire format\<close>

record wire_transfer =
  w_ID :: string
  w_DebitAccountID :: string
  w_CreditAccountID :: string
  w_Amount :: string
  w_Ledger :: string
  w_Code :: string
  w_Flags :: "string list"
  w_UserData64 :: u64

record wire_account =
  wa_ID :: string
  wa_Ledger :: string
  wa_Code :: string

record wire_message =
  wm_Operation :: string
  wm_Transfers :: "wire_transfer list"
  wm_Accounts :: "wire_account list"

text \<open>
  The documents of the structs, member by member with the names in their tags; a member tagged
  \<^verbatim>\<open>omitempty\<close> is left out when its slice is empty or its number is zero.
\<close>

definition wire_transfer_json :: "wire_transfer \<Rightarrow> json" where
  "wire_transfer_json w = JObject
     ([(''id'', JString (w_ID w)), (''debit_account_id'', JString (w_DebitAccountID w)),
       (''credit_account_id'', JString (w_CreditAccountID w)), (''amount'', JString (w_Amount w)),
       (''ledger'', JString (w_Ledger w)), (''code'', JString (w_Code w))] @
      optional (w_Flags w \<noteq> []) (''flags'', JArray (map JString (w_Flags w))) @
      optional (w_UserData64 w \<noteq> 0) (''user_data_64'', uint_json (w_UserData64 w)))"

definition wire_account_json :: "wire_account \<Rightarrow> json" where
  "wire_account_json w = JObject
     [(''id'', JString (wa_ID w)), (''ledger'', JString (wa_Ledger w)), (''code'', JString (wa_Code w))]"

definition wire_message_json :: "wire_message \<Rightarrow> json" where
  "wire_message_json m = JObject
     ([(''operation'', JString (wm_Operation m))] @
      optional (wm_Transfers m \<noteq> []) (''transfers'', JArray (map wire_transfer_json (wm_Transfers m))) @
      optional (wm_Accounts m \<noteq> []) (''accounts'', JArray (map wire_account_json (wm_Accounts m))))"

record load_env =
  IntN :: "nat \<Rightarrow> nat \<Rightarrow> nat"
  NewUUID :: "nat \<Rightarrow> string"
  unix_nano :: "nat \<Rightarrow> u64"
  is_garbage :: "nat \<Rightarrow> bool"
  json_Marshal :: "json \<Rightarrow> string + string"
  produce_sync :: "nat \<Rightarrow> string option"
  flush_result :: "nat \<Rightarrow> string option"
  failed_produces :: "nat \<Rightarrow> nat"

text \<open>\<^verbatim>\<open>marshalJSON\<close>: the library renders the document of the struct, or fails.\<close>

definition marshalJSON :: "load_env \<Rightarrow> wire_message \<Rightarrow> string + string" where
  "marshalJSON E m = json_Marshal E (wire_message_json m)"

record load_record =
  lr_Topic :: string
  lr_Key :: string
  lr_Value :: string

subsection \<open>Seeding the accounts\<close>

definition accountBatchSize :: nat where "accountBatchSize = 1000"

datatype load_error =
    MarshalError string
  | ProduceAccounts nat nat string
  | FlushFailed string
  | MessagesFailed nat nat

definition seed_message :: "string list \<Rightarrow> wire_message" where
  "seed_message batch =
     \<lparr> wm_Operation = ''create_accounts'', wm_Transfers = [],
       wm_Accounts = map (\<lambda>i. \<lparr> wa_ID = i, wa_Ledger = ledgerName, wa_Code = codeName \<rparr>) batch \<rparr>"

text \<open>\<^verbatim>\<open>seedAccounts\<close> from index \<open>start\<close>: the records written, and the error that stopped it.\<close>

function seedAccounts :: "load_env \<Rightarrow> string \<Rightarrow> string list \<Rightarrow> nat \<Rightarrow> nat \<Rightarrow> load_error option \<times> load_record list" where
  "seedAccounts E topic pool start t =
     (if start \<ge> length pool then (None, [])
      else
        (let stop = min (start + accountBatchSize) (length pool);
             batch = take (stop - start) (drop start pool)
         in case marshalJSON E (seed_message batch) of
              Inl e \<Rightarrow> (Some (MarshalError e), [])
            | Inr body \<Rightarrow>
                (case produce_sync E t of
                   Some e \<Rightarrow> (Some (ProduceAccounts start stop e), [])
                 | None \<Rightarrow>
                     (case seedAccounts E topic pool (start + accountBatchSize) (Suc t) of
                        (err, recs) \<Rightarrow> (err, \<lparr> lr_Topic = topic, lr_Key = hd batch, lr_Value = body \<rparr> # recs)))))"
  by pat_completeness auto

termination
  by (relation "measure (\<lambda>(E, topic, pool, start, t). length pool - start)") (auto simp: accountBatchSize_def)

declare seedAccounts.simps [simp del]

subsection \<open>Transfers\<close>

text \<open>\<^verbatim>\<open>creditAccount\<close> draws until it differs; it may never return.\<close>

partial_function (option) creditAccount :: "load_env \<Rightarrow> string list \<Rightarrow> string \<Rightarrow> nat \<Rightarrow> (string \<times> nat) option" where
  "creditAccount E pool debit t =
     (let c = pool ! IntN E t (length pool) in
      if c \<noteq> debit then Some (c, Suc t) else creditAccount E pool debit (Suc t))"

definition randomPair :: "load_env \<Rightarrow> string list \<Rightarrow> nat \<Rightarrow> (string \<times> string \<times> nat) option" where
  "randomPair E pool t =
     (let debit = pool ! IntN E t (length pool) in
      map_option (\<lambda>(credit, t'). (debit, credit, t')) (creditAccount E pool debit (Suc t)))"

text \<open>\<^verbatim>\<open>fmt.Sprintf("%d.%02d", minor/100, minor%100)\<close>.\<close>

definition cents_text :: "nat \<Rightarrow> string" where
  "cents_text minor = dec (minor div 100) @ ''.'' @ (if minor mod 100 < 10 then ''0'' else []) @ dec (minor mod 100)"

definition randomAmount :: "load_env \<Rightarrow> nat \<Rightarrow> string \<times> nat" where
  "randomAmount E t = (cents_text (IntN E t 100000 + 1), Suc t)"

record run_cfg =
  rc_topic :: string
  rc_count :: int
  rc_pool :: "string list"
  rc_hotAccount :: bool
  rc_chain :: int

definition accounts_for :: "load_env \<Rightarrow> run_cfg \<Rightarrow> nat \<Rightarrow> (string \<times> string \<times> nat) option" where
  "accounts_for E cfg t =
     (if rc_hotAccount cfg
      then map_option (\<lambda>(credit, t'). (rc_pool cfg ! 0, credit, t')) (creditAccount E (rc_pool cfg) (rc_pool cfg ! 0) t)
      else randomPair E (rc_pool cfg) t)"

text \<open>The loop of \<^verbatim>\<open>buildMessage\<close>, with \<open>left\<close> transfers to go.\<close>

fun build_transfers :: "load_env \<Rightarrow> run_cfg \<Rightarrow> u64 \<Rightarrow> nat \<Rightarrow> nat \<Rightarrow> (wire_transfer list \<times> nat) option" where
  "build_transfers E cfg now 0 t = Some ([], t)"
| "build_transfers E cfg now (Suc left) t =
     (case accounts_for E cfg t of
        None \<Rightarrow> None
      | Some (debit, credit, t1) \<Rightarrow>
          (case randomAmount E (Suc t1) of
             (amount, t2) \<Rightarrow>
               (case build_transfers E cfg now left t2 of
                  None \<Rightarrow> None
                | Some (ts, t3) \<Rightarrow>
                    Some (\<lparr> w_ID = NewUUID E t1, w_DebitAccountID = debit, w_CreditAccountID = credit,
                            w_Amount = amount, w_Ledger = ledgerName, w_Code = codeName,
                            w_Flags = (if left > 0 then [''linked''] else []), w_UserData64 = now \<rparr> # ts, t3))))"

text \<open>\<^verbatim>\<open>garbagePayload\<close>: four malformed payloads, two of them with new ids, and one of them drawn.\<close>

definition garbage_forms :: "load_env \<Rightarrow> nat \<Rightarrow> string list" where
  "garbage_forms E t =
     [''{\"operation\":\"create_transfers\",\"transfers\":[{\"id\":\"not-a-uuid\",\"debit_account_id\":\"x\",\"credit_account_id\":\"y\",\"amount\":\"1.00\",\"ledger\":\"USD\",\"code\":\"payment\"}]}'',
      ''{\"operation\":\"create_transfers\",\"transfers\":[{\"id\":\"'' @ NewUUID E t @
      ''\",\"debit_account_id\":\"'' @ NewUUID E (t + 1) @
      ''\",\"credit_account_id\":\"'' @ NewUUID E (t + 2) @
      ''\",\"amount\":\"not-a-number\",\"ledger\":\"USD\",\"code\":\"payment\"}]}'',
      ''{\"operation\":\"bogus_operation\",\"transfers\":[]}'',
      ''{\"operation\":\"create_transfers\",\"transfers\":[{\"id\":\"'' @ NewUUID E (t + 3) @ ''\"'']"

definition garbagePayload :: "load_env \<Rightarrow> nat \<Rightarrow> string \<times> nat" where
  "garbagePayload E t = (garbage_forms E t ! IntN E (t + 4) 4, t + 5)"

definition buildMessage ::
    "load_env \<Rightarrow> run_cfg \<Rightarrow> nat \<Rightarrow> bool \<Rightarrow> nat \<Rightarrow> (load_error + string \<times> string) option \<times> nat" where
  "buildMessage E cfg n garbage t =
     (if garbage then (case garbagePayload E t of (body, t1) \<Rightarrow> (Some (Inr ([], body)), t1))
      else
        (case build_transfers E cfg (unix_nano E t) n (Suc t) of
           None \<Rightarrow> (None, t)
         | Some (ts, t1) \<Rightarrow>
             (case marshalJSON E \<lparr> wm_Operation = ''create_transfers'', wm_Transfers = ts, wm_Accounts = [] \<rparr> of
                Inl e \<Rightarrow> (Some (Inl (MarshalError e)), t1)
              | Inr body \<Rightarrow> (Some (Inr (w_DebitAccountID (hd ts), body)), t1))))"

subsection \<open>The run\<close>

record run_stats =
  messages :: nat
  transfers_sent :: int
  garbage_sent :: nat

text \<open>
  The loop of \<^verbatim>\<open>run\<close>: \<open>None\<close> when it does not return. It gives the error that stopped it, the
  counters and the records handed to the producer.
\<close>

partial_function (option) send_loop ::
    "load_env \<Rightarrow> run_cfg \<Rightarrow> int \<Rightarrow> run_stats \<Rightarrow> load_record list \<Rightarrow> nat \<Rightarrow>
     (load_error option \<times> run_stats \<times> load_record list \<times> nat) option" where
  "send_loop E cfg sent st recs t =
     (if sent < rc_count cfg then
        (let n = min (rc_chain cfg) (rc_count cfg - sent);
             garbage = is_garbage E t
         in case buildMessage E cfg (nat n) garbage (Suc t) of
              (None, _) \<Rightarrow> None
            | (Some (Inl e), t1) \<Rightarrow> Some (Some e, st, recs, t1)
            | (Some (Inr (key, body)), t1) \<Rightarrow>
                send_loop E cfg (sent + n)
                  \<lparr> messages = Suc (messages st), transfers_sent = transfers_sent st + n,
                    garbage_sent = (if garbage then Suc (garbage_sent st) else garbage_sent st) \<rparr>
                  (recs @ [\<lparr> lr_Topic = rc_topic cfg, lr_Key = key, lr_Value = body \<rparr>]) t1)
      else Some (None, st, recs, t))"

definition run_load ::
    "load_env \<Rightarrow> run_cfg \<Rightarrow> nat \<Rightarrow> (load_error option \<times> run_stats \<times> load_record list) option" where
  "run_load E cfg t =
     (case send_loop E cfg 0 \<lparr> messages = 0, transfers_sent = 0, garbage_sent = 0 \<rparr> [] t of
        None \<Rightarrow> None
      | Some (Some e, st, recs, _) \<Rightarrow> Some (Some e, st, recs)
      | Some (None, st, recs, t1) \<Rightarrow>
          (case flush_result E t1 of
             Some e \<Rightarrow> Some (Some (FlushFailed e), st, recs)
           | None \<Rightarrow>
               if failed_produces E t1 > 0 then Some (Some (MessagesFailed (failed_produces E t1) (messages st)), st, recs)
               else Some (None, st, recs)))"

subsection \<open>The draws\<close>

text \<open>
  What the sampler of \<^verbatim>\<open>math/rand\<close> is relied on for: an index within the bound, and every index
  again some time. Without the second \<^verbatim>\<open>creditAccount\<close> need not return.
\<close>

definition fair_draws :: "load_env \<Rightarrow> nat \<Rightarrow> bool" where
  "fair_draws E n \<longleftrightarrow> (\<forall>t. IntN E t n < n) \<and> (\<forall>t. \<forall>j < n. \<exists>k \<ge> t. IntN E k n = j)"

lemma creditAccount_upto:
  assumes "\<forall>t. IntN E t (length pool) < length pool" and "pool ! IntN E (t + d) (length pool) \<noteq> debit"
  shows "\<exists>c t'. creditAccount E pool debit t = Some (c, t') \<and> c \<in> set pool \<and> c \<noteq> debit"
  using assms(2)
proof (induction d arbitrary: t)
  case 0
  then show ?case using assms(1) by (simp add: creditAccount.simps [of E pool debit t] Let_def)
next
  case (Suc d)
  show ?case
  proof (cases "pool ! IntN E t (length pool) = debit")
    case True
    from Suc.IH [of "Suc t"] Suc.prems True show ?thesis
      by (simp add: creditAccount.simps [of E pool debit t] Let_def)
  qed (use assms(1) in \<open>simp add: creditAccount.simps [of E pool debit t] Let_def\<close>)
qed

lemma creditAccount_returns:
  assumes "fair_draws E (length pool)" and "distinct pool" and "2 \<le> length pool"
  shows "\<exists>c t'. creditAccount E pool debit t = Some (c, t') \<and> c \<in> set pool \<and> c \<noteq> debit"
proof -
  have "pool ! 0 \<noteq> pool ! 1" using assms(2,3) by (cases pool; cases "tl pool") auto
  then obtain j where j: "j < length pool" "pool ! j \<noteq> debit" using assms(3)
    by (metis One_nat_def Suc_1 Suc_le_lessD le_eq_less_or_eq less_trans zero_less_Suc)
  then obtain k where "t \<le> k" "IntN E k (length pool) = j"
    using assms(1) j(1) unfolding fair_draws_def by blast
  then have "pool ! IntN E (t + (k - t)) (length pool) \<noteq> debit" using j by simp
  with creditAccount_upto assms(1) show ?thesis unfolding fair_draws_def by blast
qed

definition pool_ok :: "load_env \<Rightarrow> run_cfg \<Rightarrow> bool" where
  "pool_ok E cfg \<longleftrightarrow> fair_draws E (length (rc_pool cfg)) \<and> fair_draws E 100000 \<and>
     distinct (rc_pool cfg) \<and> 2 \<le> length (rc_pool cfg)"

lemma accounts_for_returns:
  assumes "pool_ok E cfg"
  shows "\<exists>debit credit t'. accounts_for E cfg t = Some (debit, credit, t') \<and>
     debit \<in> set (rc_pool cfg) \<and> credit \<in> set (rc_pool cfg) \<and> debit \<noteq> credit \<and>
     (rc_hotAccount cfg \<longrightarrow> debit = rc_pool cfg ! 0)"
proof -
  let ?pool = "rc_pool cfg"
  note p = assms [unfolded pool_ok_def]
  then have in_pool: "?pool ! 0 \<in> set ?pool" "?pool ! IntN E t (length ?pool) \<in> set ?pool"
    by (auto simp: fair_draws_def intro!: nth_mem)
  obtain c t' where "creditAccount E ?pool (?pool ! 0) t = Some (c, t')" "c \<in> set ?pool" "c \<noteq> ?pool ! 0"
    using creditAccount_returns p by blast
  moreover obtain c2 t2 where "creditAccount E ?pool (?pool ! IntN E t (length ?pool)) (Suc t) = Some (c2, t2)"
    "c2 \<in> set ?pool" "c2 \<noteq> ?pool ! IntN E t (length ?pool)"
    using creditAccount_returns p by blast
  ultimately show ?thesis using in_pool by (auto simp: accounts_for_def randomPair_def Let_def)
qed

text \<open>Transfer \<open>i\<close> of \<open>n\<close> as \<^verbatim>\<open>buildMessage\<close> fills it in.\<close>

definition wire_ok :: "load_env \<Rightarrow> run_cfg \<Rightarrow> u64 \<Rightarrow> bool \<Rightarrow> wire_transfer \<Rightarrow> bool" where
  "wire_ok E cfg now linked w \<longleftrightarrow>
     w_ID w \<in> range (NewUUID E) \<and> w_DebitAccountID w \<in> set (rc_pool cfg) \<and> w_CreditAccountID w \<in> set (rc_pool cfg) \<and>
     w_DebitAccountID w \<noteq> w_CreditAccountID w \<and> (rc_hotAccount cfg \<longrightarrow> w_DebitAccountID w = rc_pool cfg ! 0) \<and>
     (\<exists>m. 1 \<le> m \<and> m \<le> 100000 \<and> w_Amount w = cents_text m) \<and> w_Ledger w = ledgerName \<and> w_Code w = codeName \<and>
     w_Flags w = (if linked then [''linked''] else []) \<and> w_UserData64 w = now"

lemma build_transfers_returns:
  assumes "pool_ok E cfg"
  shows "\<exists>ts t'. build_transfers E cfg now n t = Some (ts, t') \<and> length ts = n \<and>
     (\<forall>i < n. wire_ok E cfg now (Suc i < n) (ts ! i))"
proof (induction n arbitrary: t)
  case (Suc n)
  obtain debit credit t1 where acc: "accounts_for E cfg t = Some (debit, credit, t1)"
    "debit \<in> set (rc_pool cfg)" "credit \<in> set (rc_pool cfg)" "debit \<noteq> credit"
    "rc_hotAccount cfg \<longrightarrow> debit = rc_pool cfg ! 0"
    using accounts_for_returns [OF assms] by blast
  obtain ts t' where IH: "build_transfers E cfg now n (Suc (Suc t1)) = Some (ts, t')" "length ts = n"
    "\<forall>i < n. wire_ok E cfg now (Suc i < n) (ts ! i)" using Suc.IH by blast
  have "IntN E (Suc t1) 100000 < 100000" using assms by (simp add: pool_ok_def fair_draws_def)
  then have amount: "\<exists>m. 1 \<le> m \<and> m \<le> 100000 \<and> cents_text (IntN E (Suc t1) 100000 + 1) = cents_text m"
    by (intro exI [of _ "IntN E (Suc t1) 100000 + 1"]) simp
  then show ?case
    using IH acc by (auto simp: randomAmount_def wire_ok_def nth_Cons split: nat.splits)
qed simp

subsection \<open>What the decoder makes of a generated message\<close>

definition as_json_transfer :: "wire_transfer \<Rightarrow> json_transfer" where
  "as_json_transfer w =
     \<lparr> jt_ID = w_ID w, jt_DebitAccountID = w_DebitAccountID w, jt_CreditAccountID = w_CreditAccountID w,
       jt_PendingID = [], jt_Amount = w_Amount w, jt_Ledger = w_Ledger w, jt_Code = w_Code w,
       jt_Flags = appended (w_Flags w), jt_UserData128 = [], jt_UserData64 = w_UserData64 w, jt_UserData32 = 0, jt_Timeout = [] \<rparr>"

definition as_json_account :: "wire_account \<Rightarrow> json_account" where
  "as_json_account w =
     \<lparr> ja_ID = wa_ID w, ja_Ledger = wa_Ledger w, ja_Code = wa_Code w, ja_Flags = None, ja_UserData128 = [],
       ja_UserData64 = 0, ja_UserData32 = 0 \<rparr>"

definition as_json :: "wire_message \<Rightarrow> json_message" where
  "as_json m =
     \<lparr> Operation = wm_Operation m, jm_Transfers = appended (map as_json_transfer (wm_Transfers m)),
       jm_Accounts = appended (map as_json_account (wm_Accounts m)) \<rparr>"

text \<open>A new UUID is the text of an id that is not zero.\<close>

definition uuids_ok :: "load_env \<Rightarrow> 'u decode_lib \<Rightarrow> bool" where
  "uuids_ok E D \<longleftrightarrow>
     (\<forall>t. \<exists>u. u \<noteq> zero_id (d_u128 D) \<and> NewUUID E t = FormatID (d_u128 D) (d_uuid D) u)"

lemma uuid_parses:
  assumes "libs_ok D" and "uuids_ok E D" and "s \<in> range (NewUUID E)"
  shows "\<exists>u. ParseID (d_u128 D) (d_uuid D) s = Inr u \<and> FormatID (d_u128 D) (d_uuid D) u = s"
proof -
  obtain u where "u \<noteq> zero_id (d_u128 D)" "s = FormatID (d_u128 D) (d_uuid D) u"
    using assms(2,3) by (auto simp: uuids_ok_def)
  then show ?thesis using ParseID_FormatID [OF libs_okD(1,2) [OF assms(1)]] by auto
qed

lemma cents_text_eq: "cents_text m = decimal_text m 2"
proof -
  have one: "length (dec r) = 1" if "r < 10" for r :: nat using that by (simp add: dec.simps [of r])
  have two: "length (dec r) = 2" if "10 \<le> r" "r < 100" for r :: nat
    using that one [of "r div 10"] by (simp add: dec.simps [of r])
  have "m mod 100 < 100" by simp
  then show ?thesis
    using one [of "m mod 100"] two [of "m mod 100"]
    by (cases "m mod 100 < 10") (simp_all add: cents_text_def decimal_text_def numeral_2_eq_2)
qed

lemma cents_parse:
  assumes "u128_ok L" and "m \<le> 100000"
  shows "\<exists>u. ParseAmount L (cents_text m) 2 = Inr u \<and> BigInt L u = int m"
proof -
  have "BigInt L (BigIntToUint128 L (int m)) = int m" using assms by (simp add: u128_of_big)
  then show ?thesis
    using ParseAmount_decimal_text [OF assms(1), of 2 "BigIntToUint128 L (int m)"] by (auto simp: cents_text_eq)
qed

definition generated :: "'u decode_lib \<Rightarrow> ledger \<Rightarrow> u16 \<Rightarrow> u64 \<Rightarrow> bool \<Rightarrow> wire_transfer \<Rightarrow> 'u transfer \<Rightarrow> bool" where
  "generated D l code now linked w t \<longleftrightarrow>
     FormatID (d_u128 D) (d_uuid D) (t_ID t) = w_ID w \<and>
     FormatID (d_u128 D) (d_uuid D) (t_DebitAccountID t) = w_DebitAccountID w \<and>
     FormatID (d_u128 D) (d_uuid D) (t_CreditAccountID t) = w_CreditAccountID w \<and>
     t_DebitAccountID t \<noteq> t_CreditAccountID t \<and> 1 \<le> BigInt (d_u128 D) (t_Amount t) \<and>
     BigInt (d_u128 D) (t_Amount t) \<le> 100000 \<and> t_Ledger t = ledger_ID l \<and> t_Code t = code \<and>
     t_UserData64 t = now \<and> t_Timeout t = 0 \<and> (\<forall>b. bit (t_Flags t) b \<longleftrightarrow> linked \<and> b = 0)"

lemma generated_transfer_decodes:
  assumes ok: "libs_ok D" "uuids_ok E D" "set (rc_pool cfg) \<subseteq> range (NewUUID E)"
    and reg: "Ledger (d_reg d) ledgerName = Inr l" "Scale l = 2" "Code (d_reg d) codeName = Inr code"
    and w: "wire_ok E cfg now linked w"
  shows "\<exists>t. transfer D d (as_json_transfer w) = Inr t \<and> generated D l code now linked w t"
proof -
  note W = w [unfolded wire_ok_def]
  obtain i debit credit where ids: "ParseID (d_u128 D) (d_uuid D) (w_ID w) = Inr i"
    "ParseID (d_u128 D) (d_uuid D) (w_DebitAccountID w) = Inr debit"
    "ParseID (d_u128 D) (d_uuid D) (w_CreditAccountID w) = Inr credit"
    "FormatID (d_u128 D) (d_uuid D) i = w_ID w" "FormatID (d_u128 D) (d_uuid D) debit = w_DebitAccountID w"
    "FormatID (d_u128 D) (d_uuid D) credit = w_CreditAccountID w"
    using uuid_parses [OF ok(1,2)] W ok(3) by (meson subsetD)
  obtain m where m: "1 \<le> m" "m \<le> 100000" "w_Amount w = cents_text m" using W by blast
  then obtain u where u: "ParseAmount (d_u128 D) (w_Amount w) 2 = Inr u" "BigInt (d_u128 D) u = int m"
    using cents_parse [OF libs_okD(1) [OF ok(1)]] by auto
  define fl where "fl = no_transfer_flags\<lparr>tf_Linked := linked\<rparr>"
  have flags: "TransferFlags (w_Flags w) = Inr fl"
    using W by (auto simp: TransferFlags_def transfer_flag_step_def no_transfer_flags_def fl_def)
  have bits: "bit (transfer_ToUint16 D fl) b \<longleftrightarrow> linked \<and> b = 0" for b
    by (simp add: libs_okD(3) [OF ok(1)] transfer_bits_def fl_def no_transfer_flags_def conj_commute)
  have "debit \<noteq> credit" using ids W by metis
  moreover have "Ledger (d_reg d) (w_Ledger w) = Inr l" "Code (d_reg d) (w_Code w) = Inr code" using reg W by simp_all
  moreover have "\<not> tf_PostPendingTransfer fl" "\<not> tf_VoidPendingTransfer fl" by (simp_all add: fl_def no_transfer_flags_def)
  ultimately show ?thesis
    using ids flags u m W bits reg(2)
    by (simp add: transfer_def as_json_transfer_def parse_id_def parties_def user_data_def generated_def del: lookup_Inr)
qed

text \<open>Events that all decode are decoded in order, and a message that ends in no chain is kept as it is.\<close>

lemma decode_each_total:
  assumes "\<forall>x \<in> set xs. \<exists>y. f x = Inr y"
  shows "\<exists>ys. decode_each bad f i xs = Inr ys"
  using assms
proof (induction xs arbitrary: i)
  case (Cons x xs)
  then obtain y ys where "f x = Inr y" "decode_each bad f (Suc i) xs = Inr ys" by fastforce
  then show ?case by (simp add: bindE_Inr)
qed simp

lemma clear_open_chain:
  assumes "ts \<noteq> []" and "\<not> bit (t_Flags (ts ! (length ts - 1))) 0"
  shows "clear_last_transfer ts = ts"
  using clearLinked_same [OF assms(2)] by (simp add: clear_last_transfer_def)

definition load_ok :: "load_env \<Rightarrow> 'u decode_lib \<Rightarrow> decoder \<Rightarrow> run_cfg \<Rightarrow> ledger \<Rightarrow> u16 \<Rightarrow> bool" where
  "load_ok E D d cfg l code \<longleftrightarrow>
     libs_ok D \<and> uuids_ok E D \<and> pool_ok E cfg \<and> set (rc_pool cfg) \<subseteq> range (NewUUID E) \<and>
     Ledger (d_reg d) ''USD'' = Inr l \<and> Scale l = 2 \<and> Code (d_reg d) ''payment'' = Inr code"

lemma decode_generated:
  assumes "load_ok E D d cfg l code" and "length ts = n"
    and "\<forall>i < n. wire_ok E cfg now (Suc i < n) (ts ! i)" and "0 < n" and "int n \<le> MaxEventsPerMessage (d_lim d)"
  shows "\<exists>out. decodeTransfers D d (map as_json_transfer ts) =
       Inr \<lparr> Op = OpCreateTransfers, Transfers = out, Accounts = [], IDs = map w_ID ts \<rparr> \<and> length out = n \<and>
     (\<forall>i < n. generated D l code now (Suc i < n) (ts ! i) (out ! i))"
proof -
  note L = assms(1) [unfolded load_ok_def]
  have each: "\<exists>t. transfer D d (as_json_transfer (ts ! i)) = Inr t \<and> generated D l code now (Suc i < n) (ts ! i) t"
    if "i < n" for i
    using generated_transfer_decodes [of D E cfg d l code] L assms(3) that by (simp add: ledgerName_def codeName_def)
  then have "\<forall>x \<in> set (map as_json_transfer ts). \<exists>y. transfer D d x = Inr y"
    using assms(2) by (fastforce simp: in_set_conv_nth)
  from decode_each_total [OF this] obtain out where
    out: "decode_each BadTransfer (transfer D d) 0 (map as_json_transfer ts) = Inr out" by blast
  note all = decode_each_Inr [OF out]
  then have len: "length out = n" using assms(2) by (simp add: list_all2_lengthD [symmetric])
  have gen: "generated D l code now (Suc i < n) (ts ! i) (out ! i)" if "i < n" for i
    using each [OF that] list_all2_nthD [OF all, of i] assms(2) that by simp
  then have "\<not> bit (t_Flags (out ! (length out - 1))) 0"
    using gen [of "n - 1"] len assms(4) by (simp add: generated_def)
  then have "clear_last_transfer out = out" using clear_open_chain [of out] len assms(4) by auto
  then show ?thesis
    using out len gen assms(2,4,5) by (auto simp: decodeTransfers_def o_def as_json_transfer_def)
qed

text \<open>An account of the pool as the decoder hands it on.\<close>

definition seeded :: "'u decode_lib \<Rightarrow> ledger \<Rightarrow> u16 \<Rightarrow> string \<Rightarrow> 'u account \<Rightarrow> bool" where
  "seeded D l code i a \<longleftrightarrow>
     FormatID (d_u128 D) (d_uuid D) (a_ID a) = i \<and> a_Ledger a = ledger_ID l \<and> a_Code a = code \<and>
     a_UserData64 a = 0 \<and> a_UserData32 a = 0 \<and> (\<forall>b. \<not> bit (a_Flags a) b)"

definition seed_account :: "string \<Rightarrow> wire_account" where
  "seed_account i = \<lparr> wa_ID = i, wa_Ledger = ledgerName, wa_Code = codeName \<rparr>"

lemma seed_account_decodes:
  assumes "libs_ok D" and "uuids_ok E D" and "i \<in> range (NewUUID E)"
    and "Ledger (d_reg d) ledgerName = Inr l" and "Code (d_reg d) codeName = Inr code"
  shows "\<exists>a. account D d (as_json_account (seed_account i)) = Inr a \<and> seeded D l code i a"
proof -
  obtain u where u: "ParseID (d_u128 D) (d_uuid D) i = Inr u" "FormatID (d_u128 D) (d_uuid D) u = i"
    using uuid_parses [OF assms(1-3)] by blast
  have "AccountFlags [] = Inr no_account_flags" by (simp add: AccountFlags_def)
  moreover have "\<not> bit (account_ToUint16 D no_account_flags) b" for b
    by (simp add: libs_okD(4) [OF assms(1)] account_bits_def no_account_flags_def)
  ultimately show ?thesis
    using u assms(4,5)
    by (simp add: account_def as_json_account_def seed_account_def parse_id_def user_data_def seeded_def del: lookup_Inr)
qed

lemma decode_seeds:
  assumes "load_ok E D d cfg l code" and "set batch \<subseteq> range (NewUUID E)" and "batch \<noteq> []"
    and "int (length batch) \<le> MaxEventsPerMessage (d_lim d)"
  shows "\<exists>out. decodeAccounts D d (map (\<lambda>i. as_json_account (seed_account i)) batch) =
       Inr \<lparr> Op = OpCreateAccounts, Transfers = [], Accounts = out, IDs = batch \<rparr> \<and>
     list_all2 (seeded D l code) batch out"
proof -
  note L = assms(1) [unfolded load_ok_def]
  let ?as = "map (\<lambda>i. as_json_account (seed_account i)) batch"
  have each: "\<exists>a. account D d (as_json_account (seed_account i)) = Inr a \<and> seeded D l code i a"
    if "i \<in> set batch" for i
    using seed_account_decodes [of D E i d l code] L assms(2) that by (auto simp: ledgerName_def codeName_def)
  have "\<forall>x \<in> set ?as. \<exists>y. account D d x = Inr y" using each by fastforce
  from decode_each_total [OF this] obtain out where
    out: "decode_each BadAccount (account D d) 0 ?as = Inr out" by blast
  then have all: "list_all2 (\<lambda>i a. account D d (as_json_account (seed_account i)) = Inr a) batch out"
    using decode_each_Inr [OF out] by (simp add: list_all2_map1)
  have gen: "list_all2 (seeded D l code) batch out"
    using all each by (simp add: list_all2_conv_all_nth) (metis nth_mem Inr_inject)
  then have len: "length out = length batch" by (simp add: list_all2_lengthD)
  have "\<not> bit (a_Flags (out ! (length out - 1))) 0"
    using list_all2_nthD [OF gen, of "length out - 1"] len assms(3) by (simp add: seeded_def)
  then have "clear_last_account out = out"
    using clearLinked_same by (simp add: clear_last_account_def)
  then show ?thesis
    using out gen assms(3,4)
    by (auto simp: decodeAccounts_def o_def as_json_account_def seed_account_def)
qed

subsection \<open>Garbage\<close>

text \<open>
  How the decoder's reader takes the malformed payloads: the first three are JSON, the last is cut
  off; and \<open>not-a-uuid\<close> is no UUID.
\<close>

definition reads_garbage :: "load_env \<Rightarrow> 'u decode_lib \<Rightarrow> bool" where
  "reads_garbage E D \<longleftrightarrow>
     (\<forall>t. (\<exists>jt. unmarshal_message D (garbage_forms E t ! 0) =
           Inr (Inr \<lparr> Operation = ''create_transfers'', jm_Transfers = Some [jt], jm_Accounts = None \<rparr>) \<and> jt_ID jt = ''not-a-uuid'') \<and>
        (\<exists>jt. unmarshal_message D (garbage_forms E t ! 1) =
           Inr (Inr \<lparr> Operation = ''create_transfers'', jm_Transfers = Some [jt], jm_Accounts = None \<rparr>) \<and> jt_Amount jt = ''not-a-number'') \<and>
        unmarshal_message D (garbage_forms E t ! 2) =
           Inr (Inr \<lparr> Operation = ''bogus_operation'', jm_Transfers = None, jm_Accounts = None \<rparr>) \<and>
        (\<exists>e. unmarshal_message D (garbage_forms E t ! 3) = Inr (Inl e))) \<and>
     (\<exists>e. uuid_Parse (d_uuid D) ''not-a-uuid'' = Inl e)"

lemma transfer_refused:
  assumes "\<exists>e. ParseID (d_u128 D) (d_uuid D) (jt_ID jt) = Inl e \<or>
     (\<forall>s v. ParseAmount (d_u128 D) (jt_Amount jt) s \<noteq> Inr v)"
  shows "\<exists>p. decodeTransfers D d [jt] = Inl p"
proof -
  have "\<not> (\<exists>t. transfer D d jt = Inr t)"
    using assms by (auto simp: transfer_def bindE_Inr simp del: lookup_Inr)
  then obtain f where "transfer D d jt = Inl f" by (cases "transfer D d jt") auto
  then show ?thesis by (cases f) (auto simp: decodeTransfers_def)
qed

lemma letters_are_no_amount: "ParseAmount L ''not-a-number'' s \<noteq> Inr v"
  by (simp add: ParseAmount_def validate_amount_def Let_def isDigits_def is_digit_def)

text \<open>
  Every payload the generator malforms on purpose is refused by the decoder, under any limits
  and any configuration, so it exercises the dead-letter path and never TigerBeetle.
\<close>

theorem garbage_is_poison:
  assumes "reads_garbage E D" and "\<forall>t. IntN E t 4 < 4"
  shows "\<exists>body t'. buildMessage E cfg n True t = (Some (Inr ([], body)), t') \<and> (\<exists>p. Decode D d body = Inl p)"
proof -
  let ?k = "IntN E (t + 4) 4"
  let ?b = "garbage_forms E t ! ?k"
  note R = assms(1) [unfolded reads_garbage_def, THEN conjunct1, rule_format, of t]
  have bad_id: "\<exists>e. ParseID (d_u128 D) (d_uuid D) ''not-a-uuid'' = Inl e"
    using assms(1) by (auto simp: reads_garbage_def ParseID_def)
  have "?k \<in> {0, 1, 2, 3}" using assms(2) [rule_format, of "t + 4"] by auto
  then have "\<exists>p. (case unmarshal_message D ?b of Inl p \<Rightarrow> Inl (PanicWhileDecoding p) | Inr (Inl e) \<Rightarrow> Inl (JSONError e)
       | Inr (Inr m) \<Rightarrow>
             if Operation m = OpCreateTransfers then
               if elems (jm_Accounts m) \<noteq> [] then Inl MustNotCarryAccounts else decodeTransfers D d (elems (jm_Transfers m))
             else if Operation m = OpCreateAccounts then
               if elems (jm_Transfers m) \<noteq> [] then Inl MustNotCarryTransfers else decodeAccounts D d (elems (jm_Accounts m))
             else Inl (UnknownOperation (Operation m))) = Inl p"
    using R bad_id
    by (elim insertE) (auto simp: letters_are_no_amount OpCreateTransfers_def OpCreateAccounts_def intro!: transfer_refused)
  then show ?thesis by (auto simp: buildMessage_def garbagePayload_def Decode_def split: option.splits)
qed

subsection \<open>The accounts, once each\<close>

definition seeds :: "load_env \<Rightarrow> string \<Rightarrow> load_record \<Rightarrow> string list \<Rightarrow> bool" where
  "seeds E topic r batch \<longleftrightarrow>
     batch \<noteq> [] \<and> length batch \<le> accountBatchSize \<and> lr_Topic r = topic \<and> lr_Key r = hd batch \<and>
     marshalJSON E (seed_message batch) = Inr (lr_Value r)"

text \<open>
  Seeding sends every account of the pool exactly once, in order, in messages of at most a
  thousand; when it stops at an error, what was sent are the accounts before a message that
  failed, and without an error nothing is left.
\<close>

theorem seeding_covers_the_pool:
  "\<exists>batches rest. list_all2 (seeds E topic) (snd (seedAccounts E topic pool start t)) batches \<and>
     drop start pool = concat batches @ rest \<and> (fst (seedAccounts E topic pool start t) = None \<longleftrightarrow> rest = [])"
proof (induction E topic pool start t rule: seedAccounts.induct)
  case (1 E topic pool start t)
  let ?batch = "take (min (start + accountBatchSize) (length pool) - start) (drop start pool)"
  show ?case
  proof (cases "start < length pool")
    case False
    then show ?thesis by (simp add: seedAccounts.simps [of E topic pool start t])
  next
    case True
    then have batch: "?batch = take accountBatchSize (drop start pool)" by (simp add: min_def)
    have split: "drop start pool = ?batch @ drop (start + accountBatchSize) pool"
      unfolding batch by (metis append_take_drop_id drop_drop add.commute)
    have ne: "?batch \<noteq> []" "length ?batch \<le> accountBatchSize" using True by (auto simp: batch accountBatchSize_def)
    have rest: "drop start pool \<noteq> []" using True by simp
    show ?thesis
    proof (cases "marshalJSON E (seed_message ?batch)")
      case (Inl e)
      then show ?thesis using True rest
        by (intro exI [of _ "[]"] exI [of _ "drop start pool"]) (simp add: seedAccounts.simps [of E topic pool start t] Let_def)
    next
      case body: (Inr body)
      show ?thesis
      proof (cases "produce_sync E t")
        case (Some e)
        then show ?thesis using True rest body
          by (intro exI [of _ "[]"] exI [of _ "drop start pool"]) (simp add: seedAccounts.simps [of E topic pool start t] Let_def)
      next
        case None
        have "\<not> length pool \<le> start" using True by simp
        from "1.IH" [OF this refl refl body None] obtain batches rest where
          IH: "list_all2 (seeds E topic) (snd (seedAccounts E topic pool (start + accountBatchSize) (Suc t))) batches"
            "drop (start + accountBatchSize) pool = concat batches @ rest"
            "fst (seedAccounts E topic pool (start + accountBatchSize) (Suc t)) = None \<longleftrightarrow> rest = []"
          by (elim exE conjE)
        have "seeds E topic \<lparr> lr_Topic = topic, lr_Key = hd ?batch, lr_Value = body \<rparr> ?batch"
          using ne body by (simp add: seeds_def)
        then show ?thesis using True body None IH split
          by (intro exI [of _ "?batch # batches"] exI [of _ rest])
            (auto simp add: seedAccounts.simps [of E topic pool start t] Let_def split: prod.splits)
      qed
    qed
  qed
qed

subsection \<open>The run ends and counts\<close>

definition chunks :: "int \<Rightarrow> int \<Rightarrow> int" where
  "chunks left chain = (left + chain - 1) div chain"

lemma chunks_step:
  assumes "0 < chain" and "0 < left"
  shows "chunks left chain = 1 + chunks (left - min chain left) chain"
proof (cases "chain \<le> left")
  case True
  have "left + chain - 1 = (left - 1) + chain" by simp
  then have "chunks left chain = (left - 1) div chain + 1"
    unfolding chunks_def using assms(1) by (simp only: div_add_self2)
  with True show ?thesis by (simp add: chunks_def)
next
  case False
  have "left + chain - 1 = (left - 1) + chain" by simp
  then have "chunks left chain = (left - 1) div chain + 1"
    unfolding chunks_def using assms(1) by (simp only: div_add_self2)
  moreover have "(left - 1) div chain = 0" using False assms by simp
  moreover have "(chain - 1) div chain = 0" using assms(1) by simp
  ultimately show ?thesis using False by (simp add: chunks_def)
qed

definition encodes_all :: "load_env \<Rightarrow> bool" where
  "encodes_all E \<longleftrightarrow> (\<forall>j. \<exists>b. json_Marshal E j = Inr b)"

lemma buildMessage_returns:
  assumes "pool_ok E cfg" and "encodes_all E"
  shows "\<exists>key body t'. buildMessage E cfg n garbage t = (Some (Inr (key, body)), t')"
proof -
  obtain ts t1 where ts: "build_transfers E cfg (unix_nano E t) n (Suc t) = Some (ts, t1)"
    using build_transfers_returns [OF assms(1)] by blast
  obtain body where "marshalJSON E \<lparr> wm_Operation = ''create_transfers'', wm_Transfers = ts, wm_Accounts = [] \<rparr> = Inr body"
    using assms(2) by (auto simp: encodes_all_def marshalJSON_def)
  with ts show ?thesis by (simp add: buildMessage_def garbagePayload_def)
qed

lemma send_loop_returns:
  assumes "pool_ok E cfg" and "encodes_all E" and "0 < rc_chain cfg" and "sent \<le> rc_count cfg"
  shows "\<exists>st' new t'. send_loop E cfg sent st recs t = Some (None, st', recs @ new, t') \<and>
     transfers_sent st' = transfers_sent st + (rc_count cfg - sent) \<and> messages st' = messages st + length new \<and>
     int (length new) = chunks (rc_count cfg - sent) (rc_chain cfg) \<and>
     garbage_sent st \<le> garbage_sent st' \<and> garbage_sent st' \<le> garbage_sent st + length new \<and>
     (\<forall>r \<in> set new. lr_Topic r = rc_topic cfg)"
  using assms(4)
proof (induction "nat (rc_count cfg - sent)" arbitrary: sent st recs t rule: less_induct)
  case less
  show ?case
  proof (cases "sent < rc_count cfg")
    case False
    then have "rc_count cfg - sent = 0" using less.prems by simp
    then show ?thesis using assms(3) False
      by (intro exI [of _ st] exI [of _ "[]"] exI [of _ t])
        (simp add: send_loop.simps [of E cfg sent st recs t] chunks_def)
  next
    case True
    define n where "n = min (rc_chain cfg) (rc_count cfg - sent)"
    have n: "0 < n" "sent + n \<le> rc_count cfg" using True assms(3) by (auto simp: n_def)
    define g where "g = is_garbage E t"
    obtain key body t1 where b: "buildMessage E cfg (nat n) g (Suc t) = (Some (Inr (key, body)), t1)"
      using buildMessage_returns [OF assms(1,2)] by blast
    define st1 where "st1 = \<lparr> messages = Suc (messages st), transfers_sent = transfers_sent st + n,
       garbage_sent = (if g then Suc (garbage_sent st) else garbage_sent st) \<rparr>"
    define r where "r = \<lparr> lr_Topic = rc_topic cfg, lr_Key = key, lr_Value = body \<rparr>"
    have step: "send_loop E cfg sent st recs t = send_loop E cfg (sent + n) st1 (recs @ [r]) t1"
      using True b by (simp add: send_loop.simps [of E cfg sent st recs t] Let_def n_def [symmetric] g_def [symmetric]
          st1_def r_def)
    have "nat (rc_count cfg - (sent + n)) < nat (rc_count cfg - sent)" using n True by simp
    from less.hyps [OF this n(2), of st1 "recs @ [r]" t1] obtain st' new t' where
      IH: "send_loop E cfg (sent + n) st1 (recs @ [r]) t1 = Some (None, st', (recs @ [r]) @ new, t')"
        "transfers_sent st' = transfers_sent st1 + (rc_count cfg - (sent + n))" "messages st' = messages st1 + length new"
        "int (length new) = chunks (rc_count cfg - (sent + n)) (rc_chain cfg)"
        "garbage_sent st1 \<le> garbage_sent st'" "garbage_sent st' \<le> garbage_sent st1 + length new"
        "\<forall>r \<in> set new. lr_Topic r = rc_topic cfg" by blast
    have "chunks (rc_count cfg - sent) (rc_chain cfg) = 1 + chunks (rc_count cfg - (sent + n)) (rc_chain cfg)"
      using chunks_step [OF assms(3), of "rc_count cfg - sent"] True by (simp add: n_def algebra_simps)
    then show ?thesis using IH unfolding step
      by (intro exI [of _ st'] exI [of _ "r # new"] exI [of _ t']) (auto simp: st1_def r_def split: if_splits)
  qed
qed

text \<open>
  A run with a positive count and chain ends, whatever is drawn, and never on an encoding
  error: it has handed the producer exactly the count divided by the chain, rounded up, of
  messages, all to the topic, and accounted for exactly the count of transfers, garbage included;
  it fails exactly when the flush fails or a message was not produced.
\<close>

theorem run_sends_the_count:
  assumes "pool_ok E cfg" and "encodes_all E" and "0 < rc_chain cfg" and "0 \<le> rc_count cfg"
  shows "\<exists>err st recs t'. run_load E cfg t = Some (err, st, recs) \<and>
     transfers_sent st = rc_count cfg \<and> messages st = length recs \<and> garbage_sent st \<le> messages st \<and>
     int (length recs) = chunks (rc_count cfg) (rc_chain cfg) \<and> (\<forall>r \<in> set recs. lr_Topic r = rc_topic cfg) \<and>
     (err = None \<longleftrightarrow> flush_result E t' = None \<and> failed_produces E t' = 0)"
proof -
  obtain st' new t' where "send_loop E cfg 0 \<lparr> messages = 0, transfers_sent = 0, garbage_sent = 0 \<rparr> [] t =
      Some (None, st', [] @ new, t')" "transfers_sent st' = rc_count cfg" "messages st' = length new"
    "int (length new) = chunks (rc_count cfg) (rc_chain cfg)" "garbage_sent st' \<le> length new"
    "\<forall>r \<in> set new. lr_Topic r = rc_topic cfg"
    using send_loop_returns [OF assms, of "\<lparr> messages = 0, transfers_sent = 0, garbage_sent = 0 \<rparr>" "[]" t] by auto
  then show ?thesis
    by (intro exI [of _ "case flush_result E t' of Some e \<Rightarrow> Some (FlushFailed e) | None \<Rightarrow>
        if failed_produces E t' > 0 then Some (MessagesFailed (failed_produces E t') (messages st')) else None"]
      exI [of _ st'] exI [of _ new] exI [of _ t']) (simp add: run_load_def split: option.splits)
qed

subsection \<open>Witnesses\<close>

text \<open>Draws that go round, UUIDs that alternate, and an encoder of nothing.\<close>

definition demo_load_env :: load_env where
  "demo_load_env = \<lparr> IntN = (\<lambda>t n. t mod n), NewUUID = (\<lambda>t. if even t then demo_id 7 else demo_id 5),
     unix_nano = (\<lambda>_. 0), is_garbage = (\<lambda>_. False), json_Marshal = (\<lambda>_. Inr ''{}''),
     produce_sync = (\<lambda>_. None), flush_result = (\<lambda>_. None), failed_produces = (\<lambda>_. 0) \<rparr>"

definition demo_cfg :: run_cfg where
  "demo_cfg = \<lparr> rc_topic = ''commands'', rc_count = 5, rc_pool = [demo_id 7, demo_id 5], rc_hotAccount = False, rc_chain = 2 \<rparr>"

lemma demo_fair: "0 < n \<Longrightarrow> fair_draws demo_load_env n"
proof -
  assume n: "0 < n"
  have "\<exists>k \<ge> t. k mod n = j" if "j < n" for t j
  proof (intro exI [of _ "t * n + j"] conjI)
    show "t \<le> t * n + j" using n by (simp add: trans_le_add1)
  qed (use that in simp)
  with n show ?thesis by (simp add: fair_draws_def demo_load_env_def)
qed

lemma demo_pool_ok: "pool_ok demo_load_env demo_cfg"
proof -
  have "demo_id 7 \<noteq> demo_id 5" using demo_ids by force
  then show ?thesis using demo_fair [of 2] demo_fair [of 100000] by (simp add: pool_ok_def demo_cfg_def numeral_2_eq_2)
qed

theorem run_sends_the_count_witness:
  "\<exists>st recs. run_load demo_load_env demo_cfg 0 = Some (None, st, recs) \<and> length recs = 3 \<and> transfers_sent st = 5"
proof -
  have "encodes_all demo_load_env" by (simp add: encodes_all_def demo_load_env_def)
  from run_sends_the_count [OF demo_pool_ok this, of 0] show ?thesis
    by (auto simp: demo_cfg_def demo_load_env_def chunks_def)
qed

text \<open>A reader that knows the malformed payloads.\<close>

definition demo_garbage :: "128 word decode_lib" where
  "demo_garbage = demo_decode\<lparr>unmarshal_message := (\<lambda>s.
     if s = garbage_forms demo_load_env 0 ! 0
     then Inr (Inr \<lparr> Operation = ''create_transfers'', jm_Transfers = Some [demo_linked\<lparr>jt_ID := ''not-a-uuid''\<rparr>], jm_Accounts = None \<rparr>)
     else if s = garbage_forms demo_load_env 0 ! 2 then Inr (Inr \<lparr> Operation = ''bogus_operation'', jm_Transfers = None, jm_Accounts = None \<rparr>)
     else if last s = CHR ''}'' then Inr (Inr \<lparr> Operation = ''create_transfers'', jm_Transfers = Some [demo_linked\<lparr>jt_Amount := ''not-a-number''\<rparr>], jm_Accounts = None \<rparr>)
     else Inr (Inl ''unexpected end of JSON input''))\<rparr>"

theorem garbage_is_poison_witness:
  "\<exists>body t'. buildMessage demo_load_env demo_cfg 1 True 0 = (Some (Inr ([], body)), t') \<and>
     (\<exists>p. Decode demo_garbage demo_decoder body = Inl p)"
proof -
  have "reads_garbage demo_load_env demo_garbage"
    by (auto simp: reads_garbage_def demo_garbage_def garbage_forms_def demo_decode_def raw_uuid_def)
  then show ?thesis by (rule garbage_is_poison) (simp add: demo_load_env_def)
qed

end
