(* ===== verification/Sink.thy ===== *)
theory Sink
  imports Emit Batcher
begin

section \<open>The Kafka consumer: \<^verbatim>\<open>internal/sink/sink.go\<close>\<close>

text \<open>
  One poll's records are grouped by partition; each group is submitted to the batcher, its
  outcomes are published in offset order, and a record is marked finished only when all its
  publications are acknowledged. What fails is retried from the first unfinished record or the
  partition is rewound. The code runs against the clock, the context, the batcher, the broker
  and the decoders: they are functions in a parameter record, asked at a time that every such
  question advances, so any behaviour of theirs is an instance. Partitions run on goroutines
  of their own that share no record and no partition state; they are modelled one after the
  other, in any order. A call that may panic returns \<open>Panic\<close>.
\<close>

subsection \<open>What the sink talks to\<close>

datatype 'a call = Ret 'a | Panic string

text \<open>
  \<open>submit_at\<close>: the error \<^verbatim>\<open>SubmitAsync\<close> returns; \<open>outcome_at t c\<close>: what \<^verbatim>\<open>await\<close> receives on channel
  \<open>c\<close> before context and deadline, if anything; \<open>callbacks_at\<close>: publications resolved by then;
  \<open>is_ctx_err\<close>: whether an error is the wait context's own; \<open>panic_at\<close>: a panic in \<^verbatim>\<open>finish\<close> after
  some publications; \<open>retry_fits\<close>, \<open>backoff_ok\<close>: time left for another attempt, and the wait for it
  not cut by cancellation; \<open>flush_err\<close>: the producer's answer; \<open>commit_resp\<close>: the broker's, an error
  or an error code per partition; \<open>commit_due\<close>: whether the commit ticker has fired.
\<close>

record 'u sink_params =
  decoders :: "string \<Rightarrow> (string \<Rightarrow> (string + 'u command) call) option"
  emit_p :: emit_params
  Quote :: "string \<Rightarrow> string"
  maxInFlight :: int
  clock :: "nat \<Rightarrow> int"
  ctx_err :: "nat \<Rightarrow> bool"
  expired :: "nat \<Rightarrow> bool"
  submit_at :: "nat \<Rightarrow> submit_error option call"
  outcome_at :: "nat \<Rightarrow> nat \<Rightarrow> submit_result option"
  callbacks_at :: "nat \<Rightarrow> (nat \<times> string option) list"
  is_ctx_err :: "nat \<Rightarrow> string \<Rightarrow> bool"
  panic_at :: "nat \<Rightarrow> (nat \<times> string) option"
  retry_fits :: "nat \<Rightarrow> bool"
  backoff_ok :: "nat \<Rightarrow> bool"
  flush_err :: "nat \<Rightarrow> string option"
  commit_resp :: "nat \<Rightarrow> string + (string \<times> (int \<times> int) list) list"
  commit_due :: "nat \<Rightarrow> bool"

datatype metric = IncRecords string | IncEvents string | IncDLQ string string | SetCommitLag string int int

text \<open>
  \<open>submits\<close>, \<open>finals\<close>, \<open>rewinds\<close> and \<open>commits\<close> record what was submitted, finished (with its
  publications), rewound and handed to the broker, in order, and \<open>hist\<close> the calls of the
  tracker. A submission's channel is named by its index.
\<close>

record 'u world =
  now :: nat
  em :: emitter
  offs :: offsets
  hist :: "offset_event list"
  submits :: "(krecord \<times> 'u command) list"
  finals :: "(krecord \<times> nat list) list"
  metrics :: "metric list"
  rewinds :: "epoch_offset per_partition list"
  commits :: "epoch_offset per_partition list"

definition tick :: "'u world \<Rightarrow> 'u world" where
  "tick w = w\<lparr>now := Suc (now w)\<rparr>"

definition track_call :: "offset_event \<Rightarrow> 'u world \<Rightarrow> 'u world" where
  "track_call e w = w\<lparr>offs := offset_step e (offs w), hist := hist w @ [e]\<rparr>"

definition inc :: "metric \<Rightarrow> 'u world \<Rightarrow> 'u world" where
  "inc m w = w\<lparr>metrics := metrics w @ [m]\<rparr>"

fun error_text :: "submit_error \<Rightarrow> string" where
  "error_text ErrCommandTooLarge = ''command exceeds max batch size''"
| "error_text ErrEmptyCommand = ''empty command''"
| "error_text ErrClosed = ''batcher closed''"
| "error_text CtxErr = ''context canceled''"
| "error_text (MapErr (CountMismatch got want)) =
     ''tigerbeetle result count does not match batch size: got '' @ dec got @
     '' results, expected batch size '' @ dec want"
| "error_text (MapErr (WindowMismatch a b n)) =
     ''tigerbeetle result count does not match batch size: command window ['' @ itoa a @ '','' @ itoa b @
     '') does not fit batch size '' @ dec n"
| "error_text (MapErr (MapPanic _)) = ''panic''"

subsection \<open>Submission\<close>

datatype prepared = Submitted nat | Poisoned string string | Failed submit_error

definition prepare :: "'u sink_params \<Rightarrow> krecord \<Rightarrow> 'u world \<Rightarrow> prepared \<times> 'u world" where
  "prepare S rec w0 =
     (let w = tick w0 in
      case decoders S (k_Topic rec) of
        None \<Rightarrow> (Poisoned ''unknown_topic'' (''no decoder registered for topic '' @ Quote S (k_Topic rec)), w)
      | Some decode \<Rightarrow>
          (case decode (k_Value rec) of
             Panic v \<Rightarrow> (Poisoned ''panic'' v, w)
           | Ret (Inl derr) \<Rightarrow> (Poisoned ''decode'' derr, w)
           | Ret (Inr c) \<Rightarrow>
               (case submit_at S (now w) of
                  Panic v \<Rightarrow> (Poisoned ''panic'' v, w)
                | Ret None \<Rightarrow> (Submitted (length (submits w)), w\<lparr>submits := submits w @ [(rec, c)]\<rparr>)
                | Ret (Some serr) \<Rightarrow>
                    if serr = ErrCommandTooLarge then (Poisoned ''command_too_large'' (error_text serr), w)
                    else if serr = ErrEmptyCommand then (Poisoned ''empty_command'' (error_text serr), w)
                    else (Failed serr, w))))"

text \<open>The first phase of \<^verbatim>\<open>pass\<close>; \<^verbatim>\<open>enqueueCtx\<close> is done when \<^verbatim>\<open>ctx\<close> is or the deadline has passed.\<close>

fun submit_loop :: "'u sink_params \<Rightarrow> krecord list \<Rightarrow> 'u world \<Rightarrow> prepared list \<times> 'u world" where
  "submit_loop S [] w = ([], w)"
| "submit_loop S (rec # recs) w =
     (if ctx_err S (now w) \<or> expired S (now w) then ([], w)
      else
        (let (p, w1) = prepare S rec w in
         case p of
           Failed e \<Rightarrow> if expired S (now w1) \<and> \<not> ctx_err S (now w1) then ([], w1) else ([p], w1)
         | _ \<Rightarrow> (let (ps, w2) = submit_loop S recs w1 in (p # ps, w2))))"

subsection \<open>Publication\<close>

record issuedPubs =
  ip_pubs :: "nat list"
  isPoison :: bool
  poison :: string
  outcomes :: "outcome list"

definition emitPoison ::
    "'u sink_params \<Rightarrow> krecord \<Rightarrow> string \<Rightarrow> string \<Rightarrow> 'u world \<Rightarrow> issuedPubs \<times> 'u world" where
  "emitPoison S rec errName detail w =
     (let (p, e) = DLQ (emit_p S) (clock S (now w)) rec ReasonPoison errName detail (em w)
      in (\<lparr> ip_pubs = [p], isPoison = True, poison = errName, outcomes = [] \<rparr>, w\<lparr>em := e\<rparr>))"

text \<open>The publications of an applied command, in the order \<^verbatim>\<open>finish\<close> hands them off.\<close>

definition reject_detail :: "outcome \<Rightarrow> string" where
  "reject_detail o' = ''event '' @ dec (Index o') @ '' (id '' @ ID o' @ ''): '' @ Error o'"

definition publications ::
    "'u sink_params \<Rightarrow> nat \<Rightarrow> krecord \<Rightarrow> outcome list \<Rightarrow> (emitter \<Rightarrow> nat \<times> emitter) list" where
  "publications S t rec os =
     Results (emit_p S) (clock S t) rec os #
     map (\<lambda>o'. DLQ (emit_p S) (clock S t) rec ReasonReject (Error o') (reject_detail o'))
       (filter (\<lambda>o'. Status o' = StatusRejected) os)"

fun hand_off :: "(emitter \<Rightarrow> nat \<times> emitter) list \<Rightarrow> emitter \<Rightarrow> nat list \<times> emitter" where
  "hand_off [] e = ([], e)"
| "hand_off (f # fs) e = (let (p, e1) = f e; (ps, e2) = hand_off fs e1 in (p # ps, e2))"

definition finish ::
    "'u sink_params \<Rightarrow> krecord \<Rightarrow> prepared \<Rightarrow> submit_result \<Rightarrow> 'u world \<Rightarrow> (submit_error + issuedPubs) \<times> 'u world"
  where
  "finish S rec p res w0 =
     (let w = tick w0 in
      case p of
        Poisoned errName detail \<Rightarrow> (let (ip, w1) = emitPoison S rec errName detail w in (Inr ip, w1))
      | Failed e \<Rightarrow> (Inl e, inc (IncRecords ''blocked'') w)
      | Submitted _ \<Rightarrow>
          (case res of
             Inl e \<Rightarrow>
               if e = ErrCommandTooLarge then
                 (let (ip, w1) = emitPoison S rec ''command_too_large'' (error_text e) w in (Inr ip, w1))
               else if e = ErrEmptyCommand then
                 (let (ip, w1) = emitPoison S rec ''empty_command'' (error_text e) w in (Inr ip, w1))
               else (Inl e, inc (IncRecords ''blocked'') w)
           | Inr os \<Rightarrow>
               (case panic_at S (now w) of
                  None \<Rightarrow>
                    (let (ps, e) = hand_off (publications S (now w) rec os) (em w)
                     in (Inr \<lparr> ip_pubs = ps, isPoison = False, poison = [], outcomes = os \<rparr>, w\<lparr>em := e\<rparr>))
                | Some (k, v) \<Rightarrow>
                    (let (ps, e) = hand_off (take k (publications S (now w) rec os)) (em w);
                         (ip, w1) = emitPoison S rec ''panic'' v (w\<lparr>em := e\<rparr>)
                     in (Inr \<lparr> ip_pubs = ps @ ip_pubs ip, isPoison = True, poison = poison ip,
                               outcomes = [] \<rparr>, w1)))))"

text \<open>The second phase of \<^verbatim>\<open>pass\<close>: a record that was not submitted has no outcome to wait for.\<close>

definition await :: "'u sink_params \<Rightarrow> nat \<Rightarrow> 'u world \<Rightarrow> submit_result option \<times> 'u world" where
  "await S c w = (outcome_at S (now (tick w)) c, tick w)"

fun collect_loop ::
    "'u sink_params \<Rightarrow> (krecord \<times> prepared) list \<Rightarrow> 'u world \<Rightarrow> issuedPubs list \<times> submit_error option \<times> 'u world"
  where
  "collect_loop S [] w = ([], None, w)"
| "collect_loop S ((rec, p) # rps) w =
     (let (res, w1) = (case p of Submitted c \<Rightarrow> await S c w | _ \<Rightarrow> (Some (Inr []), w)) in
      case res of
        None \<Rightarrow> ([], None, w1)
      | Some r \<Rightarrow>
          (case finish S rec p r w1 of
             (Inl e, w2) \<Rightarrow> ([], Some e, w2)
           | (Inr ip, w2) \<Rightarrow> (let (ips, err, w3) = collect_loop S rps w2 in (ip # ips, err, w3))))"

subsection \<open>Acknowledgement\<close>

text \<open>Callbacks run on the producer's goroutine; one that is not due is ignored.\<close>

definition deliver :: "'u sink_params \<Rightarrow> 'u world \<Rightarrow> 'u world" where
  "deliver S w =
     w\<lparr>em := fold (\<lambda>(p, err) e.
          if p < length (pubs e) \<and> \<not> p_done (pubs e ! p) then callback ''produce'' p err e else e)
        (callbacks_at S (now w)) (em w)\<rparr>"

definition count_pub :: "issuedPubs \<Rightarrow> metric list" where
  "count_pub ip =
     (if isPoison ip then [IncRecords ''poison'', IncDLQ (reason_text ReasonPoison) (poison ip)]
      else
        concat (map (\<lambda>o'. (if Status o' = StatusRejected then [IncDLQ (reason_text ReasonReject) (Error o')] else []) @
                          [IncEvents (status_text (Status o'))]) (outcomes ip)) @
        [IncRecords (status_text (if \<exists>o' \<in> set (outcomes ip). Status o' = StatusRejected
                                  then StatusRejected else StatusOK))])"

datatype wait_all = AllAcked | Cut | Broken string

text \<open>\<^verbatim>\<open>Wait\<close> blocks until the promise or the wait context is done: with no callback it is the context.\<close>

fun wait_pubs :: "'u sink_params \<Rightarrow> nat list \<Rightarrow> 'u world \<Rightarrow> wait_all \<times> 'u world" where
  "wait_pubs S [] w = (AllAcked, w)"
| "wait_pubs S (p # ps) w =
     (let w1 = deliver S (tick w) in
      case Wait True p (em w1) of
        Some (Acked, e) \<Rightarrow> wait_pubs S ps (w1\<lparr>em := e\<rparr>)
      | Some (Nacked err, e) \<Rightarrow>
          if is_ctx_err S (now w1) err then (Cut, w1\<lparr>em := e\<rparr>) else (Broken err, w1\<lparr>em := e\<rparr>)
      | _ \<Rightarrow> (Cut, w1))"

definition mark_final :: "krecord \<Rightarrow> issuedPubs \<Rightarrow> 'u world \<Rightarrow> 'u world" where
  "mark_final rec ip w =
     track_call (DoneE rec) (w\<lparr>metrics := metrics w @ count_pub ip, finals := finals w @ [(rec, ip_pubs ip)]\<rparr>)"

fun confirm ::
    "'u sink_params \<Rightarrow> (krecord \<times> issuedPubs) list \<Rightarrow> 'u world \<Rightarrow> nat \<times> string option \<times> 'u world" where
  "confirm S [] w = (0, None, w)"
| "confirm S ((rec, ip) # rest) w =
     (case wait_pubs S (ip_pubs ip) w of
        (Cut, w1) \<Rightarrow> (0, None, w1)
      | (Broken err, w1) \<Rightarrow> (0, Some err, inc (IncRecords ''blocked'') w1)
      | (AllAcked, w1) \<Rightarrow>
          (let (n, err, w2) = confirm S rest (mark_final rec ip w1) in (Suc n, err, w2)))"

subsection \<open>One run over a partition\<close>

datatype pass_error = SubmitFailed submit_error | PublishFailed string

definition pass ::
    "'u sink_params \<Rightarrow> krecord list \<Rightarrow> 'u world \<Rightarrow> nat \<times> pass_error option \<times> 'u world" where
  "pass S recs0 w =
     (let recs = (if int (length recs0) > maxInFlight S then take (nat (maxInFlight S)) recs0 else recs0) in
      if recs = [] then (0, None, w)
      else
        (let (prep, w1) = submit_loop S recs w;
             (issued, failErr, w2) = collect_loop S (zip recs prep) w1;
             (applied, err, w3) = confirm S (zip recs issued) w2
         in if err \<noteq> None \<or> applied < length issued then (applied, map_option PublishFailed err, w3)
            else (applied, map_option SubmitFailed failErr, w3)))"

text \<open>
  \<^verbatim>\<open>runPartition\<close>: \<open>None\<close> is out of fuel; \<open>Some b\<close> is the code's result.
\<close>

fun runPartition :: "'u sink_params \<Rightarrow> nat \<Rightarrow> krecord list \<Rightarrow> 'u world \<Rightarrow> bool option \<times> krecord list \<times> 'u world" where
  "runPartition S fuel [] w = (Some True, [], w)"
| "runPartition S 0 (r # rs) w = (None, r # rs, w)"
| "runPartition S (Suc n) (r # rs) w =
     (if ctx_err S (now w) then (Some False, r # rs, w)
      else if expired S (now w) then (Some False, r # rs, w)
      else
        (let (applied, err, w1) = pass S (r # rs) w; recs = drop applied (r # rs) in
         case err of
           None \<Rightarrow>
             if applied > 0 then runPartition S n recs w1
             else if \<not> ctx_err S (now w1) then (Some False, recs, w1)
             else runPartition S n recs (tick w1)
         | Some e \<Rightarrow>
             if ctx_err S (now w1) then (Some False, recs, w1)
             else if \<not> retry_fits S (now w1) then (Some False, recs, w1)
             else if \<not> backoff_ok S (now w1) then (Some False, recs, tick w1)
             else runPartition S n recs (tick w1)))"


subsection \<open>One poll\<close>

text \<open>\<^verbatim>\<open>groupByPartition\<close>: the groups in the order their first record arrived, with the index as key.\<close>

definition groupByPartition :: "krecord list \<Rightarrow> krecord list list" where
  "groupByPartition recs =
     map snd (fold (\<lambda>r g. AList.update (key_of r) ((case map_of g (key_of r) of None \<Rightarrow> [] | Some rs \<Rightarrow> rs) @ [r]) g)
                recs [])"

fun run_groups :: "'u sink_params \<Rightarrow> nat \<Rightarrow> krecord list list \<Rightarrow> 'u world \<Rightarrow> bool \<times> 'u world" where
  "run_groups S fuel [] w = (False, w)"
| "run_groups S fuel (g # gs) w =
     (let (ok, _, w1) = runPartition S fuel g w; (abandoned, w2) = run_groups S fuel gs w1
      in (ok \<noteq> Some True \<or> abandoned, w2))"

definition keys2 :: "'v per_partition \<Rightarrow> partitionKey list" where
  "keys2 ps = concat (map (\<lambda>(t, parts). map (\<lambda>(p, _). (t, p)) parts) ps)"

definition forget_all :: "partitionKey list \<Rightarrow> 'u world \<Rightarrow> 'u world" where
  "forget_all ks w = fold (\<lambda>(t, p) w. track_call (ForgetE t p) w) ks w"

definition abandonBatch :: "'u world \<Rightarrow> 'u world" where
  "abandonBatch w =
     (let pending = Pending (offs w) in
      if pending = [] then w else forget_all (keys2 pending) (w\<lparr>rewinds := rewinds w @ [pending]\<rparr>))"

definition processBatch :: "'u sink_params \<Rightarrow> nat \<Rightarrow> krecord list \<Rightarrow> 'u world \<Rightarrow> 'u world" where
  "processBatch S fuel recs w =
     (let w1 = fold (\<lambda>rec. track_call (TrackE rec)) recs w;
          (abandoned, w2) = run_groups S fuel (groupByPartition recs) w1
      in if abandoned \<and> \<not> ctx_err S (now w2) then abandonBatch w2 else w2)"

subsection \<open>Commit\<close>

text \<open>
  \<^verbatim>\<open>kerr.ErrorForCode\<close> of the client library is nil for code 0 only. One refused partition is
  enough to leave every watermark where it was.
\<close>

fun commit_refused :: "string + (string \<times> (int \<times> int) list) list \<Rightarrow> bool" where
  "commit_refused (Inl _) = True"
| "commit_refused (Inr topics) = (\<exists>(_, parts) \<in> set topics. \<exists>(_, code) \<in> set parts. code \<noteq> 0)"

definition reportCommitLag :: "'u world \<Rightarrow> 'u world" where
  "reportCommitLag w =
     w\<lparr>metrics := metrics w @
         concat (map (\<lambda>(topic, parts). map (\<lambda>(part, lag). SetCommitLag topic part lag) parts)
           (CommitLag (offs w)))\<rparr>"

definition commit :: "'u sink_params \<Rightarrow> 'u world \<Rightarrow> 'u world" where
  "commit S w0 =
     reportCommitLag
       (let w = deliver S (tick w0); os = Commitable (offs w) in
        if os = [] then w
        else
          (case Flush (flush_err S (now w)) (em w) of
             (Some _, e) \<Rightarrow> w\<lparr>em := e\<rparr>
           | (None, e) \<Rightarrow>
               let w1 = w\<lparr>em := e, commits := commits w @ [os]\<rparr> in
               if commit_refused (commit_resp S (now w)) then w1 else track_call (MarkE os) w1))"

definition OnRevoked :: "'u sink_params \<Rightarrow> (string \<times> int list) list \<Rightarrow> 'u world \<Rightarrow> 'u world" where
  "OnRevoked S revoked w =
     forget_all (concat (map (\<lambda>(t, parts). map (\<lambda>p. (t, p)) parts) revoked)) (commit S w)"

subsection \<open>The sink\<close>

text \<open>
  \<^verbatim>\<open>New\<close> replaces a bound that is not positive by its default; the budgets are the constants of
  the file, in nanoseconds.
\<close>

definition defaultCommitPeriod :: int where "defaultCommitPeriod = Second"

definition defaultRetryPeriod :: int where "defaultRetryPeriod = Second"

definition defaultShutdownTimeout :: int where "defaultShutdownTimeout = 10 * Second"

definition defaultBatchBudget :: int where "defaultBatchBudget = 30 * Second"

record sink_bounds =
  pollSize :: int
  inFlight :: int
  commitPeriod :: int
  retryPeriod :: int
  batchBudget :: int
  shutdownTimeout :: int

definition New :: "config \<Rightarrow> sink_bounds" where
  "New cfg =
     (let maxInFlight = MaxInFlightPerPartition (Sink cfg);
          poll = PollSize (Sink cfg);
          shutdown = ShutdownTimeout cfg
      in \<lparr> pollSize = (if poll \<le> 0 then DefaultPollSize else poll),
           inFlight = (if maxInFlight \<le> 0 then DefaultMaxInFlightPerPartition else maxInFlight),
           commitPeriod = defaultCommitPeriod, retryPeriod = defaultRetryPeriod,
           batchBudget = defaultBatchBudget,
           shutdownTimeout = (if shutdown \<le> 0 then defaultShutdownTimeout else shutdown) \<rparr>)"

definition new_world :: "'u world" where
  "new_world = \<lparr> now = 0, em = New_emitter, offs = NewOffsets, hist = [], submits = [], finals = [],
                 metrics = [], rewinds = [], commits = [] \<rparr>"

text \<open>
  \<^verbatim>\<open>Run\<close> against what the client gives it: a poll's records, the end of the client, or a
  revocation, which franz-go reports between polls since the rebalance is blocked from a poll to
  \<^verbatim>\<open>AllowRebalance\<close>. The final commit has a context of its own.
\<close>

datatype sink_event = Fetched "krecord list" | ClientClosed | Revoked "(string \<times> int list) list"

fun Run :: "'u sink_params \<Rightarrow> nat \<Rightarrow> sink_event list \<Rightarrow> 'u world \<Rightarrow> 'u world" where
  "Run S fuel [] w = w"
| "Run S fuel (ClientClosed # es) w = w"
| "Run S fuel (Revoked revoked # es) w = Run S fuel es (OnRevoked S revoked w)"
| "Run S fuel (Fetched recs # es) w =
     (let w1 = processBatch S fuel recs w in
      if ctx_err S (now w1) then commit S w1
      else Run S fuel es (if commit_due S (now w1) then commit S w1 else w1))"

subsection \<open>Grouping\<close>

definition group_step :: "krecord \<Rightarrow> (partitionKey \<times> krecord list) list \<Rightarrow> (partitionKey \<times> krecord list) list" where
  "group_step r g = AList.update (key_of r) ((case map_of g (key_of r) of None \<Rightarrow> [] | Some rs \<Rightarrow> rs) @ [r]) g"

lemma group_step_map:
  "map_of (group_step r g) = (map_of g)(key_of r \<mapsto> (case map_of g (key_of r) of None \<Rightarrow> [] | Some rs \<Rightarrow> rs) @ [r])"
  by (simp add: group_step_def AList.update_conv')

lemma groups_map_of:
  "map_of (fold group_step recs []) k =
     (if filter (\<lambda>r. key_of r = k) recs = [] then None else Some (filter (\<lambda>r. key_of r = k) recs))"
  by (induction recs arbitrary: k rule: rev_induct) (simp_all add: group_step_map)

lemma groups_distinct: "distinct (map fst (fold group_step recs []))"
  by (induction recs rule: rev_induct) (auto simp: group_step_def AList.distinct_update)

lemma groupByPartition_alt: "groupByPartition recs = map snd (fold group_step recs [])"
  by (simp add: groupByPartition_def group_step_def [abs_def])

lemma group_mem:
  "g \<in> set (groupByPartition recs) \<longleftrightarrow> (\<exists>k \<in> key_of ` set recs. g = filter (\<lambda>r. key_of r = k) recs)"
proof -
  have "g \<in> set (groupByPartition recs) \<longleftrightarrow> (\<exists>k. map_of (fold group_step recs []) k = Some g)"
    using groups_distinct [of recs] by (force simp: groupByPartition_alt)
  also have "\<dots> \<longleftrightarrow> (\<exists>k. filter (\<lambda>r. key_of r = k) recs \<noteq> [] \<and> g = filter (\<lambda>r. key_of r = k) recs)"
    by (simp add: groups_map_of) metis
  also have "\<dots> \<longleftrightarrow> (\<exists>k \<in> key_of ` set recs. g = filter (\<lambda>r. key_of r = k) recs)"
    unfolding filter_empty_conv by blast
  finally show ?thesis .
qed

lemma groups_disjoint: "distinct (groupByPartition recs)"
proof -
  have "inj_on snd (set (fold group_step recs []))"
  proof (rule inj_onI)
    fix x y assume xy: "x \<in> set (fold group_step recs [])" "y \<in> set (fold group_step recs [])" "snd x = snd y"
    obtain k k' g where x: "x = (k, g)" "y = (k', g)" using xy(3) by (metis prod.collapse)
    with xy have "(k, g) \<in> set (fold group_step recs [])" "(k', g) \<in> set (fold group_step recs [])" by auto
    then have "map_of (fold group_step recs []) k = Some g" "map_of (fold group_step recs []) k' = Some g"
      using groups_distinct by (metis map_of_eq_Some_iff)+
    then have g: "g \<noteq> []" "g = filter (\<lambda>r. key_of r = k) recs" "g = filter (\<lambda>r. key_of r = k') recs"
      by (auto simp: groups_map_of split: if_splits)
    have "key_of (hd g) = k" using hd_in_set [OF g(1)] by (subst (asm) (2) g(2)) simp
    moreover have "key_of (hd g) = k'" using hd_in_set [OF g(1)] by (subst (asm) (2) g(3)) simp
    ultimately show "x = y" using x by simp
  qed
  then show ?thesis
    using groups_distinct [of recs] by (auto simp: groupByPartition_alt distinct_map)
qed


subsection \<open>What each phase changes\<close>

text \<open>
  The emitter only grows: publications are appended, and one that is done keeps its outcome.
\<close>

definition em_ext :: "emitter \<Rightarrow> emitter \<Rightarrow> bool" where
  "em_ext e e' \<longleftrightarrow> length (pubs e) \<le> length (pubs e') \<and> prefix (produced e) (produced e') \<and>
     (\<forall>p < length (pubs e). p_done (pubs e ! p) \<longrightarrow>
        p_done (pubs e' ! p) \<and> p_err (pubs e' ! p) = p_err (pubs e ! p))"

lemma em_ext_refl [simp]: "em_ext e e"
  by (simp add: em_ext_def)

lemma em_ext_trans: "em_ext a b \<Longrightarrow> em_ext b c \<Longrightarrow> em_ext a c"
  unfolding em_ext_def by (metis (no_types, opaque_lifting) order_trans less_le_trans prefix_order.trans)

lemma em_ext_length: "em_ext e e' \<Longrightarrow> length (pubs e) \<le> length (pubs e')"
  by (simp add: em_ext_def)

lemma em_ext_new_pub: "em_ext e (snd (new_pub p e))"
  by (simp add: em_ext_def new_pub_def nth_append)

lemma em_ext_produce: "em_ext e (snd (produce out e))"
  by (simp add: em_ext_def produce_def new_pub_def nth_append)

lemma em_ext_failed: "em_ext e (snd (failed err e))"
  by (simp add: em_ext_def failed_def new_pub_def addFailure_def nth_append)

lemma em_ext_DLQ: "em_ext e (snd (DLQ E t rec r n d e))"
  by (simp add: DLQ_def em_ext_produce)

lemma em_ext_Results: "em_ext e (snd (Results E t rec os e))"
  by (simp add: Results_def em_ext_produce em_ext_failed em_ext_new_pub split: sum.split)

lemma em_ext_callback: "\<not> p_done (pubs e ! p) \<Longrightarrow> em_ext e (callback what p err e)"
  by (auto simp: em_ext_def callback_def addFailure_def nth_update_in Let_def split: option.split)

lemma em_ext_take: "em_ext e (snd (take_pub p e))"
  by (auto simp: em_ext_def take_pub_def takeFailure_def nth_update_in Let_def)

lemma em_ext_Flush: "em_ext e (snd (Flush err e))"
  by (auto simp: em_ext_def Flush_def split: option.split)

lemma em_ext_deliver: "em_ext (em w) (em (deliver S w))"
proof -
  have "em_ext e (fold (\<lambda>(p, err) e.
          if p < length (pubs e) \<and> \<not> p_done (pubs e ! p) then callback ''produce'' p err e else e) cs e)" for cs e
  proof (induction cs arbitrary: e)
    case (Cons c cs)
    show ?case
      using Cons.IH [of e] em_ext_trans [OF em_ext_callback Cons.IH] by (cases c) auto
  qed simp
  then show ?thesis by (simp add: deliver_def)
qed

definition acked :: "emitter \<Rightarrow> nat \<Rightarrow> bool" where
  "acked e p \<longleftrightarrow> p < length (pubs e) \<and> p_done (pubs e ! p) \<and> p_err (pubs e ! p) = None"

lemma acked_ext: "acked e p \<Longrightarrow> em_ext e e' \<Longrightarrow> acked e' p"
  by (auto simp: acked_def em_ext_def)

lemma Wait_ext:
  "Wait ctx p e = Some (r, e') \<Longrightarrow> em_ext e e'"
  by (auto dest!: Wait_cases simp: em_ext_take)

lemma Wait_acked:
  assumes "Wait ctx p e = Some (Acked, e')" and "p < length (pubs e)"
  shows "acked e' p"
proof -
  have "p_done (pubs e ! p)" "p_err (pubs e ! p) = None"
    using assms(1) take_fst [of p e] by (auto simp: Wait_def split: if_splits prod.splits option.splits)
  then have "acked e p" using assms(2) by (simp add: acked_def)
  then show ?thesis using Wait_ext [OF assms(1)] by (rule acked_ext)
qed

text \<open>How many records were counted as final: one increment per record, whatever its events.\<close>

fun is_final :: "metric \<Rightarrow> bool" where
  "is_final (IncRecords l) = (l \<noteq> ''blocked'')"
| "is_final _ = False"

definition final_count :: "'u world \<Rightarrow> nat" where
  "final_count w = length (filter is_final (metrics w))"

lemma count_pub_final: "length (filter is_final (count_pub ip)) = 1"
proof -
  have "filter is_final (concat (map (\<lambda>o'. (if Status o' = StatusRejected
           then [IncDLQ (reason_text ReasonReject) (Error o')] else []) @ [IncEvents (status_text (Status o'))]) os)) = []"
    for os
    by (induction os) auto
  then show ?thesis by (simp add: count_pub_def)
qed

text \<open>Everything but the emitter, the clock and the other metrics.\<close>

definition same_rest :: "'u world \<Rightarrow> 'u world \<Rightarrow> bool" where
  "same_rest w w' \<longleftrightarrow> offs w' = offs w \<and> hist w' = hist w \<and> finals w' = finals w \<and>
     rewinds w' = rewinds w \<and> commits w' = commits w \<and> em_ext (em w) (em w') \<and> now w \<le> now w' \<and>
     final_count w' = final_count w"

lemma same_rest_trans: "same_rest a b \<Longrightarrow> same_rest b c \<Longrightarrow> same_rest a c"
  by (auto simp: same_rest_def intro: em_ext_trans)

lemma same_rest_simps [simp]:
  "same_rest w w" "same_rest w (tick w)" "same_rest w (inc (IncRecords ''blocked'') w)"
  "same_rest w (w\<lparr>em := e\<rparr>) = em_ext (em w) e"
  "em (tick w) = em w" "em (inc m w) = em w" "submits (tick w) = submits w" "submits (inc m w) = submits w"
  by (auto simp: same_rest_def tick_def inc_def final_count_def)

lemma deliver_simps [simp]:
  "same_rest w (deliver S w)" "submits (deliver S w) = submits w" "now (deliver S w) = now w"
  using em_ext_deliver [of w S] by (auto simp: same_rest_def deliver_def final_count_def)


text \<open>The first phase: a prefix of the run is submitted, in order, up to the first failure.\<close>

fun is_Failed :: "prepared \<Rightarrow> bool" where
  "is_Failed (Failed _) = True"
| "is_Failed _ = False"

fun is_Submitted :: "prepared \<Rightarrow> bool" where
  "is_Submitted (Submitted _) = True"
| "is_Submitted _ = False"

lemma prepare_spec:
  assumes "prepare S rec w = (p, w')"
  shows "same_rest w w'" and "em w' = em w" and "now w' = Suc (now w)"
    and "map fst (submits w') = map fst (submits w) @ (if is_Submitted p then [rec] else [])"
    and "p = Submitted c \<Longrightarrow> c = length (submits w)"
  using assms
  by (auto simp: prepare_def Let_def same_rest_def tick_def final_count_def split: option.splits call.splits sum.splits if_splits)

definition channels_ok :: "'u world \<Rightarrow> (krecord \<times> prepared) list \<Rightarrow> bool" where
  "channels_ok w rps \<longleftrightarrow>
     (\<forall>(rec, p) \<in> set rps. \<forall>c. p = Submitted c \<longrightarrow> c < length (submits w) \<and> fst (submits w ! c) = rec)"

definition submits_ext :: "'u world \<Rightarrow> 'u world \<Rightarrow> krecord list \<Rightarrow> bool" where
  "submits_ext w w' rs \<longleftrightarrow> prefix (submits w) (submits w') \<and> map fst (submits w') = map fst (submits w) @ rs"

lemma submits_ext_refl [simp]: "submits_ext w w []"
  by (simp add: submits_ext_def)

lemma channels_ok_mono:
  "channels_ok w rps \<Longrightarrow> prefix (submits w) (submits w') \<Longrightarrow> channels_ok w' rps"
  by (fastforce simp: channels_ok_def prefix_def nth_append)

lemma prepare_ext:
  "prepare S rec w = (p, w') \<Longrightarrow> submits_ext w w' (if is_Submitted p then [rec] else [])"
  by (auto simp: submits_ext_def prepare_def Let_def tick_def
      split: option.splits call.splits sum.splits if_splits)

lemma prepare_channel: "prepare S rec w = (p, w') \<Longrightarrow> channels_ok w' [(rec, p)]"
  by (auto simp: channels_ok_def prepare_def Let_def tick_def
      split: option.splits call.splits sum.splits if_splits)

lemma submit_loop_spec:
  assumes "submit_loop S recs w = (ps, w')"
  shows "same_rest w w' \<and> em w' = em w \<and> length ps \<le> length recs \<and>
     (recs \<noteq> [] \<and> \<not> ctx_err S (now w) \<and> \<not> expired S (now w) \<longrightarrow> now w < now w') \<and>
     (\<forall>i. Suc i < length ps \<longrightarrow> \<not> is_Failed (ps ! i)) \<and>
     submits_ext w w' (map fst (filter (\<lambda>(r, p). is_Submitted p) (zip recs ps))) \<and>
     channels_ok w' (zip recs ps)"
  using assms
proof (induction recs arbitrary: w ps w')
  case Nil
  then show ?case by (simp add: channels_ok_def)
next
  case (Cons rec recs)
  show ?case
  proof (cases "ctx_err S (now w) \<or> expired S (now w)")
    case True
    with Cons.prems show ?thesis by (auto simp: channels_ok_def)
  next
    case False
    obtain p w1 where p: "prepare S rec w = (p, w1)" by (cases "prepare S rec w")
    note pr = prepare_spec [OF p] prepare_ext [OF p]
    show ?thesis
    proof (cases "is_Failed p")
      case True
      then obtain e where e: "p = Failed e" by (cases p) auto
      with Cons.prems p False pr show ?thesis
        by (auto simp: channels_ok_def split: if_splits)
    next
      case ok: False
      obtain qs w2 where rest: "submit_loop S recs w1 = (qs, w2)" by (cases "submit_loop S recs w1")
      have res: "ps = p # qs" "w' = w2"
        using Cons.prems p False rest ok by (auto split: prepared.splits)
      note ih = Cons.IH [OF rest]
      have ext: "prefix (submits w1) (submits w2)" using ih by (simp add: submits_ext_def)
      have "channels_ok w2 [(rec, p)]"
        using prepare_channel [OF p] ext by (rule channels_ok_mono)
      then have "channels_ok w2 (zip (rec # recs) (p # qs))"
        using ih by (auto simp: channels_ok_def)
      moreover have "submits_ext w w2 (map fst (filter (\<lambda>(r, p). is_Submitted p) (zip (rec # recs) (p # qs))))"
        using ih pr(6) by (auto simp: submits_ext_def)
      moreover have "\<forall>i. Suc i < length (p # qs) \<longrightarrow> \<not> is_Failed ((p # qs) ! i)"
        using ih ok by (auto simp: nth_Cons split: nat.split)
      moreover have "same_rest w w2" "now w < now w2" "em w2 = em w"
        using ih pr(1-3) same_rest_trans [of w w1 w2] by (auto simp: same_rest_def)
      ultimately show ?thesis using ih res by simp
    qed
  qed
qed


text \<open>The second phase: what a record's publications say.\<close>

definition dead_lettered ::
    "emit_params \<Rightarrow> emitter \<Rightarrow> krecord \<Rightarrow> reason \<Rightarrow> string \<Rightarrow> string \<Rightarrow> nat \<Rightarrow> bool" where
  "dead_lettered E e rec rsn err detail p \<longleftrightarrow>
     (\<exists>t. (p, DLQ_record E t rec rsn err detail) \<in> set (produced e))"

definition results_out :: "emit_params \<Rightarrow> emitter \<Rightarrow> krecord \<Rightarrow> outcome list \<Rightarrow> nat \<Rightarrow> bool" where
  "results_out E e rec os p \<longleftrightarrow> Results_topic E = [] \<or>
     (\<exists>t body. Marshal E (results_of E t rec os) = Inr body \<and>
        (p, \<lparr> o_Topic = Results_topic E, o_Key = k_Key rec, o_Value = body, o_Headers = [] \<rparr>) \<in> set (produced e))"

text \<open>The batcher's outcomes for a submission of the record.\<close>

definition genuine :: "'u sink_params \<Rightarrow> 'u world \<Rightarrow> krecord \<Rightarrow> outcome list \<Rightarrow> bool" where
  "genuine S w rec os \<longleftrightarrow>
     (\<exists>t c. outcome_at S t c = Some (Inr os) \<and> c < length (submits w) \<and> fst (submits w ! c) = rec)"

text \<open>
  The record is in the dead-letter topic as poison, or its outcomes are in the results topic
  (unless that is disabled) with a dead letter for every rejected event.
\<close>

definition answered :: "'u sink_params \<Rightarrow> 'u world \<Rightarrow> krecord \<Rightarrow> nat list \<Rightarrow> bool" where
  "answered S w rec ps \<longleftrightarrow>
     (\<exists>p \<in> set ps. \<exists>err detail. dead_lettered (emit_p S) (em w) rec ReasonPoison err detail p) \<or>
     (\<exists>os. genuine S w rec os \<and> (\<exists>p \<in> set ps. results_out (emit_p S) (em w) rec os p) \<and>
        (\<forall>o' \<in> set os. Status o' = StatusRejected \<longrightarrow>
           (\<exists>p \<in> set ps. dead_lettered (emit_p S) (em w) rec ReasonReject (Error o') (reject_detail o') p)))"

definition failed_pub :: "emitter \<Rightarrow> nat \<Rightarrow> bool" where
  "failed_pub e p \<longleftrightarrow> p < length (pubs e) \<and> p_done (pubs e ! p) \<and> p_err (pubs e ! p) \<noteq> None"

definition promised :: "'u sink_params \<Rightarrow> 'u world \<Rightarrow> krecord \<Rightarrow> nat list \<Rightarrow> bool" where
  "promised S w rec ps \<longleftrightarrow> answered S w rec ps \<or> (\<exists>p \<in> set ps. failed_pub (em w) p)"

lemma produced_ext: "em_ext e e' \<Longrightarrow> x \<in> set (produced e) \<Longrightarrow> x \<in> set (produced e')"
  by (auto simp: em_ext_def dest: set_mono_prefix)

lemma dead_lettered_ext: "dead_lettered E e rec rsn err d p \<Longrightarrow> em_ext e e' \<Longrightarrow> dead_lettered E e' rec rsn err d p"
  unfolding dead_lettered_def using produced_ext by blast

lemma results_out_ext: "results_out E e rec os p \<Longrightarrow> em_ext e e' \<Longrightarrow> results_out E e' rec os p"
  unfolding results_out_def using produced_ext by blast

lemma genuine_ext: "genuine S w rec os \<Longrightarrow> prefix (submits w) (submits w') \<Longrightarrow> genuine S w' rec os"
  unfolding genuine_def by (fastforce simp: prefix_def nth_append)

lemma answered_ext:
  "answered S w rec ps \<Longrightarrow> em_ext (em w) (em w') \<Longrightarrow> prefix (submits w) (submits w') \<Longrightarrow> answered S w' rec ps"
  unfolding answered_def using dead_lettered_ext results_out_ext genuine_ext by meson

lemma answered_mono: "answered S w rec ps \<Longrightarrow> set ps \<subseteq> set qs \<Longrightarrow> answered S w rec qs"
  unfolding answered_def by (meson subsetD)

lemma failed_pub_ext: "failed_pub e p \<Longrightarrow> em_ext e e' \<Longrightarrow> failed_pub e' p"
  by (auto simp: failed_pub_def em_ext_def)

lemma promised_ext:
  "promised S w rec ps \<Longrightarrow> em_ext (em w) (em w') \<Longrightarrow> prefix (submits w) (submits w') \<Longrightarrow> promised S w' rec ps"
  unfolding promised_def using answered_ext failed_pub_ext by metis

lemma promised_acked: "promised S w rec ps \<Longrightarrow> \<forall>p \<in> set ps. acked (em w) p \<Longrightarrow> answered S w rec ps"
  by (auto simp: promised_def acked_def failed_pub_def)

text \<open>A function that makes one publication, and a row of them.\<close>

definition one_pub :: "(emitter \<Rightarrow> nat \<times> emitter) \<Rightarrow> bool" where
  "one_pub f \<longleftrightarrow> (\<forall>e. fst (f e) = length (pubs e) \<and> length (pubs (snd (f e))) = Suc (length (pubs e)) \<and>
     em_ext e (snd (f e)))"

lemma one_pub_DLQ: "one_pub (DLQ E t rec r n d)"
  by (auto simp: one_pub_def em_ext_DLQ) (auto simp: DLQ_def produce_def new_pub_def Let_def)

lemma one_pub_Results: "one_pub (Results E t rec os)"
  by (auto simp: one_pub_def em_ext_Results)
     (auto simp: Results_def produce_def new_pub_def failed_def addFailure_def Let_def split: sum.split)

lemma hand_off_spec:
  "list_all one_pub fs \<Longrightarrow> hand_off fs e = (ps, e') \<Longrightarrow>
     ps = [length (pubs e)..<length (pubs e')] \<and> length (pubs e') = length (pubs e) + length fs \<and>
     em_ext e e' \<and>
     (\<forall>f \<in> set fs. \<exists>e1. fst (f e1) \<in> set ps \<and> em_ext (snd (f e1)) e')"
proof (induction fs arbitrary: e ps e')
  case (Cons f fs)
  obtain p e1 where f: "f e = (p, e1)" by (cases "f e")
  obtain qs e2 where rest: "hand_off fs e1 = (qs, e2)" by (cases "hand_off fs e1")
  have one: "p = length (pubs e)" "length (pubs e1) = Suc (length (pubs e))" "em_ext e e1"
    using Cons.prems(1) f by (auto simp: one_pub_def dest: spec [of _ e])
  have ih: "qs = [length (pubs e1)..<length (pubs e2)]" "length (pubs e2) = length (pubs e1) + length fs"
    "em_ext e1 e2" "\<forall>f \<in> set fs. \<exists>e1. fst (f e1) \<in> set qs \<and> em_ext (snd (f e1)) e2"
    using Cons.IH [OF _ rest] Cons.prems(1) by auto
  have res: "ps = p # qs" "e' = e2" using Cons.prems(2) f rest by (auto simp: Let_def)
  have "\<forall>g \<in> set (f # fs). \<exists>e1. fst (g e1) \<in> set ps \<and> em_ext (snd (g e1)) e'"
  proof
    fix g assume "g \<in> set (f # fs)"
    then consider "g = f" | "g \<in> set fs" by auto
    then show "\<exists>e1. fst (g e1) \<in> set ps \<and> em_ext (snd (g e1)) e'"
    proof cases
      case 1
      then show ?thesis using f ih(3) res by (intro exI [of _ e]) simp
    next
      case 2
      then show ?thesis using ih(4) res by fastforce
    qed
  qed
  moreover
  have "p # qs = [length (pubs e)..<length (pubs e2)]"
    using one ih(1,2) upt_conv_Cons [of "length (pubs e)" "length (pubs e2)"] by (simp del: upt_Suc)
  then have "ps = [length (pubs e)..<length (pubs e')]" using res by simp
  moreover have "length (pubs e') = length (pubs e) + length (f # fs)" using one ih(2) res by simp
  moreover have "em_ext e e'" using em_ext_trans [OF one(3) ih(3)] res by simp
  ultimately show ?case by blast
qed simp


lemma DLQ_dead_lettered:
  "em_ext (snd (DLQ E t rec rsn err d e)) e' \<Longrightarrow> dead_lettered E e' rec rsn err d (fst (DLQ E t rec rsn err d e))"
  unfolding dead_lettered_def
  by (rule exI [of _ t], erule produced_ext) (simp add: DLQ_def produce_def new_pub_def Let_def)

lemma Results_out:
  assumes "em_ext (snd (Results E t rec os e)) e'"
  shows "results_out E e' rec os (fst (Results E t rec os e)) \<or> failed_pub e' (fst (Results E t rec os e))"
proof (cases "Results_topic E = []")
  case True
  then show ?thesis by (simp add: results_out_def)
next
  case topic: False
  show ?thesis
  proof (cases "Marshal E (results_of E t rec os)")
    case (Inl err)
    have "failed_pub (snd (Results E t rec os e)) (fst (Results E t rec os e))"
      using topic Inl by (simp add: Results_def failed_pub_def failed_def new_pub_def addFailure_def Resolved_def)
    then show ?thesis using failed_pub_ext [OF _ assms] by blast
  next
    case (Inr body)
    have "(fst (Results E t rec os e), \<lparr> o_Topic = Results_topic E, o_Key = k_Key rec, o_Value = body, o_Headers = [] \<rparr>)
        \<in> set (produced (snd (Results E t rec os e)))"
      using topic Inr by (simp add: Results_def produce_def new_pub_def Let_def)
    then show ?thesis using produced_ext [OF assms] Inr by (auto simp: results_out_def)
  qed
qed

lemma one_pub_publications: "list_all one_pub (publications S t rec os)"
  by (simp add: publications_def one_pub_Results one_pub_DLQ list_all_iff)

lemma emitPoison_spec:
  assumes "emitPoison S rec err d w = (ip, w')"
  shows "same_rest w w'" and "submits w' = submits w"
    and "ip_pubs ip = [length (pubs (em w))]" and "length (pubs (em w')) = Suc (length (pubs (em w)))"
    and "answered S w' rec (ip_pubs ip)"
proof -
  let ?f = "DLQ (emit_p S) (clock S (now w)) rec ReasonPoison err d"
  have *: "ip_pubs ip = [fst (?f (em w))]" "w' = w\<lparr>em := snd (?f (em w))\<rparr>"
    using assms by (auto simp: emitPoison_def Let_def split: prod.splits)
  have one: "fst (?f (em w)) = length (pubs (em w))" "length (pubs (snd (?f (em w)))) = Suc (length (pubs (em w)))"
    using one_pub_DLQ [of "emit_p S"] by (auto simp: one_pub_def)
  show "same_rest w w'" "submits w' = submits w" using * em_ext_DLQ by simp_all
  show "ip_pubs ip = [length (pubs (em w))]" "length (pubs (em w')) = Suc (length (pubs (em w)))"
    using * one by simp_all
  have "dead_lettered (emit_p S) (em w') rec ReasonPoison err d (fst (?f (em w)))"
    using * by (intro DLQ_dead_lettered) simp
  then show "answered S w' rec (ip_pubs ip)" using * unfolding answered_def by auto
qed

text \<open>The ids of a record's publications are fresh, and one follows the other.\<close>

definition fresh_ids :: "'u world \<Rightarrow> 'u world \<Rightarrow> nat list \<Rightarrow> bool" where
  "fresh_ids w w' ps \<longleftrightarrow> ps = [length (pubs (em w))..<length (pubs (em w'))] \<and> ps \<noteq> []"

lemma finish_publishes:
  assumes "hand_off (publications S t rec os) (em w) = (ps, e)" and "genuine S w rec os"
  shows "promised S (w\<lparr>em := e\<rparr>) rec ps"
proof -
  note h = hand_off_spec [OF one_pub_publications assms(1)]
  have Res: "Results (emit_p S) (clock S t) rec os \<in> set (publications S t rec os)"
    by (simp add: publications_def)
  then obtain e1 where e1: "fst (Results (emit_p S) (clock S t) rec os e1) \<in> set ps"
    "em_ext (snd (Results (emit_p S) (clock S t) rec os e1)) e" using h by blast
  have dead: "\<exists>p \<in> set ps. dead_lettered (emit_p S) e rec ReasonReject (Error o') (reject_detail o') p"
    if o': "o' \<in> set os" "Status o' = StatusRejected" for o'
  proof -
    have "DLQ (emit_p S) (clock S t) rec ReasonReject (Error o') (reject_detail o') \<in> set (publications S t rec os)"
      using o' by (auto simp: publications_def)
    then show ?thesis using h DLQ_dead_lettered by blast
  qed
  have gen: "genuine S (w\<lparr>em := e\<rparr>) rec os" using assms(2) by (simp add: genuine_def)
  show ?thesis
    using Results_out [OF e1(2)] e1(1) dead gen unfolding promised_def answered_def by auto
qed

lemma finish_spec:
  assumes "finish S rec p res w = (r, w')"
    and "\<And>os. is_Submitted p \<Longrightarrow> res = Inr os \<Longrightarrow> genuine S w rec os"
  shows "same_rest w w' \<and> submits w' = submits w \<and>
     (\<forall>ip. r = Inr ip \<longrightarrow> fresh_ids w w' (ip_pubs ip) \<and> promised S w' rec (ip_pubs ip))"
proof -
  have poison: "same_rest w w2 \<and> submits w2 = submits w \<and> fresh_ids w w2 (ip_pubs ip) \<and> promised S w2 rec (ip_pubs ip)"
    if "emitPoison S rec err d (tick w) = (ip, w2)" for err d ip w2
    using emitPoison_spec [OF that] same_rest_trans [of w "tick w" w2]
    by (simp add: fresh_ids_def promised_def)
  show ?thesis
  proof (cases p)
    case (Submitted c)
    show ?thesis
    proof (cases res)
      case (Inl e)
      then show ?thesis
        using assms(1) Submitted poison
        by (auto simp: finish_def Let_def same_rest_def inc_def tick_def final_count_def split: if_splits prod.splits)
    next
      case (Inr os)
      have gen: "genuine S (tick w) rec os"
        using assms(2) Submitted Inr by (simp add: genuine_def)
      show ?thesis
      proof (cases "panic_at S (now (tick w))")
        case None
        obtain ps e where h: "hand_off (publications S (now (tick w)) rec os) (em (tick w)) = (ps, e)"
          by (cases "hand_off (publications S (now (tick w)) rec os) (em (tick w))")
        note hs = hand_off_spec [OF one_pub_publications h]
        have "ps \<noteq> []" using hs by (simp add: publications_def)
        then have "fresh_ids w ((tick w)\<lparr>em := e\<rparr>) ps" using hs by (simp add: fresh_ids_def)
        moreover have "same_rest w ((tick w)\<lparr>em := e\<rparr>)"
          using hs same_rest_trans [of w "tick w" "(tick w)\<lparr>em := e\<rparr>"] by simp
        ultimately show ?thesis
          using assms(1) Submitted Inr None h finish_publishes [OF h gen]
          by (auto simp: finish_def Let_def)
      next
        case (Some kv)
        obtain k v where kv: "kv = (k, v)" by (cases kv)
        let ?fs = "take k (publications S (now (tick w)) rec os)"
        obtain ps e where h: "hand_off ?fs (em (tick w)) = (ps, e)"
          by (cases "hand_off ?fs (em (tick w))")
        have "list_all one_pub ?fs"
          using one_pub_publications by (metis list_all_iff in_set_takeD)
        note hs = hand_off_spec [OF this h]
        obtain ip w2 where ip: "emitPoison S rec ''panic'' v ((tick w)\<lparr>em := e\<rparr>) = (ip, w2)"
          by (cases "emitPoison S rec ''panic'' v ((tick w)\<lparr>em := e\<rparr>)")
        note es = emitPoison_spec [OF ip]
        have "same_rest w w2"
          using hs es(1) same_rest_trans [of w "tick w" "(tick w)\<lparr>em := e\<rparr>"]
            same_rest_trans [of w "(tick w)\<lparr>em := e\<rparr>" w2] by simp
        moreover have "fresh_ids w w2 (ps @ ip_pubs ip)"
          using hs es(3,4) upt_add_eq_append [of "length (pubs (em w))" "length (pubs e)" 1] by (simp add: fresh_ids_def)
        moreover have "answered S w2 rec (ps @ ip_pubs ip)"
          using es(5) by (rule answered_mono) simp
        ultimately show ?thesis
          using assms(1) Submitted Inr Some kv h ip es(2)
          by (auto simp: finish_def Let_def promised_def)
      qed
    qed
  next
    case (Poisoned err d)
    then show ?thesis using assms(1) poison by (auto simp: finish_def Let_def split: prod.splits)
  next
    case (Failed e)
    then show ?thesis using assms(1) same_rest_trans [of w "tick w"]
      by (auto simp: finish_def Let_def same_rest_def inc_def tick_def final_count_def)
  qed
qed


definition issued_ok :: "'u sink_params \<Rightarrow> 'u world \<Rightarrow> krecord \<times> issuedPubs \<Rightarrow> bool" where
  "issued_ok S w = (\<lambda>(rec, ip). ip_pubs ip \<noteq> [] \<and> (\<forall>p \<in> set (ip_pubs ip). p < length (pubs (em w))) \<and>
     promised S w rec (ip_pubs ip))"

lemma issued_ok_mono: "issued_ok S w x \<Longrightarrow> em_ext (em w) (em w') \<Longrightarrow> prefix (submits w) (submits w') \<Longrightarrow> issued_ok S w' x"
  using promised_ext [of S w "fst x" "ip_pubs (snd x)" w']
  by (cases x) (auto simp: issued_ok_def intro: less_le_trans [OF _ em_ext_length])

lemma collect_loop_spec:
  assumes "collect_loop S rps w = (ips, err, w')" and "channels_ok w rps"
  shows "same_rest w w' \<and> submits w' = submits w \<and> length ips \<le> length rps \<and>
     (err \<noteq> None \<longrightarrow> length ips < length rps) \<and>
     concat (map ip_pubs ips) = [length (pubs (em w))..<length (pubs (em w'))] \<and>
     list_all (issued_ok S w') (zip (map fst rps) ips)"
  using assms
proof (induction rps arbitrary: w ips err w')
  case (Cons rp rps)
  obtain rec p where rp: "rp = (rec, p)" by (cases rp)
  obtain res w1 where res: "(case p of Submitted c \<Rightarrow> await S c w | _ \<Rightarrow> (Some (Inr []), w)) = (res, w1)"
    by (cases "case p of Submitted c \<Rightarrow> await S c w | _ \<Rightarrow> (Some (Inr []), w)")
  have w1: "same_rest w w1" "submits w1 = submits w" "em w1 = em w"
    using res by (auto simp: await_def split: prepared.splits)
  show ?case
  proof (cases res)
    case None
    with Cons.prems rp res w1 show ?thesis by auto
  next
    case (Some r)
    obtain f w2 where f: "finish S rec p r w1 = (f, w2)" by (cases "finish S rec p r w1")
    have "genuine S w1 rec os" if sub: "is_Submitted p" "r = Inr os" for os
    proof -
      obtain c where c: "p = Submitted c" using sub(1) by (cases p) auto
      show ?thesis
        unfolding genuine_def
        by (rule exI [of _ "now (tick w)"], rule exI [of _ c])
           (use c sub res Some Cons.prems(2) rp w1(2) in \<open>auto simp: await_def channels_ok_def\<close>)
    qed
    note fs = finish_spec [OF f this]
    have w2: "same_rest w w2" "submits w2 = submits w" using fs w1 same_rest_trans by auto
    show ?thesis
    proof (cases f)
      case (Inl e)
      have "same_rest w w2 \<and> length (pubs (em w2)) = length (pubs (em w))"
        using w2(1) f Inl w1(3)
        by (auto simp: finish_def Let_def inc_def tick_def split: prepared.splits sum.splits if_splits prod.splits option.splits)
      with Cons.prems rp res Some f Inl w2 show ?thesis by auto
    next
      case (Inr ip)
      obtain jps e w3 where rest: "collect_loop S rps w2 = (jps, e, w3)" by (cases "collect_loop S rps w2")
      have out: "ips = ip # jps" "err = e" "w' = w3"
        using Cons.prems(1) rp res Some f Inr rest by auto
      have "channels_ok w2 rps"
        using Cons.prems(2) w2(2) by (auto simp: channels_ok_def)
      note ih = Cons.IH [OF rest this]
      have ip: "fresh_ids w w2 (ip_pubs ip)" "promised S w2 rec (ip_pubs ip)"
        using fs Inr w1(3) by (auto simp: fresh_ids_def)
      have "\<forall>p \<in> set (ip_pubs ip). p < length (pubs (em w2))" "ip_pubs ip \<noteq> []"
        using ip(1) unfolding fresh_ids_def by (metis atLeastLessThan_iff set_upt, blast)
      then have "issued_ok S w2 (rec, ip)" using ip(2) by (simp add: issued_ok_def)
      then have "issued_ok S w3 (rec, ip)" using ih by (auto simp: same_rest_def intro: issued_ok_mono)
      moreover have "length (pubs (em w)) \<le> length (pubs (em w2))" "length (pubs (em w2)) \<le> length (pubs (em w3))"
        using w2(1) ih by (auto simp: same_rest_def em_ext_def)
      ultimately show ?thesis
        using ih out rp ip(1) w2 same_rest_trans [OF w2(1)]
        by (simp add: fresh_ids_def upt_join)
    qed
  qed
qed simp

text \<open>The third phase: records are marked in order, each after all its publications.\<close>

lemma wait_pubs_spec:
  assumes "wait_pubs S ps w = (r, w')" and "\<forall>p \<in> set ps. p < length (pubs (em w))"
  shows "same_rest w w' \<and> submits w' = submits w \<and> (r = AllAcked \<longrightarrow> (\<forall>p \<in> set ps. acked (em w') p))"
  using assms
proof (induction ps arbitrary: w)
  case (Cons p ps)
  let ?w1 = "deliver S (tick w)"
  have w1: "same_rest w ?w1" "submits ?w1 = submits w"
    using same_rest_trans [of w "tick w" ?w1] by simp_all
  have len: "\<forall>q \<in> set (p # ps). q < length (pubs (em ?w1))"
    using Cons.prems(2) w1(1) by (auto simp: same_rest_def em_ext_def)
  show ?case
  proof (cases "Wait True p (em ?w1)")
    case None
    with Cons.prems(1) w1 show ?thesis by auto
  next
    case (Some re)
    obtain res e where re: "re = (res, e)" by (cases re)
    note ext = Wait_ext [OF Some [unfolded re]]
    have w2: "same_rest w (?w1\<lparr>em := e\<rparr>)" using same_rest_trans [OF w1(1)] ext by simp
    show ?thesis
    proof (cases "res = Acked")
      case True
      have "\<forall>q \<in> set ps. q < length (pubs (em (?w1\<lparr>em := e\<rparr>)))"
        using len ext by (auto simp: em_ext_def)
      note ih = Cons.IH [OF _ this]
      have rest: "wait_pubs S ps (?w1\<lparr>em := e\<rparr>) = (r, w')"
        using Cons.prems(1) Some re True by simp
      have "acked e p" using Wait_acked Some re True len by auto
      then have "r = AllAcked \<longrightarrow> acked (em w') p"
        using ih [OF rest] by (auto simp: same_rest_def intro: acked_ext)
      with ih [OF rest] w1(2) same_rest_trans [OF w2] show ?thesis by auto
    next
      case False
      with Cons.prems(1) Some re w1 w2 show ?thesis
        by (auto simp: Let_def split: wait_result.splits if_splits)
    qed
  qed
qed simp


text \<open>
  What a run changes: it finishes some records, in order, and nothing else; \<open>fs\<close> are the
  finished records with their publications.
\<close>

definition finishes :: "'u world \<Rightarrow> 'u world \<Rightarrow> (krecord \<times> nat list) list \<Rightarrow> bool" where
  "finishes w w' fs \<longleftrightarrow>
     finals w' = finals w @ fs \<and> hist w' = hist w @ map (\<lambda>f. DoneE (fst f)) fs \<and>
     offs w' = fold Done (map fst fs) (offs w) \<and>
     rewinds w' = rewinds w \<and> commits w' = commits w \<and> em_ext (em w) (em w') \<and>
     prefix (submits w) (submits w') \<and> now w \<le> now w' \<and>
     final_count w' = final_count w + length fs"

lemma finishes_trans: "finishes a b fs \<Longrightarrow> finishes b c gs \<Longrightarrow> finishes a c (fs @ gs)"
  by (auto simp: finishes_def intro: em_ext_trans)

lemma finishes_none: "same_rest w w' \<Longrightarrow> prefix (submits w) (submits w') \<Longrightarrow> finishes w w' []"
  by (simp add: same_rest_def finishes_def)

lemma finishes_mark: "finishes w (mark_final rec ip w) [(rec, ip_pubs ip)]"
  using count_pub_final [of ip] by (simp add: finishes_def mark_final_def track_call_def final_count_def)

lemma mark_final_em [simp]:
  "em (mark_final rec ip w) = em w" "submits (mark_final rec ip w) = submits w"
  by (simp_all add: mark_final_def track_call_def)

definition final_ok :: "'u sink_params \<Rightarrow> 'u world \<Rightarrow> krecord \<times> nat list \<Rightarrow> bool" where
  "final_ok S w = (\<lambda>(rec, ps). ps \<noteq> [] \<and> (\<forall>p \<in> set ps. acked (em w) p) \<and> answered S w rec ps)"

lemma final_ok_mono:
  "final_ok S w f \<Longrightarrow> em_ext (em w) (em w') \<Longrightarrow> prefix (submits w) (submits w') \<Longrightarrow> final_ok S w' f"
  using acked_ext answered_ext by (cases f) (fastforce simp: final_ok_def)

lemma finishes_ext: "finishes w w' fs \<Longrightarrow> em_ext (em w) (em w') \<and> prefix (submits w) (submits w')"
  by (simp add: finishes_def)

lemma confirm_spec:
  assumes "confirm S rips w = (n, err, w')" and "list_all (issued_ok S w) rips"
  shows "n \<le> length rips \<and> (err \<noteq> None \<longrightarrow> n < length rips) \<and>
     finishes w w' (map (\<lambda>(rec, ip). (rec, ip_pubs ip)) (take n rips)) \<and>
     (\<forall>f \<in> set (map (\<lambda>(rec, ip). (rec, ip_pubs ip)) (take n rips)). final_ok S w' f)"
  using assms
proof (induction rips arbitrary: w n err w')
  case Nil
  then show ?case by (simp add: finishes_none)
next
  case (Cons x rest)
  obtain rec ip where x: "x = (rec, ip)" by (cases x)
  obtain r w1 where wp: "wait_pubs S (ip_pubs ip) w = (r, w1)" by (cases "wait_pubs S (ip_pubs ip) w")
  have ok: "ip_pubs ip \<noteq> []" "\<forall>p \<in> set (ip_pubs ip). p < length (pubs (em w))" "promised S w rec (ip_pubs ip)"
    using Cons.prems(2) x by (auto simp: issued_ok_def)
  note ws = wait_pubs_spec [OF wp ok(2)]
  have fin1: "finishes w w1 []" using ws by (intro finishes_none) auto
  show ?case
  proof (cases "r = AllAcked")
    case False
    then have "n = 0 \<and> (w' = w1 \<or> w' = inc (IncRecords ''blocked'') w1)"
      using Cons.prems(1) x wp by (cases r) auto
    moreover have "finishes w1 (inc (IncRecords ''blocked'') w1) []" by (intro finishes_none) simp_all
    ultimately show ?thesis using fin1 finishes_trans [of w w1 "[]" _ "[]"] by auto
  next
    case True
    let ?w2 = "mark_final rec ip w1"
    obtain m e w3 where rest: "confirm S rest ?w2 = (m, e, w3)" by (cases "confirm S rest ?w2")
    have out: "n = Suc m" "err = e" "w' = w3" using Cons.prems(1) x wp True rest by auto
    have ext: "em_ext (em w) (em ?w2)" "prefix (submits w) (submits ?w2)"
      using ws by (auto simp: same_rest_def)
    have "list_all (issued_ok S ?w2) rest"
      using Cons.prems(2) ext issued_ok_mono by (fastforce simp: list_all_iff)
    note ih = Cons.IH [OF rest this]
    have "promised S ?w2 rec (ip_pubs ip)" using ok(3) ext by (rule promised_ext)
    then have "answered S ?w2 rec (ip_pubs ip)" by (rule promised_acked) (use ws True in simp)
    then have "final_ok S ?w2 (rec, ip_pubs ip)" using ws True ok(1) by (simp add: final_ok_def)
    then have "final_ok S w3 (rec, ip_pubs ip)"
      using ih finishes_ext by (blast intro: final_ok_mono)
    moreover have "finishes w ?w2 [(rec, ip_pubs ip)]"
      using finishes_trans [OF fin1 finishes_mark] by simp
    ultimately show ?thesis
      using ih out x finishes_trans [of w ?w2 "[(rec, ip_pubs ip)]" w3] by auto
  qed
qed

lemma zip_take_enough: "length ys \<le> k \<Longrightarrow> zip (take k xs) ys = zip xs ys"
proof (induction ys arbitrary: k xs)
  case (Cons y ys)
  then show ?case by (cases k; cases xs) auto
qed simp

lemma pass_spec:
  assumes "pass S recs w = (n, err, w')"
  shows "n \<le> length recs \<and> (err \<noteq> None \<longrightarrow> n < length recs) \<and>
     (\<exists>fs. map fst fs = take n recs \<and> finishes w w' fs \<and> (\<forall>f \<in> set fs. final_ok S w' f)) \<and>
     (recs \<noteq> [] \<and> \<not> ctx_err S (now w) \<and> \<not> expired S (now w) \<and> 0 < maxInFlight S \<longrightarrow> now w < now w')"
proof -
  define rs where "rs = (if int (length recs) > maxInFlight S then take (nat (maxInFlight S)) recs else recs)"
  have rs: "rs = take (length rs) recs" "length rs \<le> length recs" by (auto simp: rs_def)
  show ?thesis
  proof (cases "rs = []")
    case True
    then have "n = 0" "err = None" "w' = w"
      using assms by (auto simp: pass_def Let_def rs_def split: if_splits)
    moreover have "recs \<noteq> [] \<Longrightarrow> \<not> 0 < maxInFlight S" using True by (auto simp: rs_def split: if_splits)
    ultimately show ?thesis by (auto intro!: exI [of _ "[]"] finishes_none)
  next
    case False
    obtain prep w1 where s: "submit_loop S rs w = (prep, w1)" by (cases "submit_loop S rs w")
    obtain issued fe w2 where c: "collect_loop S (zip rs prep) w1 = (issued, fe, w2)"
      by (cases "collect_loop S (zip rs prep) w1")
    obtain m e w3 where k: "confirm S (zip rs issued) w2 = (m, e, w3)"
      by (cases "confirm S (zip rs issued) w2")
    have out: "n = m" "w' = w3" "err \<noteq> None \<longrightarrow> e \<noteq> None \<or> m < length issued \<or> fe \<noteq> None"
      "e = None \<and> \<not> m < length issued \<longrightarrow> err = map_option SubmitFailed fe"
      "e = None \<and> m < length issued \<longrightarrow> err = None"
      using assms False s c k by (auto simp: pass_def Let_def rs_def [symmetric] split: if_splits)
    note sl = submit_loop_spec [OF s]
    have ch: "channels_ok w1 (zip rs prep)" using sl by blast
    note cl = collect_loop_spec [OF c ch]
    have len: "length issued \<le> length rs" using cl by simp
    have "zip (map fst (zip rs prep)) issued = zip rs issued"
      using cl by (simp add: map_fst_zip_take zip_take_enough)
    then have ok: "list_all (issued_ok S w2) (zip rs issued)" using cl by simp
    note cf = confirm_spec [OF k ok]
    have w12: "finishes w w1 []" "finishes w1 w2 []"
      using sl cl by (auto intro!: finishes_none simp: submits_ext_def)
    let ?fs = "map (\<lambda>(rec, ip). (rec, ip_pubs ip)) (take m (zip rs issued))"
    have m: "m \<le> length issued" "m \<le> length rs" using cf len by auto
    have "map fst ?fs = take m (map fst (zip rs issued))"
      by (simp add: take_map case_prod_beta' o_def)
    also have "\<dots> = take m rs" using len m by (simp add: map_fst_zip_take min_def)
    also have "\<dots> = take m recs" using rs m(2) by (metis min.absorb1 take_take)
    finally have fst: "map fst ?fs = take m recs" .
    have fin: "finishes w w3 ?fs"
      using finishes_trans [OF w12(1) finishes_trans [OF w12(2) conjunct1 [OF conjunct2 [OF conjunct2 [OF cf]]]]]
      by simp
    have "m < length recs" if broken: "err \<noteq> None"
    proof -
      consider "e \<noteq> None" | "m < length issued" | "e = None" "\<not> m < length issued" "fe \<noteq> None"
        using out(3,4) broken by (cases e; cases fe; cases "m < length issued") auto
      then show ?thesis
        using cf cl sl len rs(2) by cases auto
    qed
    moreover have "recs \<noteq> [] \<and> \<not> ctx_err S (now w) \<and> \<not> expired S (now w) \<longrightarrow> now w < now w'"
      using sl False w12(2) cf out(2) by (auto simp: finishes_def)
    moreover have "\<exists>fs. map fst fs = take n recs \<and> finishes w w' fs \<and> (\<forall>f \<in> set fs. final_ok S w' f)"
      using fst fin cf out(1,2) by blast
    moreover have "n \<le> length recs" using m rs(2) out(1) by simp
    ultimately show ?thesis using out(1) by blast
  qed
qed


lemma finishes_tick: "finishes w (tick w) []"
  by (intro finishes_none) simp_all

text \<open>A whole partition: the finished records are exactly a prefix of the run.\<close>

lemma runPartition_spec:
  assumes "runPartition S fuel recs w = (b, rest, w')"
  shows "\<exists>fs. recs = map fst fs @ rest \<and> finishes w w' fs \<and> (\<forall>f \<in> set fs. final_ok S w' f) \<and>
     (b = Some True \<longrightarrow> rest = []) \<and> (b = Some False \<longrightarrow> rest \<noteq> [])"
  using assms
proof (induction S fuel recs w arbitrary: b rest w' rule: runPartition.induct)
  case (1 S fuel w)
  then show ?case by (auto intro!: exI [of _ "[]"] finishes_none)
next
  case (2 S r rs w)
  then show ?case by (auto intro!: exI [of _ "[]"] finishes_none)
next
  case (3 S n r rs w)
  show ?case
  proof (cases "ctx_err S (now w) \<or> expired S (now w)")
    case True
    with "3.prems" show ?thesis by (auto intro!: exI [of _ "[]"] finishes_none split: if_splits)
  next
    case go: False
    obtain applied err w1 where p: "pass S (r # rs) w = (applied, err, w1)" by (cases "pass S (r # rs) w")
    note ps = pass_spec [OF p]
    obtain fs where fs: "map fst fs = take applied (r # rs)" "finishes w w1 fs" "\<forall>f \<in> set fs. final_ok S w1 f"
      using ps by blast
    let ?rest = "drop applied (r # rs)"
    have split: "r # rs = map fst fs @ ?rest" using fs(1) by simp
    have stop: ?thesis if st: "b = Some False" "rest = ?rest" "w' = w1 \<or> w' = tick w1" "?rest \<noteq> []"
    proof -
      have "finishes w w' fs" using st(3) fs(2) finishes_trans [OF fs(2) finishes_tick] by auto
      moreover have "\<forall>f \<in> set fs. final_ok S w' f"
        using st(3) fs(3) final_ok_mono [of S w1 _ "tick w1"] by auto
      ultimately show ?thesis using st split by auto
    qed
    have again: ?thesis if ag: "w2 = w1 \<or> w2 = tick w1"
      "\<exists>gs. ?rest = map fst gs @ rest \<and> finishes w2 w' gs \<and> (\<forall>f \<in> set gs. final_ok S w' f) \<and>
         (b = Some True \<longrightarrow> rest = []) \<and> (b = Some False \<longrightarrow> rest \<noteq> [])" for w2
    proof -
      obtain gs where gs: "?rest = map fst gs @ rest" "finishes w2 w' gs" "\<forall>f \<in> set gs. final_ok S w' f"
        "(b = Some True \<longrightarrow> rest = []) \<and> (b = Some False \<longrightarrow> rest \<noteq> [])" using ag(2) by blast
      have "finishes w w2 fs" using ag(1) fs(2) finishes_trans [OF fs(2) finishes_tick] by auto
      then have fin: "finishes w w' (fs @ gs)" using gs(2) finishes_trans by blast
      have "finishes w1 w' gs" using ag(1) gs(2) finishes_trans [OF finishes_tick [of w1], of w' gs] by auto
      then have "\<forall>f \<in> set fs. final_ok S w' f" using fs(3) finishes_ext final_ok_mono by blast
      then show ?thesis using fin gs split by (intro exI [of _ "fs @ gs"]) auto
    qed
    show ?thesis
    proof (cases err)
      case None
      show ?thesis
      proof (cases "applied > 0")
        case True
        have "runPartition S n ?rest w1 = (b, rest, w')" using "3.prems" go p None True by simp
        then show ?thesis using "3.IH"(1) go p None True by (intro again [of w1]) auto
      next
        case zero: False
        show ?thesis
        proof (cases "ctx_err S (now w1)")
          case True
          have "runPartition S n ?rest (tick w1) = (b, rest, w')" using "3.prems" go p None zero True by simp
          then show ?thesis using "3.IH"(2) go p None zero True by (intro again [of "tick w1"]) auto
        next
          case False
          with "3.prems" go p None zero show ?thesis by (intro stop) auto
        qed
      qed
    next
      case (Some e)
      have ne: "?rest \<noteq> []" using ps Some by simp
      show ?thesis
      proof (cases "ctx_err S (now w1) \<or> \<not> retry_fits S (now w1) \<or> \<not> backoff_ok S (now w1)")
        case True
        then show ?thesis using "3.prems" go p Some ne by (intro stop) (auto simp: Let_def split: if_splits)
      next
        case False
        have "runPartition S n ?rest (tick w1) = (b, rest, w')" using "3.prems" go p Some False by simp
        then show ?thesis using "3.IH"(3) go p Some False by (intro again [of "tick w1"]) auto
      qed
    qed
  qed
qed

text \<open>Time bounds the retries: with the deadline at \<open>D\<close>, fuel \<open>D\<close> is enough.\<close>

lemma runPartition_returns:
  assumes "\<And>t. D \<le> t \<Longrightarrow> expired S t" and "0 < maxInFlight S" and "D - now w < fuel"
  shows "fst (runPartition S fuel recs w) \<noteq> None"
  using assms(3)
proof (induction fuel arbitrary: recs w)
  case (Suc n)
  show ?case
  proof (cases recs)
    case (Cons r rs)
    obtain applied err w1 where p: "pass S (r # rs) w = (applied, err, w1)" by (cases "pass S (r # rs) w")
    show ?thesis
    proof (cases "ctx_err S (now w) \<or> expired S (now w)")
      case True
      with Cons show ?thesis by auto
    next
      case False
      then have "now w < D" using assms(1) by (meson not_less)
      moreover have "now w < now w1" using pass_spec [OF p] False assms(2) by simp
      ultimately have "D - now w1 < n" and "D - now (tick w1) < n"
        using Suc.prems by (auto simp: tick_def)
      note ih = Suc.IH [OF this(1)] Suc.IH [OF this(2)]
      show ?thesis using Cons False p ih by (auto simp: Let_def split: option.split)
    qed
  qed simp
qed simp

end
