(* ===== verification/Sink_Safety.thy ===== *)
theory Sink_Safety
  imports Sink
begin

section \<open>What the sink guarantees\<close>

text \<open>
  The invariant of the consumer's run and its consequences: an offset is committed only when
  every record below it is in the broker's hands, and a record that was polled is published,
  rewound or left to the next start.
\<close>

subsection \<open>The invariant\<close>

lemma after_snoc [simp]:
  "after (h @ [e]) = offset_step e (after h)" "spec_after (h @ [e]) = spec_step e (spec_after h)"
  by (simp_all add: after_def spec_after_def)

lemma after_Nil [simp]: "after [] = NewOffsets" "spec_after [] = (\<lambda>_. None)"
  by (simp_all add: after_def spec_after_def)

lemma history_ok_append: "history_ok os (h @ es) \<longleftrightarrow> history_ok os h \<and> history_ok (fold offset_step h os) es"
  by (induction h arbitrary: os) auto

lemma history_ok_snoc: "history_ok os (h @ [e]) \<longleftrightarrow> history_ok os h \<and> event_ok (fold offset_step h os) e"
  by (simp add: history_ok_append)

text \<open>Every offset of an assignment that is not unfinished has a finished record.\<close>

definition covered :: "offset_event list \<Rightarrow> (krecord \<times> nat list) list \<Rightarrow> bool" where
  "covered h F \<longleftrightarrow>
     (\<forall>k ps x. spec_after h k = Some ps \<longrightarrow> x \<in> seen ps \<longrightarrow> x \<notin> unfinished ps \<longrightarrow>
        (\<exists>f \<in> set F. key_of (fst f) = k \<and> k_Offset (fst f) = x))"

definition sink_inv :: "'u sink_params \<Rightarrow> 'u world \<Rightarrow> bool" where
  "sink_inv S w \<longleftrightarrow> offs w = after (hist w) \<and> history_ok NewOffsets (hist w) \<and>
     (\<forall>f \<in> set (finals w). final_ok S w f) \<and> covered (hist w) (finals w) \<and>
     final_count w = length (finals w)"

lemma coveredD:
  "covered h F \<Longrightarrow> spec_after h k = Some ps \<Longrightarrow> x \<in> seen ps \<Longrightarrow> x \<notin> unfinished ps \<Longrightarrow>
     \<exists>f \<in> set F. key_of (fst f) = k \<and> k_Offset (fst f) = x"
  unfolding covered_def by blast

lemma covered_other:
  "covered h F \<Longrightarrow> (\<And>r. e \<noteq> DoneE r) \<Longrightarrow> covered (h @ [e]) F"
  unfolding covered_def
proof (intro allI impI)
  fix k ps x
  assume c: "\<forall>k ps x. spec_after h k = Some ps \<longrightarrow> x \<in> seen ps \<longrightarrow> x \<notin> unfinished ps \<longrightarrow>
        (\<exists>f \<in> set F. key_of (fst f) = k \<and> k_Offset (fst f) = x)"
    and e: "\<And>r. e \<noteq> DoneE r"
    and *: "spec_after (h @ [e]) k = Some ps" "x \<in> seen ps" "x \<notin> unfinished ps"
  have "\<exists>qs. spec_after h k = Some qs \<and> x \<in> seen qs \<and> x \<notin> unfinished qs"
    using e * by (cases e) (auto simp: Let_def split: if_splits option.splits)
  with c show "\<exists>f \<in> set F. key_of (fst f) = k \<and> k_Offset (fst f) = x" by blast
qed

lemma covered_done:
  assumes "covered h F"
  shows "covered (h @ [DoneE r]) (F @ [(r, ps)])"
  unfolding covered_def after_snoc
proof (intro allI impI)
  fix k ps' x
  assume *: "spec_step (DoneE r) (spec_after h) k = Some ps'" "x \<in> seen ps'" "x \<notin> unfinished ps'"
  show "\<exists>f \<in> set (F @ [(r, ps)]). key_of (fst f) = k \<and> k_Offset (fst f) = x"
  proof (cases "k = key_of r \<and> x = k_Offset r")
    case False
    with * obtain qs where "spec_after h k = Some qs" "x \<in> seen qs" "x \<notin> unfinished qs"
      by (auto split: option.splits if_splits)
    from coveredD [OF assms this] show ?thesis by auto
  qed auto
qed

lemma covered_finishes: "covered h F \<Longrightarrow> covered (h @ map (\<lambda>f. DoneE (fst f)) fs) (F @ fs)"
proof (induction fs rule: rev_induct)
  case (snoc f fs)
  have "covered ((h @ map (\<lambda>f. DoneE (fst f)) fs) @ [DoneE (fst f)]) ((F @ fs) @ [(fst f, snd f)])"
    using snoc by (intro covered_done) simp
  then show ?case by simp
qed simp

lemma history_finishes:
  "history_ok NewOffsets h \<Longrightarrow> history_ok NewOffsets (h @ map (\<lambda>f. DoneE (fst f)) fs)"
proof -
  have "history_ok os (map (\<lambda>f. DoneE (fst f)) fs)" for os
    by (induction fs arbitrary: os) (auto simp: event_ok_def)
  then show "history_ok NewOffsets h \<Longrightarrow> ?thesis" by (simp add: history_ok_append)
qed

lemma after_finishes: "after (h @ map (\<lambda>f. DoneE (fst f)) fs) = fold Done (map fst fs) (after h)"
proof -
  have "fold offset_step (map (\<lambda>f. DoneE (fst f)) fs) os = fold Done (map fst fs) os" for os
    by (induction fs arbitrary: os) auto
  then show ?thesis by (simp add: after_def)
qed

lemma inv_finishes:
  assumes "sink_inv S w" and "finishes w w' fs" and "\<forall>f \<in> set fs. final_ok S w' f"
  shows "sink_inv S w'"
  using assms covered_finishes [of "hist w" "finals w" fs] history_finishes [of "hist w" fs]
    final_ok_mono [of S w _ w']
  by (auto simp: sink_inv_def finishes_def after_finishes)

lemma inv_frame:
  assumes "sink_inv S w" and "offs w' = offs w" and "hist w' = hist w" and "finals w' = finals w"
    and "em_ext (em w) (em w')" and "prefix (submits w) (submits w')" and "final_count w' = final_count w"
  shows "sink_inv S w'"
  using assms final_ok_mono [of S w _ w'] by (auto simp: sink_inv_def)

lemma inv_track_call:
  assumes "sink_inv S w" and "event_ok (offs w) e" and "\<And>r. e \<noteq> DoneE r"
  shows "sink_inv S (track_call e w)"
  using assms covered_other [of "hist w" "finals w" e] final_ok_mono [of S w _ "track_call e w"]
  by (auto simp: sink_inv_def track_call_def history_ok_snoc after_def [symmetric] final_count_def)

lemma inv_track_all:
  "sink_inv S w \<Longrightarrow> \<forall>r \<in> set recs. 0 \<le> k_Offset r \<Longrightarrow> sink_inv S (fold (\<lambda>rec. track_call (TrackE rec)) recs w)"
proof (induction recs arbitrary: w)
  case (Cons r recs)
  have "sink_inv S (track_call (TrackE r) w)"
    using Cons.prems by (intro inv_track_call) (auto simp: event_ok_def)
  with Cons show ?case by simp
qed simp

lemma inv_forget_all: "sink_inv S w \<Longrightarrow> sink_inv S (forget_all ks w)"
  unfolding forget_all_def
proof (induction ks arbitrary: w)
  case (Cons k ks)
  have "sink_inv S (track_call (ForgetE (fst k) (snd k)) w)"
    using Cons.prems by (intro inv_track_call) (auto simp: event_ok_def)
  with Cons show ?case by (simp add: case_prod_beta')
qed simp

lemma inv_ok: "sink_inv S w \<Longrightarrow> refines (offs w) (spec_after (hist w))"
  using refines_after [of "hist w"] by (simp add: sink_inv_def)

lemma commitable_event_ok:
  assumes "offsets_ok os"
  shows "event_ok os (MarkE (Commitable os))"
  using distinct2_collect2 [of commit_point os, folded Commitable_def] commit_point_safe(4)
  by (fastforce simp: event_ok_def distinct2_def get2_Commitable [OF assms])

lemma lag_not_final: "final_count (reportCommitLag w) = final_count w"
proof -
  have "filter is_final (map (\<lambda>(part, lag). SetCommitLag topic part lag) parts) = []" for topic parts
    by (induction parts) auto
  then have "filter is_final (concat (map (\<lambda>(topic, parts). map (\<lambda>(part, lag). SetCommitLag topic part lag) parts) c)) = []"
    for c
    by (induction c) auto
  then show ?thesis by (simp add: final_count_def reportCommitLag_def)
qed

lemma reportCommitLag_simps [simp]:
  "offs (reportCommitLag w) = offs w" "hist (reportCommitLag w) = hist w" "finals (reportCommitLag w) = finals w"
  "em (reportCommitLag w) = em w" "submits (reportCommitLag w) = submits w"
  "commits (reportCommitLag w) = commits w" "rewinds (reportCommitLag w) = rewinds w"
  "now (reportCommitLag w) = now w"
  by (simp_all add: reportCommitLag_def)

text \<open>Before the mark, a commit changes only the emitter.\<close>

definition flushed :: "'u sink_params \<Rightarrow> 'u world \<Rightarrow> 'u world" where
  "flushed S w0 =
     (let w = deliver S (tick w0); os = Commitable (offs w) in
      if os = [] then w
      else (case Flush (flush_err S (now w)) (em w) of
              (Some _, e) \<Rightarrow> w\<lparr>em := e\<rparr>
            | (None, e) \<Rightarrow> w\<lparr>em := e, commits := commits w @ [os]\<rparr>))"

lemma commit_alt:
  "commit S w =
     reportCommitLag
       (if Commitable (offs w) \<noteq> [] \<and> fst (Flush (flush_err S (Suc (now w))) (em (deliver S (tick w)))) = None \<and>
           \<not> commit_refused (commit_resp S (Suc (now w)))
        then track_call (MarkE (Commitable (offs w))) (flushed S w) else flushed S w)"
proof -
  have *: "offs (deliver S (tick w)) = offs w" "now (tick w) = Suc (now w)"
    by (simp_all add: deliver_def tick_def)
  show ?thesis
    by (auto simp: commit_def flushed_def Let_def * split: prod.splits option.splits)
qed

lemma flushed_simps [simp]:
  "offs (flushed S w) = offs w" "hist (flushed S w) = hist w" "finals (flushed S w) = finals w"
  "submits (flushed S w) = submits w" "final_count (flushed S w) = final_count w"
  "rewinds (flushed S w) = rewinds w" "now (flushed S w) = Suc (now w)"
  by (auto simp: flushed_def Let_def deliver_def tick_def final_count_def split: prod.split option.split)

lemma flushed_em: "em_ext (em w) (em (flushed S w))"
proof -
  have d: "em_ext (em w) (em (deliver S (tick w)))" using em_ext_deliver [of "tick w" S] by simp
  then show ?thesis
    using em_ext_trans [OF d em_ext_Flush [of "em (deliver S (tick w))"]]
    by (auto simp: flushed_def Let_def split: prod.split option.split) (metis snd_conv)+
qed

lemma flushed_commits:
  "commits (flushed S w) = commits w \<or> commits (flushed S w) = commits w @ [Commitable (offs w)]"
proof -
  have "offs (deliver S (tick w)) = offs w" "commits (deliver S (tick w)) = commits w"
    by (simp_all add: deliver_def tick_def)
  then show ?thesis by (auto simp: flushed_def Let_def split: prod.split option.split)
qed

lemma inv_flushed: "sink_inv S w \<Longrightarrow> sink_inv S (flushed S w)"
  by (erule inv_frame) (simp_all add: flushed_em)

lemma inv_commit:
  assumes "sink_inv S w"
  shows "sink_inv S (commit S w)"
proof -
  have "offsets_ok (offs w)" using inv_ok [OF assms] refinesD(1) by blast
  then have "sink_inv S (track_call (MarkE (Commitable (offs w))) (flushed S w))"
    using inv_flushed [OF assms] commitable_event_ok by (intro inv_track_call) auto
  then show ?thesis
    unfolding commit_alt using inv_flushed [OF assms]
    by (auto intro: inv_frame [of S _ "reportCommitLag _"] simp: lag_not_final)
qed

lemma inv_OnRevoked: "sink_inv S w \<Longrightarrow> sink_inv S (OnRevoked S revoked w)"
  by (simp add: OnRevoked_def inv_forget_all inv_commit)


subsection \<open>One poll\<close>

text \<open>Each group finishes a prefix; nothing is abandoned exactly when each finished wholly.\<close>

lemma run_groups_spec:
  "run_groups S fuel gs w = (ab, w') \<Longrightarrow>
     \<exists>fss. finishes w w' (concat fss) \<and> (\<forall>f \<in> set (concat fss). final_ok S w' f) \<and>
       list_all2 (\<lambda>g fs. prefix (map fst fs) g) gs fss \<and> (\<not> ab \<longrightarrow> list_all2 (\<lambda>g fs. map fst fs = g) gs fss)"
proof (induction gs arbitrary: w ab)
  case Nil
  then show ?case by (auto intro!: exI [of _ "[]"] finishes_none)
next
  case (Cons g gs)
  obtain ok rest w1 where g: "runPartition S fuel g w = (ok, rest, w1)" by (cases "runPartition S fuel g w")
  obtain ab2 w2 where gs: "run_groups S fuel gs w1 = (ab2, w2)" by (cases "run_groups S fuel gs w1")
  have res: "ab \<longleftrightarrow> ok \<noteq> Some True \<or> ab2" "w' = w2" using Cons.prems g gs by auto
  obtain fs where fs: "g = map fst fs @ rest" "finishes w w1 fs" "\<forall>f \<in> set fs. final_ok S w1 f"
    "ok = Some True \<longrightarrow> rest = []"
    using runPartition_spec [OF g] by blast
  obtain fss where fss: "finishes w1 w' (concat fss)" "\<forall>f \<in> set (concat fss). final_ok S w' f"
    "list_all2 (\<lambda>g fs. prefix (map fst fs) g) gs fss" "\<not> ab2 \<longrightarrow> list_all2 (\<lambda>g fs. map fst fs = g) gs fss"
    using Cons.IH gs res(2) by blast
  have "finishes w w' (concat (fs # fss))" using finishes_trans [OF fs(2) fss(1)] by simp
  moreover have "\<forall>f \<in> set (concat (fs # fss)). final_ok S w' f"
    using fs(3) fss(2) finishes_ext [OF fss(1)] final_ok_mono [of S w1 _ w'] by auto
  ultimately show ?case using fs(1,4) fss(3,4) res(1) by (intro exI [of _ "fs # fss"]) auto
qed

lemma groups_partition:
  assumes "g \<in> set (groupByPartition recs)"
  shows "set g \<subseteq> set recs"
  using assms by (auto simp: group_mem)

lemma record_in_group: "r \<in> set recs \<Longrightarrow> \<exists>g \<in> set (groupByPartition recs). r \<in> set g"
  by (rule bexI [of _ "filter (\<lambda>s. key_of s = key_of r) recs"]) (auto simp: group_mem)

definition tracked :: "krecord list \<Rightarrow> 'u world \<Rightarrow> 'u world" where
  "tracked recs w = fold (\<lambda>rec. track_call (TrackE rec)) recs w"

lemma tracked_simps:
  "offs (tracked recs w) = fold Track recs (offs w)" "finals (tracked recs w) = finals w"
  "em (tracked recs w) = em w" "submits (tracked recs w) = submits w" "now (tracked recs w) = now w"
  "rewinds (tracked recs w) = rewinds w" "commits (tracked recs w) = commits w"
  unfolding tracked_def by (induction recs arbitrary: w) (auto simp: track_call_def)

lemma forget_all_simps [simp]:
  "finals (forget_all ks w) = finals w" "rewinds (forget_all ks w) = rewinds w" "now (forget_all ks w) = now w"
  "commits (forget_all ks w) = commits w" "em (forget_all ks w) = em w" "submits (forget_all ks w) = submits w"
  unfolding forget_all_def by (induction ks arbitrary: w) (auto simp: track_call_def split: prod.split)

lemma forget_all_offs: "offs (forget_all ks w) = fold (\<lambda>(t, p). Forget t p) ks (offs w)"
  unfolding forget_all_def by (induction ks arbitrary: w) (auto simp: track_call_def split: prod.split)

lemma open_forget_all:
  "offsets_ok os \<Longrightarrow> open_at (fold (\<lambda>(t, p). Forget t p) ks os) k = (if k \<in> set ks then {} else open_at os k)"
proof (induction ks arbitrary: os)
  case (Cons k' ks)
  obtain t p where k': "k' = (t, p)" by (cases k')
  have ok: "offsets_ok (Forget t p os)" using Cons.prems by (rule offsets_ok_Forget)
  show ?case using Cons.IH [OF ok] tracker.open_forget [OF Cons.prems, of t p k] k' by auto
qed simp

lemma processBatch_split:
  assumes "run_groups S fuel (groupByPartition recs) (tracked recs w) = (ab, w2)"
  shows "processBatch S fuel recs w = (if ab \<and> \<not> ctx_err S (now w2) then abandonBatch w2 else w2)"
  using assms by (simp add: processBatch_def tracked_def)

lemma inv_abandon: "sink_inv S w \<Longrightarrow> sink_inv S (abandonBatch w)"
proof -
  assume inv: "sink_inv S w"
  have "sink_inv S (w\<lparr>rewinds := rewinds w @ [Pending (offs w)]\<rparr>)"
    using inv by (rule inv_frame) (auto simp: final_count_def)
  then show ?thesis using inv by (auto simp: abandonBatch_def Let_def inv_forget_all)
qed

lemma inv_processBatch:
  assumes "sink_inv S w" and "\<forall>r \<in> set recs. 0 \<le> k_Offset r"
  shows "sink_inv S (processBatch S fuel recs w)"
proof -
  obtain ab w2 where g: "run_groups S fuel (groupByPartition recs) (tracked recs w) = (ab, w2)"
    by (cases "run_groups S fuel (groupByPartition recs) (tracked recs w)")
  have "sink_inv S (tracked recs w)" using inv_track_all [OF assms] by (simp add: tracked_def)
  then have "sink_inv S w2" using run_groups_spec [OF g] by (blast intro: inv_finishes)
  then show ?thesis unfolding processBatch_split [OF g] by (simp add: inv_abandon)
qed

definition log_events :: "sink_event list \<Rightarrow> bool" where
  "log_events es \<longleftrightarrow> (\<forall>recs. Fetched recs \<in> set es \<longrightarrow> (\<forall>r \<in> set recs. 0 \<le> k_Offset r))"

lemma inv_new_world: "sink_inv S new_world"
  by (simp add: sink_inv_def new_world_def covered_def final_count_def)

lemma inv_Run:
  "sink_inv S w \<Longrightarrow> log_events es \<Longrightarrow> sink_inv S (Run S fuel es w)"
proof (induction S fuel es w rule: Run.induct)
  case (4 S fuel recs es w)
  have "sink_inv S (processBatch S fuel recs w)"
    using "4.prems" by (intro inv_processBatch) (auto simp: log_events_def)
  moreover have "log_events es" using "4.prems"(2) by (auto simp: log_events_def)
  ultimately show ?case using "4.IH" by (auto simp: Let_def inv_commit)
qed (auto simp: log_events_def inv_OnRevoked)

lemmas run_inv = inv_Run [OF inv_new_world]


subsection \<open>What becomes of a polled record\<close>

lemma keys2_get2: "distinct2 ps \<Longrightarrow> (t, p) \<in> set (keys2 ps) \<longleftrightarrow> get2 ps t p \<noteq> None"
proof -
  assume d: "distinct2 ps"
  have "(t, p) \<in> set (keys2 ps) \<longleftrightarrow> (\<exists>parts v. (t, parts) \<in> set ps \<and> (p, v) \<in> set parts)"
    by (force simp: keys2_def)
  also have "\<dots> \<longleftrightarrow> (\<exists>parts v. map_of ps t = Some parts \<and> map_of parts p = Some v)"
    using d by (fastforce simp: distinct2_def dest: map_of_SomeD)
  finally show ?thesis by (auto simp: get2_def split: option.split)
qed

lemma distinct2_Pending: "distinct2 (Pending os)"
  by (simp add: Pending_def distinct2_collect2)

text \<open>A partition with an open offset is rewound at or below it and forgotten.\<close>

lemma abandon_rewinds:
  assumes ok: "offsets_ok (offs w)" and x: "x \<in> open_at (offs w) k"
  shows "\<exists>eo. rewinds (abandonBatch w) = rewinds w @ [Pending (offs w)] \<and>
     get2 (Pending (offs w)) (fst k) (snd k) = Some eo \<and> eo_Offset eo \<le> x \<and>
     open_at (offs (abandonBatch w)) k = {}"
proof -
  have "rewind_at (offs w) k = Some (Min (open_at (offs w) k))"
    using tracker.rewind_first [OF ok, of k] x by auto
  then obtain eo where eo: "get2 (Pending (offs w)) (fst k) (snd k) = Some eo" "eo_Offset eo = Min (open_at (offs w) k)"
    by (auto simp: rewind_at_def)
  have le: "eo_Offset eo \<le> x" using eo(2) x tracker.open_finite [OF ok] by simp
  have ne: "Pending (offs w) \<noteq> []" using eo(1) by (auto simp: get2_def)
  have "k \<in> set (keys2 (Pending (offs w)))"
    using keys2_get2 [OF distinct2_Pending, of "fst k" "snd k"] eo(1) by simp
  then have "open_at (offs (abandonBatch w)) k = {}"
    using ne open_forget_all [OF ok, of _ k] by (simp add: abandonBatch_def Let_def forget_all_offs)
  then show ?thesis using eo(1) le ne by (auto simp: abandonBatch_def Let_def)
qed

lemma prefix_groups_subset:
  "list_all2 (\<lambda>g fs. prefix (map fst fs) g) gs fss \<Longrightarrow> f \<in> set (concat fss) \<Longrightarrow> \<exists>g \<in> set gs. fst f \<in> set g"
proof (induction rule: list_all2_induct)
  case (Cons g gs fs fss)
  then show ?case using set_mono_prefix [of "map fst fs" g] by auto
qed simp

lemma whole_groups:
  "list_all2 (\<lambda>g fs. map fst fs = g) gs fss \<Longrightarrow> set (concat gs) = fst ` set (concat fss)"
proof (induction rule: list_all2_induct)
  case (Cons g gs fs fss)
  then show ?case by (simp add: image_Un flip: set_map)
qed simp


subsection \<open>Properties\<close>

text \<open>What a commit covers, for the property below and for the whole pipeline.\<close>

lemma commit_published:
  assumes "log_events es" and "w = Run S fuel es new_world"
    and "commits (commit S w) = commits w @ [c]" and "get2 c t p = Some eo"
  shows "\<exists>ps. spec_after (hist w) (t, p) = Some ps \<and> eo_Offset eo - 1 \<in> seen ps \<and>
     (\<forall>x \<in> seen ps. x < eo_Offset eo \<longrightarrow>
        (\<exists>rec qs. (rec, qs) \<in> set (finals w) \<and> key_of rec = (t, p) \<and> k_Offset rec = x \<and>
           qs \<noteq> [] \<and> (\<forall>q \<in> set qs. acked (em w) q) \<and> answered S w rec qs))"
proof -
  have inv: "sink_inv S w" using run_inv [OF assms(1)] assms(2) by simp
  note r = inv_ok [OF inv]
  have "commits (commit S w) = commits (flushed S w)" by (simp add: commit_alt track_call_def)
  then have c: "c = Commitable (offs w)" using assms(3) flushed_commits [of S w] by auto
  then obtain ps where ps: "spec_after (hist w) (t, p) = Some ps" "eo_Offset eo - 1 \<in> seen ps"
    "\<forall>x \<in> seen ps. x < eo_Offset eo \<longrightarrow> x \<notin> unfinished ps"
    using commit_covers [OF r] assms(4) by blast
  have "\<exists>rec qs. (rec, qs) \<in> set (finals w) \<and> key_of rec = (t, p) \<and> k_Offset rec = x \<and>
           qs \<noteq> [] \<and> (\<forall>q \<in> set qs. acked (em w) q) \<and> answered S w rec qs"
    if x: "x \<in> seen ps" "x < eo_Offset eo" for x
  proof -
    obtain rec qs where f: "(rec, qs) \<in> set (finals w)" "key_of rec = (t, p)" "k_Offset rec = x"
      using coveredD [of "hist w" "finals w", OF _ ps(1) x(1)] x ps(3) inv by (fastforce simp: sink_inv_def)
    moreover have "final_ok S w (rec, qs)" using inv f(1) by (simp add: sink_inv_def)
    ultimately show ?thesis by (auto simp: final_ok_def)
  qed
  then show ?thesis using ps(1,2) by blast
qed

text \<open>
  C5: whatever the sink hands the broker as committed is published: for the offset committed
  for a partition, every record of the current assignment below it has been finished, and
  finishing it took at least one publication, all of them acknowledged by the broker, among
  them either its poison dead letter or its results (when they are enabled) together with one
  dead letter per rejected event. So no record is lost by a commit.
\<close>

theorem committed_offsets_are_published:
  assumes "log_events es" and "w = Run S fuel es new_world"
    and "commits (commit S w) = commits w @ [c]" and "get2 c t p = Some eo"
  shows "\<exists>ps. spec_after (hist w) (t, p) = Some ps \<and> eo_Offset eo - 1 \<in> seen ps \<and>
     (\<forall>x \<in> seen ps. x < eo_Offset eo \<longrightarrow>
        (\<exists>rec qs. (rec, qs) \<in> set (finals w) \<and> key_of rec = (t, p) \<and> k_Offset rec = x \<and>
           qs \<noteq> [] \<and> (\<forall>q \<in> set qs. acked (em w) q) \<and> answered S w rec qs))"
  using commit_published [OF assms] .

text \<open>
  C6: no polled record is dropped: when a poll has been processed, each of its records either
  was finished, or the process is shutting down and it stays uncommitted, or its partition was
  rewound to it or before it and forgotten, so that it will be polled again.
\<close>

theorem polled_record_is_finished_or_rewound:
  assumes "log_events es" and "w = Run S fuel es new_world"
    and "inj_on (\<lambda>r. (key_of r, k_Offset r)) (set recs)" and "\<forall>r \<in> set recs. 0 \<le> k_Offset r"
    and "rec \<in> set recs" and "w' = processBatch S n recs w"
  shows "(\<exists>qs. (rec, qs) \<in> set (drop (length (finals w)) (finals w')) \<and> final_ok S w' (rec, qs)) \<or>
     ctx_err S (now w') \<or>
     (\<exists>c eo. rewinds w' = rewinds w @ [c] \<and> get2 c (k_Topic rec) (k_Partition rec) = Some eo \<and>
        eo_Offset eo \<le> k_Offset rec \<and> open_at (offs w') (key_of rec) = {})"
proof -
  obtain ab w2 where g: "run_groups S n (groupByPartition recs) (tracked recs w) = (ab, w2)"
    by (cases "run_groups S n (groupByPartition recs) (tracked recs w)")
  note split = processBatch_split [OF g, folded assms(6)]
  obtain fss where fss: "finishes (tracked recs w) w2 (concat fss)" "\<forall>f \<in> set (concat fss). final_ok S w2 f"
    "list_all2 (\<lambda>g fs. prefix (map fst fs) g) (groupByPartition recs) fss"
    "\<not> ab \<longrightarrow> list_all2 (\<lambda>g fs. map fst fs = g) (groupByPartition recs) fss"
    using run_groups_spec [OF g] by blast
  have same: "finals w' = finals w2" "em w' = em w2" "submits w' = submits w2" "now w' = now w2"
    by (auto simp: split abandonBatch_def Let_def)
  have fin: "finals w' = finals w @ concat fss" using fss(1) by (simp add: same finishes_def tracked_simps)
  let ?ds = "map fst (concat fss)"
  have sub: "set ?ds \<subseteq> set recs"
    using prefix_groups_subset [OF fss(3)] groups_partition by (fastforce simp del: set_concat)
  show ?thesis
  proof (cases "rec \<in> set ?ds")
    case True
    then obtain qs where qs: "(rec, qs) \<in> set (concat fss)" by force
    then have "final_ok S w' (rec, qs)" using fss(2) final_ok_mono [of S w2 _ w'] same by auto
    with qs fin show ?thesis by auto
  next
    case False
    have ab: "ab"
    proof (rule ccontr)
      assume "\<not> ab"
      then have "set (concat (groupByPartition recs)) = set ?ds" using whole_groups fss(4) by fastforce
      with False record_in_group [OF assms(5)] show False by auto
    qed
    have o2: "offs w2 = fold Done ?ds (fold Track recs (offs w))"
      using fss(1) by (simp add: finishes_def tracked_simps)
    have ok: "offsets_ok (offs w)" using inv_ok [OF run_inv [OF assms(1)]] refinesD(1) assms(2) by blast
    have "k_Offset rec \<notin> tracker.offsets_in ?ds (key_of rec)"
    proof
      assume "k_Offset rec \<in> tracker.offsets_in ?ds (key_of rec)"
      then obtain d where d: "d \<in> set ?ds" "key_of d = key_of rec" "k_Offset d = k_Offset rec"
        by (auto simp: tracker.offsets_in_def simp del: set_map)
      with sub have "d \<in> set recs" by blast
      with d assms(3,5) have "d = rec" by (auto simp: inj_on_def)
      with d(1) False show False by simp
    qed
    then have "k_Offset rec \<in> open_at (offs w2) (key_of rec)"
      using tracker.still_open [OF ok assms(5)] o2 by simp
    moreover have "offsets_ok (offs w2)" using o2 ok tracker.track_all tracker.finish_all by metis
    ultimately obtain eo where
      "rewinds (abandonBatch w2) = rewinds w2 @ [Pending (offs w2)]"
      "get2 (Pending (offs w2)) (k_Topic rec) (k_Partition rec) = Some eo"
      "eo_Offset eo \<le> k_Offset rec" "open_at (offs (abandonBatch w2)) (key_of rec) = {}"
      using abandon_rewinds by (fastforce simp: key_of_def)
    moreover have "rewinds w2 = rewinds w" using fss(1) by (simp add: finishes_def tracked_simps)
    ultimately show ?thesis using ab same(4) by (auto simp: split)
  qed
qed


text \<open>
  C18: one run over a partition ends and finishes exactly a prefix of it: with the bound that
  \<^verbatim>\<open>New\<close> sets and a deadline that passes, \<^verbatim>\<open>runPartition\<close> returns, the records it finished are the
  first ones, in order, each marked once and only after its publications were acknowledged,
  and it reports success exactly when none is left.
\<close>

theorem runPartition_finishes_a_prefix:
  assumes "\<forall>t \<ge> D. expired S t" and "maxInFlight S = inFlight (New cfg)" and "D - now w < fuel"
  shows "\<exists>b rest w' fs. runPartition S fuel recs w = (Some b, rest, w') \<and> recs = map fst fs @ rest \<and>
     b = (rest = []) \<and> finals w' = finals w @ fs \<and> hist w' = hist w @ map (\<lambda>f. DoneE (fst f)) fs \<and>
     (\<forall>f \<in> set fs. final_ok S w' f)"
proof -
  have "0 < maxInFlight S" using assms(2) by (simp add: New_def Let_def config_constants)
  from runPartition_returns [of D S, OF assms(1) [rule_format] this assms(3), of recs]
  obtain b rest w' where r: "runPartition S fuel recs w = (Some b, rest, w')"
    by (cases "runPartition S fuel recs w") auto
  from runPartition_spec [OF r] obtain fs where "recs = map fst fs @ rest" "finishes w w' fs"
    "\<forall>f \<in> set fs. final_ok S w' f" "b \<longrightarrow> rest = []" "\<not> b \<longrightarrow> rest \<noteq> []" by auto
  then show ?thesis unfolding r finishes_def by (intro exI [of _ b] exI [of _ rest] exI [of _ w'] exI [of _ fs]) auto
qed

text \<open>
  C20: the partition's order is kept in TigerBeetle and in the output topics: the submission
  phase sends the records to the batcher in their order and sends nothing after one whose
  submission failed, and the publication phase hands the publications of the submitted records
  to the broker in that order, without a gap, each of an issued record's own.
\<close>

theorem pass_keeps_partition_order:
  assumes "submit_loop S recs w = (prep, w1)" and "collect_loop S (zip recs prep) w1 = (issued, err, w2)"
  shows "map fst (submits w2) = map fst (submits w) @ map fst (filter (\<lambda>(r, p). is_Submitted p) (zip recs prep)) \<and>
     (\<forall>i. Suc i < length prep \<longrightarrow> \<not> is_Failed (prep ! i)) \<and>
     concat (map ip_pubs issued) = [length (pubs (em w))..<length (pubs (em w2))] \<and>
     (\<forall>(rec, ip) \<in> set (zip recs issued). ip_pubs ip \<noteq> [] \<and> promised S w2 rec (ip_pubs ip))"
proof -
  note sl = submit_loop_spec [OF assms(1)]
  have ch: "channels_ok w1 (zip recs prep)" using sl by blast
  note cl = collect_loop_spec [OF assms(2) ch]
  have "zip (map fst (zip recs prep)) issued = zip recs issued"
    using cl by (simp add: map_fst_zip_take zip_take_enough)
  then have "list_all (issued_ok S w2) (zip recs issued)" using cl by simp
  then have "\<forall>(rec, ip) \<in> set (zip recs issued). ip_pubs ip \<noteq> [] \<and> promised S w2 rec (ip_pubs ip)"
    unfolding list_all_iff issued_ok_def by blast
  with sl cl show ?thesis by (simp add: submits_ext_def)
qed

text \<open>
  A poll is cut into its partitions: the groups are the non-empty selections of the records
  of one topic and partition, in arrival order, no two alike, and together they hold every
  record.
\<close>

theorem groups_are_the_partitions:
  "set (groupByPartition recs) = {filter (\<lambda>r. key_of r = k) recs | k. k \<in> key_of ` set recs} \<and>
   distinct (groupByPartition recs) \<and> [] \<notin> set (groupByPartition recs) \<and>
   \<Union> (set ` set (groupByPartition recs)) = set recs"
proof -
  have sets: "set (groupByPartition recs) = {filter (\<lambda>r. key_of r = k) recs | k. k \<in> key_of ` set recs}"
    using group_mem by blast
  have "filter (\<lambda>r. key_of r = k) recs \<noteq> []" if "k \<in> key_of ` set recs" for k
    using that by (auto simp: filter_empty_conv)
  then have "[] \<notin> set (groupByPartition recs)" using group_mem [of "[]" recs] by metis
  moreover have "\<Union> (set ` set (groupByPartition recs)) = set recs"
  proof
    show "\<Union> (set ` set (groupByPartition recs)) \<subseteq> set recs"
      using groups_partition [of _ recs] by auto
    show "set recs \<subseteq> \<Union> (set ` set (groupByPartition recs))"
      using record_in_group [of _ recs] by auto
  qed
  ultimately show ?thesis using sets groups_disjoint [of recs] by simp
qed

text \<open>
  A record is counted once however often it is retried: after any run, the increments of
  the records counter other than \<open>blocked\<close> are as many as the records finished.
\<close>

theorem each_finished_record_is_counted_once:
  assumes "log_events es"
  shows "final_count (Run S fuel es new_world) = length (finals (Run S fuel es new_world))"
  using run_inv [OF assms, of S fuel] by (simp add: sink_inv_def)


subsection \<open>Witnesses\<close>

text \<open>
  One poll of offset 5 of topic \<open>t\<close>, or of offsets 5 and 6. The batcher answers the first command; the second
  is still unanswered when the deadline passes. The broker acknowledges everything.
\<close>

definition demo_sink :: "nat sink_params" where
  "demo_sink = \<lparr> decoders = (\<lambda>topic. if topic = ''t'' then Some (\<lambda>v.
         Ret (Inr \<lparr> Op = OpCreateTransfers, Transfers = [], Accounts = [], IDs = [''7''] \<rparr>)) else None),
     emit_p = \<lparr> DLQ_topic = ''d'', Results_topic = ''r'', RFC3339Nano = (\<lambda>_. []), Marshal = (\<lambda>_. Inr ''b'') \<rparr>,
     Quote = id, maxInFlight = 1000, clock = int, ctx_err = (\<lambda>_. False), expired = (\<lambda>t. 20 \<le> t),
     submit_at = (\<lambda>_. Ret None),
     outcome_at = (\<lambda>_ c. if c = 0 then
         Some (Inr [\<lparr> Index = 0, ID = ''7'', Status = StatusOK, Error = [], Timestamp = 0 \<rparr>]) else None),
     callbacks_at = (\<lambda>_. [(0, None)]), is_ctx_err = (\<lambda>_ _. False),
     panic_at = (\<lambda>_. None), retry_fits = (\<lambda>_. False), backoff_ok = (\<lambda>_. True), flush_err = (\<lambda>_. None),
     commit_resp = (\<lambda>_. Inr []), commit_due = (\<lambda>_. False) \<rparr>"

abbreviation demo_world :: "nat world" where
  "demo_world \<equiv> Run demo_sink 30 [Fetched [rec_at 5]] new_world"

lemma demo_polls:
  "commits (commit demo_sink demo_world) = commits demo_world @ [[(''t'', [(0, \<lparr> eo_Epoch = 3, eo_Offset = 6 \<rparr>)])]]"
  "rewinds (processBatch demo_sink 30 [rec_at 5, rec_at 6] new_world) =
     [[(''t'', [(0, \<lparr> eo_Epoch = 3, eo_Offset = 6 \<rparr>)])]]"
  "length (finals (processBatch demo_sink 30 [rec_at 5, rec_at 6] new_world)) = 1"
  "\<not> ctx_err demo_sink (now (processBatch demo_sink 30 [rec_at 5, rec_at 6] new_world))"
  "map (k_Offset \<circ> fst) (finals (processBatch demo_sink 30 [rec_at 5, rec_at 6] new_world)) = [5]"
  by code_simp+

lemma demo_log: "log_events [Fetched [rec_at 5]]" "log_events []"
  by (simp_all add: log_events_def)

theorem committed_offsets_are_published_witness:
  "\<exists>ps. spec_after (hist demo_world) (''t'', 0) = Some ps \<and> 5 \<in> seen ps \<and>
     (\<forall>x \<in> seen ps. x < 6 \<longrightarrow>
        (\<exists>rec qs. (rec, qs) \<in> set (finals demo_world) \<and> key_of rec = (''t'', 0) \<and> k_Offset rec = x \<and>
           qs \<noteq> [] \<and> (\<forall>q \<in> set qs. acked (em demo_world) q) \<and> answered demo_sink demo_world rec qs))"
  using committed_offsets_are_published [OF demo_log(1) refl demo_polls(1), of "''t''" 0 "\<lparr> eo_Epoch = 3, eo_Offset = 6 \<rparr>"]
  by (simp add: get2_def)

theorem polled_record_is_finished_or_rewound_witness:
  "\<exists>c eo. rewinds (processBatch demo_sink 30 [rec_at 5, rec_at 6] new_world) = [c] \<and>
     get2 c ''t'' 0 = Some eo \<and> eo_Offset eo \<le> 6"
proof -
  have "inj_on (\<lambda>r. (key_of r, k_Offset r)) (set [rec_at 5, rec_at 6])" by (simp add: inj_on_def)
  then have "inj_on (\<lambda>r. (key_of r, k_Offset r)) (set [rec_at 5, rec_at 6]) \<and>
      (\<forall>r \<in> set [rec_at 5, rec_at 6]. 0 \<le> k_Offset r)" by simp
  note this [THEN conjunct1] this [THEN conjunct2]
  note main = polled_record_is_finished_or_rewound [OF demo_log(2) refl this, of "rec_at 6" _ demo_sink 30 30]
  have "rec_at 6 \<notin> fst ` set (finals (processBatch demo_sink 30 [rec_at 5, rec_at 6] new_world))"
  proof
    let ?F = "finals (processBatch demo_sink 30 [rec_at 5, rec_at 6] new_world)"
    assume "rec_at 6 \<in> fst ` set ?F"
    then have "k_Offset (rec_at 6) \<in> set (map (k_Offset \<circ> fst) ?F)" by force
    then show False unfolding demo_polls(5) by simp
  qed
  then show ?thesis using main demo_polls(4)
    by (simp add: new_world_def [of] rec_at_def key_of_def) force
qed

theorem runPartition_finishes_a_prefix_witness:
  "\<exists>b rest w' (fs :: (krecord \<times> nat list) list).
     runPartition demo_sink 21 [rec_at 5, rec_at 6] new_world = (Some b, rest, w') \<and>
     [rec_at 5, rec_at 6] = map fst fs @ rest \<and> b = (rest = [])"
proof -
  have bound: "maxInFlight demo_sink = inFlight (New (sample_config\<lparr>Sink := \<lparr> MaxInFlightPerPartition = 0, PollSize = 1 \<rparr>\<rparr>))"
    by (simp add: demo_sink_def New_def Let_def config_constants)
  have late: "\<forall>t \<ge> 20. expired demo_sink t" by (simp add: demo_sink_def)
  have fuel: "20 - now (new_world :: nat world) < 21" by (simp add: new_world_def)
  from runPartition_finishes_a_prefix [OF late bound fuel, of "[rec_at 5, rec_at 6]"]
  show ?thesis by blast
qed

theorem pass_keeps_partition_order_witness:
  "map fst (submits (snd (submit_loop demo_sink [rec_at 5, rec_at 6] new_world))) = [rec_at 5, rec_at 6]"
proof -
  let ?s = "submit_loop demo_sink [rec_at 5, rec_at 6] new_world"
  let ?c = "collect_loop demo_sink (zip [rec_at 5, rec_at 6] (fst ?s)) (snd ?s)"
  have "?s = (fst ?s, snd ?s)" "?c = (fst ?c, fst (snd ?c), snd (snd ?c))" by simp_all
  note main = pass_keeps_partition_order [OF this]
  have "fst ?s = [Submitted 0, Submitted 1]" by code_simp
  moreover have "submits (snd (snd ?c)) = submits (snd ?s)" "submits (new_world :: nat world) = []"
    by code_simp+
  ultimately show ?thesis using main by simp
qed

theorem each_finished_record_is_counted_once_witness:
  "final_count demo_world = length (finals demo_world) \<and> length (finals demo_world) = 1"
  using each_finished_record_is_counted_once [OF demo_log(1), of demo_sink 30] by (simp, code_simp)

end
