(* ===== verification/Metrics.thy ===== *)
theory Metrics
  imports Sink_Safety
begin

section \<open>The collectors: \<^verbatim>\<open>internal/obs/metrics.go\<close>\<close>

text \<open>
  Prometheus collectors as their values: a counter is a number per label, a histogram the list of
  what it observed, a gauge its last value per label. A nil \<^verbatim>\<open>*Metrics\<close> is \<open>None\<close>, on which every
  method does nothing. The sink's model keeps the calls it makes; here they are made.
\<close>

subsection \<open>Collectors\<close>

record collectors =
  RecordsTotal :: "string \<Rightarrow> nat"
  DLQTotal :: "string \<times> string \<Rightarrow> nat"
  EventsTotal :: "string \<Rightarrow> nat"
  BatchSizes :: "nat list"
  TBLatency :: "(string \<times> int) list"
  CommitLagGauge :: "string \<times> string \<rightharpoonup> int"

definition NewMetrics :: collectors where
  "NewMetrics = \<lparr> RecordsTotal = (\<lambda>_. 0), DLQTotal = (\<lambda>_. 0), EventsTotal = (\<lambda>_. 0), BatchSizes = [], TBLatency = [],
     CommitLagGauge = Map.empty \<rparr>"

definition count_up :: "'l \<Rightarrow> ('l \<Rightarrow> nat) \<Rightarrow> 'l \<Rightarrow> nat" where
  "count_up l c = c(l := Suc (c l))"

definition incRecords :: "string \<Rightarrow> collectors option \<Rightarrow> collectors option" where
  "incRecords result m = map_option (\<lambda>m. m\<lparr>RecordsTotal := count_up result (RecordsTotal m)\<rparr>) m"

definition incEvents :: "string \<Rightarrow> collectors option \<Rightarrow> collectors option" where
  "incEvents result m = map_option (\<lambda>m. m\<lparr>EventsTotal := count_up result (EventsTotal m)\<rparr>) m"

definition incDLQ :: "string \<Rightarrow> string \<Rightarrow> collectors option \<Rightarrow> collectors option" where
  "incDLQ reason errName m = map_option (\<lambda>m. m\<lparr>DLQTotal := count_up (reason, errName) (DLQTotal m)\<rparr>) m"

definition observeBatchSize :: "nat \<Rightarrow> collectors option \<Rightarrow> collectors option" where
  "observeBatchSize n m = map_option (\<lambda>m. m\<lparr>BatchSizes := BatchSizes m @ [n]\<rparr>) m"

definition observeTBLatency :: "string \<Rightarrow> int \<Rightarrow> collectors option \<Rightarrow> collectors option" where
  "observeTBLatency op d m = map_option (\<lambda>m. m\<lparr>TBLatency := TBLatency m @ [(op, d)]\<rparr>) m"

definition setCommitLag :: "string \<Rightarrow> int \<Rightarrow> int \<Rightarrow> collectors option \<Rightarrow> collectors option" where
  "setCommitLag topic part lag m =
     map_option (\<lambda>m. m\<lparr>CommitLagGauge := (CommitLagGauge m)((topic, itoa part) \<mapsto> lag)\<rparr>) m"

subsection \<open>The sink's calls\<close>

fun call_metric :: "metric \<Rightarrow> collectors option \<Rightarrow> collectors option" where
  "call_metric (IncRecords result) m = incRecords result m"
| "call_metric (IncEvents result) m = incEvents result m"
| "call_metric (IncDLQ reason errName) m = incDLQ reason errName m"
| "call_metric (SetCommitLag topic part lag) m = setCommitLag topic part lag m"

definition scrape :: "metric list \<Rightarrow> collectors option \<Rightarrow> collectors option" where
  "scrape ms m = fold call_metric ms m"

lemmas metric_defs = incRecords_def incEvents_def incDLQ_def setCommitLag_def count_up_def

lemma call_metric_nil: "call_metric c None = None"
  by (cases c) (simp_all add: metric_defs)

lemma scrape_nil: "scrape ms None = None"
  unfolding scrape_def by (induction ms) (simp_all add: call_metric_nil)

lemma scrape_counts:
  "\<exists>m'. scrape ms (Some m) = Some m' \<and>
     (\<forall>l. RecordsTotal m' l = RecordsTotal m l + length (filter (\<lambda>c. c = IncRecords l) ms)) \<and>
     (\<forall>l. EventsTotal m' l = EventsTotal m l + length (filter (\<lambda>c. c = IncEvents l) ms)) \<and>
     (\<forall>r e. DLQTotal m' (r, e) = DLQTotal m (r, e) + length (filter (\<lambda>c. c = IncDLQ r e) ms))"
proof (induction ms arbitrary: m)
  case (Cons c ms)
  obtain m1 where m1: "call_metric c (Some m) = Some m1"
    by (cases c) (auto simp: metric_defs)
  from Cons.IH [of m1] show ?case using m1
    by (cases c) (auto simp: scrape_def metric_defs)
qed (simp add: scrape_def)

text \<open>The counts of the labels add up to the number of calls.\<close>

lemma sum_of_labels:
  assumes "inj f" and "finite L"
  shows "(\<Sum>l \<in> L. length (filter (\<lambda>c. c = f l) ms)) = length (filter (\<lambda>c. c \<in> f ` L) ms)"
proof (induction ms)
  case (Cons c ms)
  have "(\<Sum>l \<in> L. length (filter (\<lambda>c. c = f l) (c # ms))) =
      (\<Sum>l \<in> L. length (filter (\<lambda>c. c = f l) ms)) + (\<Sum>l \<in> L. if c = f l then 1 else 0)"
    by (subst sum.distrib [symmetric]) (intro sum.cong, auto)
  also have "(\<Sum>l \<in> L. if c = f l then 1 else 0) = (if c \<in> f ` L then 1 else 0 :: nat)"
  proof (cases "c \<in> f ` L")
    case True
    then obtain k where k: "k \<in> L" "c = f k" by blast
    have "(\<Sum>l \<in> L. if c = f l then 1 else 0 :: nat) = (\<Sum>l \<in> L. if l = k then 1 else 0)"
      using assms(1) k(2) by (intro sum.cong) (auto simp: inj_eq)
    with True k assms(2) show ?thesis by simp
  qed (auto intro!: sum.neutral)
  finally show ?case using Cons.IH by simp
qed simp

text \<open>
  What is scraped is true: after any run of the sink, \<^verbatim>\<open>kafkatb_records_total\<close> over all results
  but \<^verbatim>\<open>blocked\<close> is the number of records finished, however often each was retried; and a process
  without metrics makes the same calls without effect.
\<close>

theorem records_counter_counts_finished:
  assumes "log_events es" and "w = Run S fuel es new_world"
  shows "(\<exists>m. scrape (metrics w) (Some NewMetrics) = Some m \<and>
       finite {l. l \<noteq> ''blocked'' \<and> RecordsTotal m l \<noteq> 0} \<and>
       (\<Sum>l \<in> {l. l \<noteq> ''blocked'' \<and> RecordsTotal m l \<noteq> 0}. RecordsTotal m l) = length (finals w)) \<and>
     scrape (metrics w) None = None"
proof -
  obtain m where m: "scrape (metrics w) (Some NewMetrics) = Some m"
    "\<forall>l. RecordsTotal m l = length (filter (\<lambda>c. c = IncRecords l) (metrics w))"
    using scrape_counts [of "metrics w" NewMetrics] by (auto simp: NewMetrics_def)
  let ?L = "{l. l \<noteq> ''blocked'' \<and> RecordsTotal m l \<noteq> 0}"
  have "RecordsTotal m l \<noteq> 0 \<longleftrightarrow> IncRecords l \<in> set (metrics w)" for l
    unfolding m(2) [rule_format] by (auto simp: filter_empty_conv)
  then have L: "?L = {l. l \<noteq> ''blocked'' \<and> IncRecords l \<in> set (metrics w)}" by blast
  have inj: "inj IncRecords" by (simp add: inj_def)
  have "finite (IncRecords -` set (metrics w))" by (intro finite_vimageI inj finite_set)
  then have fin: "finite ?L" unfolding L by (rule rev_finite_subset) auto
  have "filter (\<lambda>c. c \<in> IncRecords ` ?L) (metrics w) = filter is_final (metrics w)"
    unfolding L by (rule filter_cong) (auto elim!: is_final.elims)
  then have "(\<Sum>l \<in> ?L. RecordsTotal m l) = final_count w"
    using sum_of_labels [OF inj fin, of "metrics w"] by (simp add: m(2) final_count_def)
  then show ?thesis
    using m(1) fin scrape_nil run_inv [OF assms(1), of S fuel] assms(2) by (auto simp: sink_inv_def)
qed

theorem records_counter_counts_finished_witness:
  "\<exists>m. scrape (metrics demo_world) (Some NewMetrics) = Some m \<and>
     (\<Sum>l \<in> {l. l \<noteq> ''blocked'' \<and> RecordsTotal m l \<noteq> 0}. RecordsTotal m l) = 1"
proof -
  have "length (finals demo_world) = 1" by code_simp
  then show ?thesis
    using records_counter_counts_finished [OF demo_log(1) refl, of demo_sink 30] by auto
qed

end
