(* ===== verification/End_To_End.thy ===== *)
theory End_To_End
  imports Sink_Safety Decoder
begin

section \<open>From a committed offset to TigerBeetle's reply\<close>

text \<open>
  The sink, the decoder and the batcher put together: the sink's decoders are \<^verbatim>\<open>Decode\<close>, and what
  it receives on a channel is what the batcher answered on it. Then a committed record is one
  TigerBeetle has replied to, event by event, or one that is in the dead-letter topic as poison.
\<close>

subsection \<open>Only what was decoded is submitted\<close>

definition submits_decoded :: "'u sink_params \<Rightarrow> 'u world \<Rightarrow> bool" where
  "submits_decoded S w \<longleftrightarrow>
     (\<forall>(rec, c) \<in> set (submits w). \<exists>decode. decoders S (k_Topic rec) = Some decode \<and> decode (k_Value rec) = Ret (Inr c))"

lemma decoded_frame: "submits w' = submits w \<Longrightarrow> submits_decoded S w \<Longrightarrow> submits_decoded S w'"
  by (simp add: submits_decoded_def)

lemma decoded_prepare: "submits_decoded S w \<Longrightarrow> submits_decoded S (snd (prepare S rec w))"
  by (auto simp: submits_decoded_def prepare_def Let_def tick_def split: option.splits call.splits sum.splits)

lemma decoded_submit_loop: "submits_decoded S w \<Longrightarrow> submits_decoded S (snd (submit_loop S recs w))"
proof (induction recs arbitrary: w)
  case (Cons rec recs)
  obtain p w1 where p: "prepare S rec w = (p, w1)" by (cases "prepare S rec w")
  have w1: "submits_decoded S w1" using decoded_prepare [OF Cons.prems, of rec] p by simp
  with Cons.IH [OF w1] Cons.prems p show ?case
    by (auto split: prepared.splits prod.splits) 
qed simp

lemma wait_pubs_submits: "submits (snd (wait_pubs S ps w)) = submits w"
proof (induction ps arbitrary: w)
  case (Cons p ps)
  then show ?case by (auto simp: Let_def split: option.splits prod.splits wait_result.splits)
qed simp

lemma confirm_submits: "submits (snd (snd (confirm S rips w))) = submits w"
proof (induction rips arbitrary: w)
  case (Cons x rips)
  obtain rec ip where x: "x = (rec, ip)" by (cases x)
  obtain r w1 where w1: "wait_pubs S (ip_pubs ip) w = (r, w1)" by (cases "wait_pubs S (ip_pubs ip) w")
  then have "submits w1 = submits w" using wait_pubs_submits [of S "ip_pubs ip" w] by simp
  then show ?case using Cons.IH [of "mark_final rec ip w1"] x w1
    by (auto simp: mark_final_em split: wait_all.splits prod.splits)
qed simp

lemma decoded_pass: "submits_decoded S w \<Longrightarrow> submits_decoded S (snd (snd (pass S recs w)))"
proof -
  assume w: "submits_decoded S w"
  define rs where "rs = (if int (length recs) > maxInFlight S then take (nat (maxInFlight S)) recs else recs)"
  obtain prep w1 where s: "submit_loop S rs w = (prep, w1)" by (cases "submit_loop S rs w")
  obtain issued fe w2 where c: "collect_loop S (zip rs prep) w1 = (issued, fe, w2)"
    by (cases "collect_loop S (zip rs prep) w1")
  obtain m e w3 where k: "confirm S (zip rs issued) w2 = (m, e, w3)" by (cases "confirm S (zip rs issued) w2")
  have "submits_decoded S w1" using decoded_submit_loop [OF w, of rs] s by simp
  moreover have "submits w2 = submits w1" using collect_loop_spec [OF c] submit_loop_spec [OF s] by blast
  moreover have "submits w3 = submits w2" using confirm_submits [of S "zip rs issued" w2] k by simp
  ultimately have "submits_decoded S w3" by (simp add: submits_decoded_def)
  with w s c k show ?thesis by (simp add: pass_def Let_def rs_def [symmetric])
qed

lemma decoded_runPartition: "submits_decoded S w \<Longrightarrow> submits_decoded S (snd (snd (runPartition S fuel recs w)))"
proof (induction S fuel recs w rule: runPartition.induct)
  case (3 S n r rs w)
  obtain applied err w1 where p: "pass S (r # rs) w = (applied, err, w1)" by (cases "pass S (r # rs) w")
  have w1: "submits_decoded S w1" "submits_decoded S (tick w1)"
    using decoded_pass [OF "3.prems", of "r # rs"] p by (simp_all add: submits_decoded_def)
  with "3.IH" "3.prems" p show ?case by (cases err) (auto simp: Let_def)
qed simp_all

lemma decoded_run_groups: "submits_decoded S w \<Longrightarrow> submits_decoded S (snd (run_groups S fuel gs w))"
proof (induction gs arbitrary: w)
  case (Cons g gs)
  obtain ok rest w1 where g: "runPartition S fuel g w = (ok, rest, w1)" by (cases "runPartition S fuel g w")
  have "submits_decoded S w1" using decoded_runPartition [OF Cons.prems, of fuel g] g by simp
  with Cons.IH g show ?case by (auto split: prod.splits) (metis snd_conv)
qed simp

lemma abandon_submits: "submits (abandonBatch w) = submits w"
  by (simp add: abandonBatch_def Let_def)

lemma commit_submits: "submits (commit S w) = submits w"
  by (simp add: commit_alt track_call_def)

lemma revoked_submits: "submits (OnRevoked S revoked w) = submits w"
  by (simp add: OnRevoked_def commit_submits)

lemma decoded_processBatch: "submits_decoded S w \<Longrightarrow> submits_decoded S (processBatch S fuel recs w)"
proof -
  assume w: "submits_decoded S w"
  obtain ab w2 where g: "run_groups S fuel (groupByPartition recs) (tracked recs w) = (ab, w2)"
    by (cases "run_groups S fuel (groupByPartition recs) (tracked recs w)")
  have "submits_decoded S (tracked recs w)" using w by (rule decoded_frame [rotated]) (simp add: tracked_simps)
  then have "submits_decoded S w2" using decoded_run_groups [of S _ fuel "groupByPartition recs"] g by (metis snd_conv)
  then show ?thesis unfolding processBatch_split [OF g] by (simp add: submits_decoded_def abandon_submits)
qed

lemma decoded_Run: "submits_decoded S w \<Longrightarrow> submits_decoded S (Run S fuel es w)"
proof (induction S fuel es w rule: Run.induct)
  case (4 S fuel recs es w)
  have "submits_decoded S (processBatch S fuel recs w)" using "4.prems" by (rule decoded_processBatch)
  with "4.IH" show ?case by (auto simp: Let_def decoded_frame [OF commit_submits])
qed (simp_all add: decoded_frame [OF revoked_submits])

subsection \<open>Outcomes come from a reply\<close>

definition inv_source :: "('u, 'ts, 'as) bstate \<Rightarrow> bool" where
  "inv_source s \<longleftrightarrow>
     (\<forall>i os. Inr os \<in> set (answers s i) \<longrightarrow> (\<exists>b \<in> set (sent s). i \<in> jid ` set (fst b)))"

lemma inv_source_step: "batcher_step P s t \<Longrightarrow> inv_source s \<Longrightarrow> inv_source t"
proof (erule batcher_step_cases)
  show "submit_step P s t \<Longrightarrow> inv_source s \<Longrightarrow> inv_source t"
    by (erule submit_stepE) (auto simp: inv_source_def)
  show "close_step s t \<Longrightarrow> inv_source s \<Longrightarrow> inv_source t"
    by (erule close_stepE) (auto simp: inv_source_def drain_one_def answer_def split: if_splits)
  show "loop_step P s t \<Longrightarrow> inv_source s \<Longrightarrow> inv_source t"
  proof (erule loop_stepE)
    fix k req offs rep
    assume inv: "inv_source s" and t: "t = end_flush k (answer_all (map (result_of P rep (request_size req)) (zip (batch s) offs))
             (s\<lparr>sent := sent s @ [(batch s, req, rep)]\<rparr>))"
    have "i \<in> jid ` set (batch s)" if "Inr os \<in> snd ` {p \<in> set (map (result_of P rep (request_size req)) (zip (batch s) offs)). fst p = i}"
      for i os using that by (auto simp: result_of_def dest: set_zip_leftD)
    then show "inv_source t"
      using inv by (auto simp: inv_source_def t end_flush_def answer_all_eq image_iff)
  qed (auto simp: inv_source_def loop_defs answer_all_eq split: if_splits)
qed

lemma inv_source_reaches: "batcher_reaches P s \<Longrightarrow> inv_source s"
proof (erule reachable_invariant)
  show "inv_source NewBatcher" by (simp add: inv_source_def NewBatcher_def)
qed (rule inv_source_step)

context result_mapping
begin

lemma mapping_Inr:
  assumes "ids_match c" and "mapping c rs (int off) n = Inr os"
  shows "length rs = n" and "os = map (\<lambda>i. outcome_of api prefix c i (rs ! (off + i))) [0..<Len c]"
proof -
  show len: "length rs = n" using wrong_count [OF assms(1)] assms(2) by force
  have "off + Len c \<le> n" using outside [OF assms(1) len, of "int off"] assms(2) by force
  then show "os = map (\<lambda>i. outcome_of api prefix c i (rs ! (off + i))) [0..<Len c]"
    using window [OF assms(1) len] assms(2) by force
qed

end

text \<open>
  The command was job \<open>k\<close> of a batch TigerBeetle replied to with a result for each event: the
  request held exactly the command's events at the job's offset, and the outcomes are read from the
  results there.
\<close>

definition applied :: "('ts, 'as) batcher_params \<Rightarrow> ('u, 'ts, 'as) bstate \<Rightarrow> 'u command \<Rightarrow> outcome list \<Rightarrow> bool" where
  "applied P s c os \<longleftrightarrow>
     (\<exists>js req rep k. (js, req, rep) \<in> set (sent s) \<and> k < length js \<and> cmd (js ! k) = c \<and>
        (case (req, rep) of
           (TransfersReq es, TransfersReply rs) \<Rightarrow> length rs = length es \<and>
             os = map (\<lambda>i. outcome_of (transfer_api P) ''Transfer'' c i (rs ! (offset_of js k + i))) [0..<Len c] \<and>
             (\<forall>i < Len c. es ! (offset_of js k + i) = Transfers c ! i)
         | (AccountsReq es, AccountsReply rs) \<Rightarrow> length rs = length es \<and>
             os = map (\<lambda>i. outcome_of (account_api P) ''Account'' c i (rs ! (offset_of js k + i))) [0..<Len c] \<and>
             (\<forall>i < Len c. es ! (offset_of js k + i) = Accounts c ! i)
         | _ \<Rightarrow> False))"

text \<open>The decoder already cleared the chain bit that the batcher clears.\<close>

definition chain_closed :: "'u command \<Rightarrow> bool" where
  "chain_closed c \<longleftrightarrow>
     (Transfers c \<noteq> [] \<longrightarrow> \<not> bit (t_Flags (last (Transfers c))) 0) \<and>
     (Accounts c \<noteq> [] \<longrightarrow> \<not> bit (a_Flags (last (Accounts c))) 0)"

lemma clear_linked_open:
  "\<not> bit (t_Flags t) 0 \<Longrightarrow> clear_linked_transfer t = t" "\<not> bit (a_Flags a) 0 \<Longrightarrow> clear_linked_account a = a"
  using clearLinked_same [of "t_Flags t"] clearLinked_same [of "a_Flags a"]
  by (simp_all add: clear_linked_transfer_def clear_linked_account_def linkedBit_def clearLinked_def)

lemma closed_events:
  assumes "chain_closed (cmd j)"
  shows "i < length (Transfers (cmd j)) \<Longrightarrow> transfers_of j ! i = Transfers (cmd j) ! i"
    and "i < length (Accounts (cmd j)) \<Longrightarrow> accounts_of j ! i = Accounts (cmd j) ! i"
proof -
  show "transfers_of j ! i = Transfers (cmd j) ! i" if i: "i < length (Transfers (cmd j))"
  proof (cases "Suc i = length (Transfers (cmd j))")
    case True
    then have "last (Transfers (cmd j)) = Transfers (cmd j) ! i" using i by (cases "Transfers (cmd j)" rule: rev_cases) auto
    moreover have "Transfers (cmd j) \<noteq> []" using i by auto
    ultimately show ?thesis using assms i True by (auto simp: chain_closed_def nth_events_of clear_linked_open)
  qed (use i in \<open>simp add: nth_events_of\<close>)
  show "accounts_of j ! i = Accounts (cmd j) ! i" if i: "i < length (Accounts (cmd j))"
  proof (cases "Suc i = length (Accounts (cmd j))")
    case True
    then have "last (Accounts (cmd j)) = Accounts (cmd j) ! i" using i by (cases "Accounts (cmd j)" rule: rev_cases) auto
    moreover have "Accounts (cmd j) \<noteq> []" using i by auto
    ultimately show ?thesis using assms i True by (auto simp: chain_closed_def nth_events_of clear_linked_open)
  qed (use i in \<open>simp add: nth_events_of\<close>)
qed

lemma outcomes_are_applied:
  assumes reach: "batcher_reaches P s" and ans: "Inr os \<in> set (answers s i)"
    and job: "\<And>j. j \<in> set (accepted s) \<Longrightarrow> jid j = i \<Longrightarrow> cmd j = c"
    and c: "ids_match c" "chain_closed c"
  shows "applied P s c os"
proof -
  obtain js req rep j where b: "(js, req, rep) \<in> set (sent s)" "j \<in> set js" "jid j = i"
    using inv_source_reaches [OF reach] ans by (fastforce simp: inv_source_def)
  then obtain k where k: "k < length js" "js ! k = j" by (auto simp: in_set_conv_nth)
  have "set js \<subseteq> set (accepted s)"
    using sent_handled [OF inv_sent_reaches [OF reach] b(1)] inv_flow_reaches [OF reach] by (auto simp: inv_flow_def)
  then have cmd: "cmd (js ! k) = c" using job b k by auto
  obtain op where op: "run_of op js" "reply_fits req rep"
    "req = (if op = OpCreateAccounts then AccountsReq (concat (map accounts_of js))
            else TransfersReq (concat (map transfers_of js)))"
    "answers s (jid (js ! k)) = [snd (result_of P rep (request_size req) (js ! k, offset_of js k))]"
    using replied_answer [OF reach b(1) k(1)] .
  have os: "map_reply P rep c (offset_of js k) (request_size req) = Inr os"
    using ans op(4) b(3) k(2) cmd by (auto simp: result_of_def split: sum.splits)
  note run = op(1) [unfolded run_of_def, rule_format, OF nth_mem [OF k(1)], unfolded cmd]
  show ?thesis
  proof (cases "op = OpCreateAccounts")
    case True
    then obtain rs where rep: "rep = AccountsReply rs" using op(2,3) by (cases rep) auto
    note block = offset_of_block [OF block_lengths(1) k(1), OF op(1) [unfolded True]]
    have "Len c = length (Accounts c)" using run True by (simp add: Len_def)
    moreover note map = account_results.mapping_Inr [OF c(1), of "account_api P" rs "offset_of js k" "request_size req" os]
    ultimately show ?thesis
      using True op(3) rep block(3) os closed_events(2) [of "js ! k"] c(2) cmd b(1) k(1) unfolding applied_def
      by (intro exI [of _ js] exI [of _ req] exI [of _ rep] exI [of _ k]) (simp del: length_concat)
  next
    case False
    then obtain rs where rep: "rep = TransfersReply rs" using op(2,3) by (cases rep) auto
    note block = offset_of_block [OF block_lengths(2) k(1), OF op(1) False]
    have "Len c = length (Transfers c)" using run False by (simp add: Len_def)
    moreover note map = transfer_results.mapping_Inr [OF c(1), of "transfer_api P" rs "offset_of js k" "request_size req" os]
    ultimately show ?thesis
      using False op(3) rep block(3) os closed_events(1) [of "js ! k"] c(2) cmd b(1) k(1) unfolding applied_def
      by (intro exI [of _ js] exI [of _ req] exI [of _ rep] exI [of _ k]) (simp del: length_concat)
  qed
qed

subsection \<open>The parts together\<close>

text \<open>
  The sink's decoder of a topic is the repository's, with the registry and limits \<open>dcfg\<close> gives the
  topic, over some text for each poison.
\<close>

definition decodes_with :: "'u decode_lib \<Rightarrow> (string \<Rightarrow> decoder) \<Rightarrow> 'u sink_params \<Rightarrow> bool" where
  "decodes_with D dcfg S \<longleftrightarrow>
     (\<forall>topic decode. decoders S topic = Some decode \<longrightarrow>
        (\<exists>text. \<forall>v. decode v = Ret (mapE text (Decode D (dcfg topic) v))))"

text \<open>
  What the sink receives on a channel is an answer the batcher gave on it, in a run that ends in
  \<open>s\<close> and in which the jobs are the sink's submissions.
\<close>

definition served_by :: "('ts, 'as) batcher_params \<Rightarrow> 'u sink_params \<Rightarrow> 'u world \<Rightarrow> ('u, 'ts, 'as) bstate \<Rightarrow> bool" where
  "served_by P S w s \<longleftrightarrow> batcher_reaches P s \<and>
     (\<forall>t c os. outcome_at S t c = Some (Inr os) \<longrightarrow> Inr os \<in> set (answers s c)) \<and>
     (\<forall>j \<in> set (accepted s). jid j < length (submits w) \<longrightarrow> cmd j = snd (submits w ! jid j))"

lemma decoded_closed:
  assumes "libs_ok D" and "Decode D d v = Inr c"
  shows "ids_match c \<and> chain_closed c"
  using Decode_sound [OF assms]
  by (auto simp: ids_match_def chain_closed_def transfers_of_message_def accounts_of_message_def Len_def
      OpCreateTransfers_def OpCreateAccounts_def last_conv_nth)

lemma genuine_applied:
  assumes "submits_decoded S w" and "decodes_with D dcfg S" and "libs_ok D" and "served_by P S w s" and "genuine S w rec os"
  shows "\<exists>c. Decode D (dcfg (k_Topic rec)) (k_Value rec) = Inr c \<and> applied P s c os"
proof -
  obtain t i where g: "outcome_at S t i = Some (Inr os)" "i < length (submits w)" "fst (submits w ! i) = rec"
    using assms(5) by (auto simp: genuine_def)
  define c where "c = snd (submits w ! i)"
  have "(rec, c) \<in> set (submits w)" using g(2,3) c_def by (metis nth_mem prod.collapse)
  then obtain decode where "decoders S (k_Topic rec) = Some decode" "decode (k_Value rec) = Ret (Inr c)"
    using assms(1) by (auto simp: submits_decoded_def)
  then have d: "Decode D (dcfg (k_Topic rec)) (k_Value rec) = Inr c"
    using assms(2) by (fastforce simp: decodes_with_def)
  have "applied P s c os"
  proof (rule outcomes_are_applied)
    show "batcher_reaches P s" "Inr os \<in> set (answers s i)" using assms(4) g(1) by (auto simp: served_by_def)
    show "cmd j = c" if "j \<in> set (accepted s)" "jid j = i" for j
      using assms(4) that g(2) by (auto simp: served_by_def c_def)
  qed (use decoded_closed [OF assms(3) d] in auto)
  with d show ?thesis by blast
qed

text \<open>
  The record is poison in the dead-letter topic; or the decoder of its topic makes of its value a
  command TigerBeetle has replied to, whose outcomes are in the results topic (unless that is disabled), with a dead letter
  for each rejected event.
\<close>

definition accounted :: "('ts, 'as) batcher_params \<Rightarrow> ('u, 'ts, 'as) bstate \<Rightarrow> 'u decode_lib \<Rightarrow>
    (string \<Rightarrow> decoder) \<Rightarrow> 'u sink_params \<Rightarrow> 'u world \<Rightarrow> krecord \<Rightarrow> nat list \<Rightarrow> bool" where
  "accounted P s D dcfg S w rec qs \<longleftrightarrow>
     (\<exists>q \<in> set qs. \<exists>err detail. dead_lettered (emit_p S) (em w) rec ReasonPoison err detail q) \<or>
     (\<exists>cm os. Decode D (dcfg (k_Topic rec)) (k_Value rec) = Inr cm \<and> applied P s cm os \<and>
        (\<exists>q \<in> set qs. results_out (emit_p S) (em w) rec os q) \<and>
        (\<forall>o' \<in> set os. Status o' = StatusRejected \<longrightarrow>
           (\<exists>q \<in> set qs. dead_lettered (emit_p S) (em w) rec ReasonReject (Error o') (reject_detail o') q)))"

lemma answered_accounted:
  assumes "submits_decoded S w" and "decodes_with D dcfg S" and "libs_ok D" and "served_by P S w s" and "answered S w rec qs"
  shows "accounted P s D dcfg S w rec qs"
proof -
  from assms(5) consider
    "\<exists>q \<in> set qs. \<exists>err detail. dead_lettered (emit_p S) (em w) rec ReasonPoison err detail q"
  | os where "genuine S w rec os" "\<exists>q \<in> set qs. results_out (emit_p S) (em w) rec os q"
      "\<forall>o' \<in> set os. Status o' = StatusRejected \<longrightarrow>
         (\<exists>q \<in> set qs. dead_lettered (emit_p S) (em w) rec ReasonReject (Error o') (reject_detail o') q)"
    unfolding answered_def by blast
  then show ?thesis
  proof cases
    case (2 os)
    then show ?thesis using genuine_applied [OF assms(1-4) 2(1)] unfolding accounted_def by meson
  qed (simp add: accounted_def)
qed

text \<open>
  C1: end to end: when the sink commits an offset, every record of the assignment below it is
  finished with all its publications acknowledged by the broker, and is either a poison dead
  letter or decoded, by the decoder of its topic, to a command that TigerBeetle has replied to:
  the request held exactly the command's events at its place, each event's result is the outcome
  published for it, and each rejected event has its dead letter. No committed record is unaccounted for.
\<close>

theorem committed_records_were_applied:
  assumes "log_events es" and "w = Run S fuel es new_world"
    and "commits (commit S w) = commits w @ [c]" and "get2 c t p = Some eo"
    and "decodes_with D dcfg S" and "libs_ok D" and "served_by P S w s"
  shows "\<exists>ps. spec_after (hist w) (t, p) = Some ps \<and> eo_Offset eo - 1 \<in> seen ps \<and>
     (\<forall>x \<in> seen ps. x < eo_Offset eo \<longrightarrow>
        (\<exists>rec qs. (rec, qs) \<in> set (finals w) \<and> key_of rec = (t, p) \<and> k_Offset rec = x \<and>
           (\<forall>q \<in> set qs. acked (em w) q) \<and> accounted P s D dcfg S w rec qs))"
proof -
  have dec: "submits_decoded S w"
    unfolding assms(2) by (rule decoded_Run) (simp add: submits_decoded_def new_world_def)
  show ?thesis
    using commit_published [OF assms(1-4)] answered_accounted [OF dec assms(5-7)] by meson
qed

subsection \<open>A run of the whole\<close>

text \<open>One account to create, decoded, sent alone and created; its record is committed.\<close>

definition account_text :: json_account where
  "account_text = \<lparr> ja_ID = demo_id 7, ja_Ledger = ''USD'', ja_Code = ''payment'', ja_Flags = Some [''linked''], ja_UserData128 = [],
     ja_UserData64 = 0, ja_UserData32 = 0 \<rparr>"

definition account_decode :: "128 word decode_lib" where
  "account_decode = demo_decode\<lparr>unmarshal_message := (\<lambda>_. Inr (Inr
     \<lparr> Operation = OpCreateAccounts, jm_Transfers = None, jm_Accounts = Some [account_text] \<rparr>))\<rparr>"

definition account_cmd :: "128 word command" where
  "account_cmd = \<lparr> Op = OpCreateAccounts, Transfers = [],
     Accounts = [\<lparr> a_ID = 7, a_UserData128 = 0, a_UserData64 = 0, a_UserData32 = 0, a_Ledger = 1, a_Code = 1, a_Flags = 0 \<rparr>],
     IDs = [demo_id 7] \<rparr>"

definition created :: outcome where
  "created = \<lparr> Index = 0, ID = demo_id 7, Status = StatusOK, Error = [], Timestamp = 5 \<rparr>"

definition whole_sink :: "128 word sink_params" where
  "whole_sink = \<lparr> decoders = (\<lambda>topic. if topic = ''t''
        then Some (\<lambda>v. Ret (mapE (\<lambda>_. ''poison'') (Decode account_decode demo_decoder v))) else None),
     emit_p = emit_p demo_sink, Quote = id, maxInFlight = 1000, clock = int, ctx_err = (\<lambda>_. False),
     expired = (\<lambda>t. 20 \<le> t), submit_at = (\<lambda>_. Ret None),
     outcome_at = (\<lambda>_ c. if c = 0 then Some (Inr [created]) else None),
     callbacks_at = (\<lambda>_. [(0, None)]), is_ctx_err = (\<lambda>_ _. False),
     panic_at = (\<lambda>_. None), retry_fits = (\<lambda>_. False), backoff_ok = (\<lambda>_. True), flush_err = (\<lambda>_. None),
     commit_resp = (\<lambda>_. Inr []), commit_due = (\<lambda>_. False) \<rparr>"

abbreviation whole_world :: "128 word world" where
  "whole_world \<equiv> Run whole_sink 30 [Fetched [rec_at 5]] new_world"

definition whole_batcher :: "(128 word, nat, nat) bstate" where
  "whole_batcher = the (run demo_params
     [Submit 0 account_cmd, Observe_open 0, Enqueue 0, Observe_open 0, Begin, Receive, Proceed, Proceed,
      Reply (AccountsReply [\<lparr> r_Timestamp = 5, r_Status = 0 \<rparr>])] NewBatcher)"

lemma whole_before: "commits whole_world = []"
  by code_simp

lemma whole_after: "commits (commit whole_sink whole_world) = [[(''t'', [(0, \<lparr> eo_Epoch = 3, eo_Offset = 6 \<rparr>)])]]"
  by code_simp

lemma whole_commits:
  "commits (commit whole_sink whole_world) = commits whole_world @ [[(''t'', [(0, \<lparr> eo_Epoch = 3, eo_Offset = 6 \<rparr>)])]]"
  by (simp only: whole_before whole_after append_Nil)

lemma whole_submits: "map snd (submits whole_world) = [account_cmd]"
  by code_simp

lemma whole_answers: "answers whole_batcher 0 = [Inr [created]]"
  by code_simp

lemma whole_accepted: "accepted whole_batcher = [\<lparr> jid = 0, cmd = account_cmd \<rparr>]"
  by code_simp

lemmas whole_facts = whole_commits whole_submits whole_answers whole_accepted

lemma whole_reaches: "batcher_reaches demo_params whole_batcher"
proof (rule run_reaches)
  let ?acts = "[Submit 0 account_cmd, Observe_open 0, Enqueue 0, Observe_open 0, Begin, Receive, Proceed, Proceed,
      Reply (AccountsReply [\<lparr> r_Timestamp = 5, r_Status = 0 \<rparr>])]"
  have "run demo_params ?acts NewBatcher \<noteq> None" by code_simp
  then show "run demo_params ?acts NewBatcher = Some whole_batcher" by (auto simp: whole_batcher_def)
qed (rule reachable.start)

lemma whole_served: "served_by demo_params whole_sink whole_world whole_batcher"
proof -
  have "Inr os \<in> set (answers whole_batcher c)" if "outcome_at whole_sink t c = Some (Inr os)" for t c os
    using that by (auto simp: whole_sink_def whole_facts split: if_splits)
  moreover have "snd (submits whole_world ! 0) = account_cmd" if "0 < length (submits whole_world)"
    using arg_cong [OF whole_facts(2), of hd] that by (simp add: hd_map hd_conv_nth)
  ultimately show ?thesis using whole_reaches by (simp add: served_by_def whole_facts)
qed

theorem committed_records_were_applied_witness:
  "\<exists>ps. spec_after (hist whole_world) (''t'', 0) = Some ps \<and> 5 \<in> seen ps \<and>
     (\<forall>x \<in> seen ps. x < 6 \<longrightarrow>
        (\<exists>rec qs. (rec, qs) \<in> set (finals whole_world) \<and> k_Offset rec = x \<and>
           accounted demo_params whole_batcher account_decode (\<lambda>_. demo_decoder) whole_sink whole_world rec qs))"
proof -
  have libs: "libs_ok account_decode" using demo_decode_ok by (simp add: libs_ok_def account_decode_def)
  have dec: "decodes_with account_decode (\<lambda>_. demo_decoder) whole_sink" by (auto simp: decodes_with_def whole_sink_def)
  show ?thesis
    using committed_records_were_applied [OF demo_log(1) refl whole_facts(1) _ dec libs whole_served,
        of "''t''" 0 "\<lparr> eo_Epoch = 3, eo_Offset = 6 \<rparr>"]
    by (simp add: get2_def) blast
qed

end
