(* ===== verification/Cdc_Json.thy ===== *)
theory Cdc_Json
  imports Json_Text Cdc_Message
begin

section \<open>The change-event message: \<^verbatim>\<open>internal/cdc/message_easyjson.go\<close>\<close>

text \<open>
  The generated reader and writer of \<^verbatim>\<open>Transfer\<close>, \<^verbatim>\<open>Account\<close> and \<^verbatim>\<open>Message\<close>. For each struct: its zero
  value, the switch of its reader, its writer, the table of its fields and the document it is
  written as, and the interpretation that says the four agree.
\<close>

subsection \<open>\<^verbatim>\<open>Transfer\<close>\<close>

definition Transfer_zero :: transfer_msg where
  "Transfer_zero =
     \<lparr> tm_ID = [], tm_Amount = [], tm_PendingID = [], tm_UserData128 = [], tm_UserData64 = 0,
     tm_UserData32 = 0, tm_Timeout = [], tm_Code = [], tm_Flags = None, tm_Timestamp = [] \<rparr>"

definition Transfer_field :: "'l jlexer \<Rightarrow> string \<Rightarrow> ('l, transfer_msg) handler" where
  "Transfer_field L key =
     (if key = ''id'' then scalar L (jl_String L) (\<lambda>v. tm_ID_update (\<lambda>_. v))
      else if key = ''amount'' then scalar L (jl_String L) (\<lambda>v. tm_Amount_update (\<lambda>_. v))
      else if key = ''pending_id'' then scalar L (jl_String L) (\<lambda>v. tm_PendingID_update (\<lambda>_. v))
      else if key = ''user_data_128'' then scalar L (jl_String L) (\<lambda>v. tm_UserData128_update (\<lambda>_. v))
      else if key = ''user_data_64'' then scalar L (jl_Uint64 L) (\<lambda>v. tm_UserData64_update (\<lambda>_. v))
      else if key = ''user_data_32'' then scalar L (jl_Uint32 L) (\<lambda>v. tm_UserData32_update (\<lambda>_. v))
      else if key = ''timeout'' then scalar L (jl_String L) (\<lambda>v. tm_Timeout_update (\<lambda>_. v))
      else if key = ''code'' then scalar L (jl_String L) (\<lambda>v. tm_Code_update (\<lambda>_. v))
      else if key = ''flags'' then slice_field L (string_item L) [] tm_Flags (\<lambda>v. tm_Flags_update (\<lambda>_. v))
      else if key = ''timestamp'' then scalar L (jl_String L) (\<lambda>v. tm_Timestamp_update (\<lambda>_. v))
      else unknown_field L key)"

definition Transfer_Decode :: "'l jlexer \<Rightarrow> ('l, transfer_msg) handler" where
  "Transfer_Decode L = decode_object L (Transfer_field L)"

definition Transfer_Encode :: "json_writer \<Rightarrow> transfer_msg \<Rightarrow> string" where
  "Transfer_Encode W v =
     ''{'' @ tl (member_prefix ''id'') @ jw_String W (tm_ID v) @
     member_prefix ''amount'' @ jw_String W (tm_Amount v) @
     (if tm_PendingID v \<noteq> [] then member_prefix ''pending_id'' @ jw_String W (tm_PendingID v) else []) @
     (if tm_UserData128 v \<noteq> [] then member_prefix ''user_data_128'' @ jw_String W (tm_UserData128 v) else []) @
     (if tm_UserData64 v \<noteq> 0 then member_prefix ''user_data_64'' @ write_uint (tm_UserData64 v) else []) @
     (if tm_UserData32 v \<noteq> 0 then member_prefix ''user_data_32'' @ write_uint (tm_UserData32 v) else []) @
     (if tm_Timeout v \<noteq> [] then member_prefix ''timeout'' @ jw_String W (tm_Timeout v) else []) @
     member_prefix ''code'' @ jw_String W (tm_Code v) @
     member_prefix ''flags'' @ write_slice W (jw_String W) (tm_Flags v) @
     member_prefix ''timestamp'' @ jw_String W (tm_Timestamp v) @ ''}''"

definition Transfer_MarshalJSON :: "json_writer \<Rightarrow> transfer_msg \<Rightarrow> string" where
  "Transfer_MarshalJSON W v = Transfer_Encode (new_writer W) v"

definition Transfer_UnmarshalJSON :: "'l jlexer \<Rightarrow> string \<Rightarrow> transfer_msg \<Rightarrow> (string + transfer_msg) option" where
  "Transfer_UnmarshalJSON L = unmarshal_json L (Transfer_Decode L)"

definition Transfer_table :: "(string \<times> (json \<Rightarrow> transfer_msg \<Rightarrow> transfer_msg option)) list" where
  "Transfer_table =
     [(''id'', read_scalar string_token (\<lambda>v. tm_ID_update (\<lambda>_. v))),
      (''amount'', read_scalar string_token (\<lambda>v. tm_Amount_update (\<lambda>_. v))),
      (''pending_id'', read_scalar string_token (\<lambda>v. tm_PendingID_update (\<lambda>_. v))),
      (''user_data_128'', read_scalar string_token (\<lambda>v. tm_UserData128_update (\<lambda>_. v))),
      (''user_data_64'', read_scalar (uint_token 64) (\<lambda>v. tm_UserData64_update (\<lambda>_. v))),
      (''user_data_32'', read_scalar (uint_token 32) (\<lambda>v. tm_UserData32_update (\<lambda>_. v))),
      (''timeout'', read_scalar string_token (\<lambda>v. tm_Timeout_update (\<lambda>_. v))),
      (''code'', read_scalar string_token (\<lambda>v. tm_Code_update (\<lambda>_. v))),
      (''flags'', read_slice read_string [] (\<lambda>v. tm_Flags_update (\<lambda>_. v))),
      (''timestamp'', read_scalar string_token (\<lambda>v. tm_Timestamp_update (\<lambda>_. v)))]"

definition Transfer_json :: "json_writer \<Rightarrow> transfer_msg \<Rightarrow> json" where
  "Transfer_json W v = JObject
      ([(''id'', JString (tm_ID v)), (''amount'', JString (tm_Amount v))] @
       optional (tm_PendingID v \<noteq> []) (''pending_id'', JString (tm_PendingID v)) @
       optional (tm_UserData128 v \<noteq> []) (''user_data_128'', JString (tm_UserData128 v)) @
       optional (tm_UserData64 v \<noteq> 0) (''user_data_64'', uint_json (tm_UserData64 v)) @
       optional (tm_UserData32 v \<noteq> 0) (''user_data_32'', uint_json (tm_UserData32 v)) @
       optional (tm_Timeout v \<noteq> []) (''timeout'', JString (tm_Timeout v)) @
       [(''code'', JString (tm_Code v)), (''flags'', slice_json W JString (tm_Flags v)),
       (''timestamp'', JString (tm_Timestamp v))])"

definition Transfer_cleaned :: "(string \<Rightarrow> string) \<Rightarrow> transfer_msg \<Rightarrow> transfer_msg" where
  "Transfer_cleaned clean v =
     \<lparr> tm_ID = clean (tm_ID v), tm_Amount = clean (tm_Amount v),
     tm_PendingID = clean (tm_PendingID v), tm_UserData128 = clean (tm_UserData128 v),
     tm_UserData64 = tm_UserData64 v, tm_UserData32 = tm_UserData32 v, tm_Timeout = clean (tm_Timeout v),
     tm_Code = clean (tm_Code v), tm_Flags = map_option (map clean) (tm_Flags v),
     tm_Timestamp = clean (tm_Timestamp v) \<rparr>"

lemma Transfer_follows:
  "lexer_reads L left rdy aft \<Longrightarrow> lexer_stops L left \<Longrightarrow> sim left rdy aft (Transfer_field L k) (in_schema Transfer_table k)"
  unfolding Transfer_field_def Transfer_table_def by (intro switch_sims)

lemma Transfer_returns: "lexer_stops L left \<Longrightarrow> total left (Transfer_field L k)"
  unfolding Transfer_field_def by (intro switch_totals)

lemma Transfer_writes:
  assumes "writes_plainly W clean"
  shows "Transfer_Encode W v = json_text W (Transfer_json W v)"
proof -
  have "list_all (\<lambda>m. list_all plain (fst m)) (case Transfer_json W v of JObject ms \<Rightarrow> ms)"
    by (simp add: Transfer_json_def optional_def)
  then show ?thesis
    by (simp add: Transfer_json_def Transfer_Encode_def object_text [OF assms] member_text_simps slice_text uint_text
        del: json_text.simps(6))
qed

lemma Transfer_rereads:
  assumes "writes_plainly W clean" and "\<not> jw_NilSliceAsEmpty W"
  shows "read_object (in_schema Transfer_table) (clean_json clean (Transfer_json W v)) Transfer_zero = Some (Transfer_cleaned clean v)"
proof -
  have keys: "clean s = s" if "list_all plain s" for s using assms(1) that by (simp add: writes_plainly_def)
  show ?thesis
    using assms(2)
    by (simp add: Transfer_json_def Transfer_table_def Transfer_zero_def Transfer_cleaned_def clean_JObject keys optional_def)
qed

interpretation Transfer_code: generated_codec Transfer_field Transfer_table Transfer_Encode Transfer_json Transfer_zero Transfer_cleaned
    "\<lambda>_. True"
  by unfold_locales (simp_all add: Transfer_follows Transfer_returns Transfer_writes Transfer_rereads, simp_all add: Transfer_json_def)

subsection \<open>\<^verbatim>\<open>Account\<close>\<close>

definition Account_zero :: account_msg where
  "Account_zero =
     \<lparr> am_ID = [], am_DebitsPending = [], am_DebitsPosted = [], am_CreditsPending = [],
     am_CreditsPosted = [], am_UserData128 = [], am_UserData64 = 0, am_UserData32 = 0, am_Code = [],
     am_Flags = None, am_Timestamp = [] \<rparr>"

definition Account_field :: "'l jlexer \<Rightarrow> string \<Rightarrow> ('l, account_msg) handler" where
  "Account_field L key =
     (if key = ''id'' then scalar L (jl_String L) (\<lambda>v. am_ID_update (\<lambda>_. v))
      else if key = ''debits_pending'' then scalar L (jl_String L) (\<lambda>v. am_DebitsPending_update (\<lambda>_. v))
      else if key = ''debits_posted'' then scalar L (jl_String L) (\<lambda>v. am_DebitsPosted_update (\<lambda>_. v))
      else if key = ''credits_pending'' then scalar L (jl_String L) (\<lambda>v. am_CreditsPending_update (\<lambda>_. v))
      else if key = ''credits_posted'' then scalar L (jl_String L) (\<lambda>v. am_CreditsPosted_update (\<lambda>_. v))
      else if key = ''user_data_128'' then scalar L (jl_String L) (\<lambda>v. am_UserData128_update (\<lambda>_. v))
      else if key = ''user_data_64'' then scalar L (jl_Uint64 L) (\<lambda>v. am_UserData64_update (\<lambda>_. v))
      else if key = ''user_data_32'' then scalar L (jl_Uint32 L) (\<lambda>v. am_UserData32_update (\<lambda>_. v))
      else if key = ''code'' then scalar L (jl_String L) (\<lambda>v. am_Code_update (\<lambda>_. v))
      else if key = ''flags'' then slice_field L (string_item L) [] am_Flags (\<lambda>v. am_Flags_update (\<lambda>_. v))
      else if key = ''timestamp'' then scalar L (jl_String L) (\<lambda>v. am_Timestamp_update (\<lambda>_. v))
      else unknown_field L key)"

definition Account_Decode :: "'l jlexer \<Rightarrow> ('l, account_msg) handler" where
  "Account_Decode L = decode_object L (Account_field L)"

definition Account_Encode :: "json_writer \<Rightarrow> account_msg \<Rightarrow> string" where
  "Account_Encode W v =
     ''{'' @ tl (member_prefix ''id'') @ jw_String W (am_ID v) @
     member_prefix ''debits_pending'' @ jw_String W (am_DebitsPending v) @
     member_prefix ''debits_posted'' @ jw_String W (am_DebitsPosted v) @
     member_prefix ''credits_pending'' @ jw_String W (am_CreditsPending v) @
     member_prefix ''credits_posted'' @ jw_String W (am_CreditsPosted v) @
     (if am_UserData128 v \<noteq> [] then member_prefix ''user_data_128'' @ jw_String W (am_UserData128 v) else []) @
     (if am_UserData64 v \<noteq> 0 then member_prefix ''user_data_64'' @ write_uint (am_UserData64 v) else []) @
     (if am_UserData32 v \<noteq> 0 then member_prefix ''user_data_32'' @ write_uint (am_UserData32 v) else []) @
     member_prefix ''code'' @ jw_String W (am_Code v) @
     member_prefix ''flags'' @ write_slice W (jw_String W) (am_Flags v) @
     member_prefix ''timestamp'' @ jw_String W (am_Timestamp v) @ ''}''"

definition Account_MarshalJSON :: "json_writer \<Rightarrow> account_msg \<Rightarrow> string" where
  "Account_MarshalJSON W v = Account_Encode (new_writer W) v"

definition Account_UnmarshalJSON :: "'l jlexer \<Rightarrow> string \<Rightarrow> account_msg \<Rightarrow> (string + account_msg) option" where
  "Account_UnmarshalJSON L = unmarshal_json L (Account_Decode L)"

definition Account_table :: "(string \<times> (json \<Rightarrow> account_msg \<Rightarrow> account_msg option)) list" where
  "Account_table =
     [(''id'', read_scalar string_token (\<lambda>v. am_ID_update (\<lambda>_. v))),
      (''debits_pending'', read_scalar string_token (\<lambda>v. am_DebitsPending_update (\<lambda>_. v))),
      (''debits_posted'', read_scalar string_token (\<lambda>v. am_DebitsPosted_update (\<lambda>_. v))),
      (''credits_pending'', read_scalar string_token (\<lambda>v. am_CreditsPending_update (\<lambda>_. v))),
      (''credits_posted'', read_scalar string_token (\<lambda>v. am_CreditsPosted_update (\<lambda>_. v))),
      (''user_data_128'', read_scalar string_token (\<lambda>v. am_UserData128_update (\<lambda>_. v))),
      (''user_data_64'', read_scalar (uint_token 64) (\<lambda>v. am_UserData64_update (\<lambda>_. v))),
      (''user_data_32'', read_scalar (uint_token 32) (\<lambda>v. am_UserData32_update (\<lambda>_. v))),
      (''code'', read_scalar string_token (\<lambda>v. am_Code_update (\<lambda>_. v))),
      (''flags'', read_slice read_string [] (\<lambda>v. am_Flags_update (\<lambda>_. v))),
      (''timestamp'', read_scalar string_token (\<lambda>v. am_Timestamp_update (\<lambda>_. v)))]"

definition Account_json :: "json_writer \<Rightarrow> account_msg \<Rightarrow> json" where
  "Account_json W v = JObject
      ([(''id'', JString (am_ID v)), (''debits_pending'', JString (am_DebitsPending v)),
       (''debits_posted'', JString (am_DebitsPosted v)),
       (''credits_pending'', JString (am_CreditsPending v)),
       (''credits_posted'', JString (am_CreditsPosted v))] @
       optional (am_UserData128 v \<noteq> []) (''user_data_128'', JString (am_UserData128 v)) @
       optional (am_UserData64 v \<noteq> 0) (''user_data_64'', uint_json (am_UserData64 v)) @
       optional (am_UserData32 v \<noteq> 0) (''user_data_32'', uint_json (am_UserData32 v)) @
       [(''code'', JString (am_Code v)), (''flags'', slice_json W JString (am_Flags v)),
       (''timestamp'', JString (am_Timestamp v))])"

definition Account_cleaned :: "(string \<Rightarrow> string) \<Rightarrow> account_msg \<Rightarrow> account_msg" where
  "Account_cleaned clean v =
     \<lparr> am_ID = clean (am_ID v), am_DebitsPending = clean (am_DebitsPending v),
     am_DebitsPosted = clean (am_DebitsPosted v), am_CreditsPending = clean (am_CreditsPending v),
     am_CreditsPosted = clean (am_CreditsPosted v), am_UserData128 = clean (am_UserData128 v),
     am_UserData64 = am_UserData64 v, am_UserData32 = am_UserData32 v, am_Code = clean (am_Code v),
     am_Flags = map_option (map clean) (am_Flags v), am_Timestamp = clean (am_Timestamp v) \<rparr>"

lemma Account_follows:
  "lexer_reads L left rdy aft \<Longrightarrow> lexer_stops L left \<Longrightarrow> sim left rdy aft (Account_field L k) (in_schema Account_table k)"
  unfolding Account_field_def Account_table_def by (intro switch_sims)

lemma Account_returns: "lexer_stops L left \<Longrightarrow> total left (Account_field L k)"
  unfolding Account_field_def by (intro switch_totals)

lemma Account_writes:
  assumes "writes_plainly W clean"
  shows "Account_Encode W v = json_text W (Account_json W v)"
proof -
  have "list_all (\<lambda>m. list_all plain (fst m)) (case Account_json W v of JObject ms \<Rightarrow> ms)"
    by (simp add: Account_json_def optional_def)
  then show ?thesis
    by (simp add: Account_json_def Account_Encode_def object_text [OF assms] member_text_simps slice_text uint_text
        del: json_text.simps(6))
qed

lemma Account_rereads:
  assumes "writes_plainly W clean" and "\<not> jw_NilSliceAsEmpty W"
  shows "read_object (in_schema Account_table) (clean_json clean (Account_json W v)) Account_zero = Some (Account_cleaned clean v)"
proof -
  have keys: "clean s = s" if "list_all plain s" for s using assms(1) that by (simp add: writes_plainly_def)
  show ?thesis
    using assms(2)
    by (simp add: Account_json_def Account_table_def Account_zero_def Account_cleaned_def clean_JObject keys optional_def)
qed

interpretation Account_code: generated_codec Account_field Account_table Account_Encode Account_json Account_zero Account_cleaned
    "\<lambda>_. True"
  by unfold_locales (simp_all add: Account_follows Account_returns Account_writes Account_rereads, simp_all add: Account_json_def)

subsection \<open>\<^verbatim>\<open>Message\<close>\<close>

definition Message_zero :: cdc_message where
  "Message_zero =
     \<lparr> m_Type = [], m_Timestamp = [], m_Checkpoint = [], m_Ledger = [], m_Transfer = Transfer_zero,
     m_DebitAccount = Account_zero, m_CreditAccount = Account_zero \<rparr>"

definition Message_field :: "'l jlexer \<Rightarrow> string \<Rightarrow> ('l, cdc_message) handler" where
  "Message_field L key =
     (if key = ''type'' then scalar L (jl_String L) (\<lambda>v. m_Type_update (\<lambda>_. v))
      else if key = ''timestamp'' then scalar L (jl_String L) (\<lambda>v. m_Timestamp_update (\<lambda>_. v))
      else if key = ''checkpoint'' then scalar L (jl_String L) (\<lambda>v. m_Checkpoint_update (\<lambda>_. v))
      else if key = ''ledger'' then scalar L (jl_String L) (\<lambda>v. m_Ledger_update (\<lambda>_. v))
      else if key = ''transfer'' then struct_field L (Transfer_Decode L) m_Transfer (\<lambda>v. m_Transfer_update (\<lambda>_. v))
      else if key = ''debit_account'' then struct_field L (Account_Decode L) m_DebitAccount (\<lambda>v. m_DebitAccount_update (\<lambda>_. v))
      else if key = ''credit_account'' then struct_field L (Account_Decode L) m_CreditAccount (\<lambda>v. m_CreditAccount_update (\<lambda>_. v))
      else unknown_field L key)"

definition Message_Decode :: "'l jlexer \<Rightarrow> ('l, cdc_message) handler" where
  "Message_Decode L = decode_object L (Message_field L)"

definition Message_Encode :: "json_writer \<Rightarrow> cdc_message \<Rightarrow> string" where
  "Message_Encode W v =
     ''{'' @ tl (member_prefix ''type'') @ jw_String W (m_Type v) @
     member_prefix ''timestamp'' @ jw_String W (m_Timestamp v) @
     member_prefix ''checkpoint'' @ jw_String W (m_Checkpoint v) @
     member_prefix ''ledger'' @ jw_String W (m_Ledger v) @
     member_prefix ''transfer'' @ Transfer_Encode W (m_Transfer v) @
     member_prefix ''debit_account'' @ Account_Encode W (m_DebitAccount v) @
     member_prefix ''credit_account'' @ Account_Encode W (m_CreditAccount v) @ ''}''"

definition Message_MarshalJSON :: "json_writer \<Rightarrow> cdc_message \<Rightarrow> string" where
  "Message_MarshalJSON W v = Message_Encode (new_writer W) v"

definition Message_UnmarshalJSON :: "'l jlexer \<Rightarrow> string \<Rightarrow> cdc_message \<Rightarrow> (string + cdc_message) option" where
  "Message_UnmarshalJSON L = unmarshal_json L (Message_Decode L)"

definition Message_table :: "(string \<times> (json \<Rightarrow> cdc_message \<Rightarrow> cdc_message option)) list" where
  "Message_table =
     [(''type'', read_scalar string_token (\<lambda>v. m_Type_update (\<lambda>_. v))),
      (''timestamp'', read_scalar string_token (\<lambda>v. m_Timestamp_update (\<lambda>_. v))),
      (''checkpoint'', read_scalar string_token (\<lambda>v. m_Checkpoint_update (\<lambda>_. v))),
      (''ledger'', read_scalar string_token (\<lambda>v. m_Ledger_update (\<lambda>_. v))),
      (''transfer'', read_struct (read_object (in_schema Transfer_table)) m_Transfer (\<lambda>v. m_Transfer_update (\<lambda>_. v))),
      (''debit_account'', read_struct (read_object (in_schema Account_table)) m_DebitAccount (\<lambda>v. m_DebitAccount_update (\<lambda>_. v))),
      (''credit_account'', read_struct (read_object (in_schema Account_table)) m_CreditAccount (\<lambda>v. m_CreditAccount_update (\<lambda>_. v)))]"

definition Message_json :: "json_writer \<Rightarrow> cdc_message \<Rightarrow> json" where
  "Message_json W v = JObject
      ([(''type'', JString (m_Type v)), (''timestamp'', JString (m_Timestamp v)),
       (''checkpoint'', JString (m_Checkpoint v)), (''ledger'', JString (m_Ledger v)),
       (''transfer'', Transfer_json W (m_Transfer v)),
       (''debit_account'', Account_json W (m_DebitAccount v)),
       (''credit_account'', Account_json W (m_CreditAccount v))])"

definition Message_cleaned :: "(string \<Rightarrow> string) \<Rightarrow> cdc_message \<Rightarrow> cdc_message" where
  "Message_cleaned clean v =
     \<lparr> m_Type = clean (m_Type v), m_Timestamp = clean (m_Timestamp v),
     m_Checkpoint = clean (m_Checkpoint v), m_Ledger = clean (m_Ledger v),
     m_Transfer = Transfer_cleaned clean (m_Transfer v),
     m_DebitAccount = Account_cleaned clean (m_DebitAccount v),
     m_CreditAccount = Account_cleaned clean (m_CreditAccount v) \<rparr>"

lemma Message_follows:
  "lexer_reads L left rdy aft \<Longrightarrow> lexer_stops L left \<Longrightarrow> sim left rdy aft (Message_field L k) (in_schema Message_table k)"
  unfolding Message_field_def Message_table_def by (intro switch_sims Transfer_code.nested_sim [folded Transfer_Decode_def] Account_code.nested_sim [folded Account_Decode_def])

lemma Message_returns: "lexer_stops L left \<Longrightarrow> total left (Message_field L k)"
  unfolding Message_field_def by (intro switch_totals Transfer_code.nested_total [folded Transfer_Decode_def] Account_code.nested_total [folded Account_Decode_def])

lemma Message_writes:
  assumes "writes_plainly W clean"
  shows "Message_Encode W v = json_text W (Message_json W v)"
proof -
  have "list_all (\<lambda>m. list_all plain (fst m)) (case Message_json W v of JObject ms \<Rightarrow> ms)"
    by (simp add: Message_json_def optional_def)
  then show ?thesis
    by (simp add: Message_json_def Message_Encode_def object_text [OF assms] member_text_simps slice_text uint_text Transfer_code.writes_fun [OF assms] Account_code.writes_fun [OF assms]
        del: json_text.simps(6))
qed

lemma Message_rereads:
  assumes "writes_plainly W clean" and "\<not> jw_NilSliceAsEmpty W"
  shows "read_object (in_schema Message_table) (clean_json clean (Message_json W v)) Message_zero = Some (Message_cleaned clean v)"
proof -
  have keys: "clean s = s" if "list_all plain s" for s using assms(1) that by (simp add: writes_plainly_def)
  show ?thesis
    using assms(2)
    by (simp add: Message_json_def Message_table_def Message_zero_def Message_cleaned_def clean_JObject keys optional_def Transfer_code.struct_back [OF assms(1,2)] Account_code.struct_back [OF assms(1,2)])
qed

interpretation Message_code: generated_codec Message_field Message_table Message_Encode Message_json Message_zero Message_cleaned
    "\<lambda>_. True"
  by unfold_locales (simp_all add: Message_follows Message_returns Message_writes Message_rereads, simp_all add: Message_json_def slice_numbers Transfer_code.numbers Account_code.numbers)

end
