(* ===== verification/Emit_Json.thy ===== *)
theory Emit_Json
  imports Json_Text
begin

section \<open>The results message: \<^verbatim>\<open>internal/emit/emitter_easyjson.go\<close>\<close>

text \<open>
  The generated reader and writer of \<^verbatim>\<open>Source\<close>, \<^verbatim>\<open>ResultEntry\<close> and \<^verbatim>\<open>ResultsMessage\<close>. The signed fields
  come back when they are in the range of their Go type.
\<close>

subsection \<open>\<^verbatim>\<open>Source\<close>\<close>

definition Source_zero :: source where
  "Source_zero =
     \<lparr> src_Topic = [], src_Partition = 0, src_Offset = 0 \<rparr>"

definition Source_field :: "'l jlexer \<Rightarrow> string \<Rightarrow> ('l, source) handler" where
  "Source_field L key =
     (if key = ''topic'' then scalar L (jl_String L) (\<lambda>v. src_Topic_update (\<lambda>_. v))
      else if key = ''partition'' then scalar L (jl_Int32 L) (\<lambda>v. src_Partition_update (\<lambda>_. v))
      else if key = ''offset'' then scalar L (jl_Int64 L) (\<lambda>v. src_Offset_update (\<lambda>_. v))
      else unknown_field L key)"

definition Source_Decode :: "'l jlexer \<Rightarrow> ('l, source) handler" where
  "Source_Decode L = decode_object L (Source_field L)"

definition Source_Encode :: "json_writer \<Rightarrow> source \<Rightarrow> string" where
  "Source_Encode W v =
     ''{'' @ tl (member_prefix ''topic'') @ jw_String W (src_Topic v) @
     member_prefix ''partition'' @ itoa (src_Partition v) @
     member_prefix ''offset'' @ itoa (src_Offset v) @ ''}''"

definition Source_MarshalJSON :: "json_writer \<Rightarrow> source \<Rightarrow> string" where
  "Source_MarshalJSON W v = Source_Encode (new_writer W) v"

definition Source_UnmarshalJSON :: "'l jlexer \<Rightarrow> string \<Rightarrow> source \<Rightarrow> (string + source) option" where
  "Source_UnmarshalJSON L = unmarshal_json L (Source_Decode L)"

definition Source_table :: "(string \<times> (json \<Rightarrow> source \<Rightarrow> source option)) list" where
  "Source_table =
     [(''topic'', read_scalar string_token (\<lambda>v. src_Topic_update (\<lambda>_. v))),
      (''partition'', read_scalar (int_token 32) (\<lambda>v. src_Partition_update (\<lambda>_. v))),
      (''offset'', read_scalar (int_token 64) (\<lambda>v. src_Offset_update (\<lambda>_. v)))]"

definition Source_json :: "json_writer \<Rightarrow> source \<Rightarrow> json" where
  "Source_json W v = JObject
      ([(''topic'', JString (src_Topic v)), (''partition'', JNumber (itoa (src_Partition v))),
       (''offset'', JNumber (itoa (src_Offset v)))])"

definition Source_cleaned :: "(string \<Rightarrow> string) \<Rightarrow> source \<Rightarrow> source" where
  "Source_cleaned clean v =
     \<lparr> src_Topic = clean (src_Topic v), src_Partition = src_Partition v, src_Offset = src_Offset v \<rparr>"

definition Source_fits :: "source \<Rightarrow> bool" where
  "Source_fits v \<longleftrightarrow> - (2 ^ 31) \<le> src_Partition v \<and> src_Partition v < 2 ^ 31 \<and> - (2 ^ 63) \<le> src_Offset v \<and> src_Offset v < 2 ^ 63"

lemma Source_follows:
  "lexer_reads L left rdy aft \<Longrightarrow> lexer_stops L left \<Longrightarrow> sim left rdy aft (Source_field L k) (in_schema Source_table k)"
  unfolding Source_field_def Source_table_def by (intro switch_sims)

lemma Source_returns: "lexer_stops L left \<Longrightarrow> total left (Source_field L k)"
  unfolding Source_field_def by (intro switch_totals)

lemma Source_writes:
  assumes "writes_plainly W clean"
  shows "Source_Encode W v = json_text W (Source_json W v)"
proof -
  have "list_all (\<lambda>m. list_all plain (fst m)) (case Source_json W v of JObject ms \<Rightarrow> ms)"
    by (simp add: Source_json_def optional_def)
  then show ?thesis
    by (simp add: Source_json_def Source_Encode_def object_text [OF assms] member_text_simps slice_text uint_text
        del: json_text.simps(6))
qed

lemma Source_rereads:
  assumes "writes_plainly W clean" and "\<not> jw_NilSliceAsEmpty W" and "Source_fits v"
  shows "read_object (in_schema Source_table) (clean_json clean (Source_json W v)) Source_zero = Some (Source_cleaned clean v)"
proof -
  have keys: "clean s = s" if "list_all plain s" for s using assms(1) that by (simp add: writes_plainly_def)
  show ?thesis
    using assms(2,3)
    by (simp add: Source_json_def Source_table_def Source_zero_def Source_cleaned_def clean_JObject keys optional_def Source_fits_def)
qed

interpretation Source_code: generated_codec Source_field Source_table Source_Encode Source_json Source_zero Source_cleaned
    Source_fits
  by unfold_locales (simp_all add: Source_follows Source_returns Source_writes Source_rereads, simp_all add: Source_json_def)

subsection \<open>\<^verbatim>\<open>ResultEntry\<close>\<close>

definition ResultEntry_zero :: result_entry where
  "ResultEntry_zero =
     \<lparr> e_Index = 0, e_ID = [], e_Status = [], e_Error = [] \<rparr>"

definition ResultEntry_field :: "'l jlexer \<Rightarrow> string \<Rightarrow> ('l, result_entry) handler" where
  "ResultEntry_field L key =
     (if key = ''index'' then scalar L (jl_Int L) (\<lambda>v. e_Index_update (\<lambda>_. v))
      else if key = ''id'' then scalar L (jl_String L) (\<lambda>v. e_ID_update (\<lambda>_. v))
      else if key = ''status'' then scalar L (jl_String L) (\<lambda>v. e_Status_update (\<lambda>_. v))
      else if key = ''error'' then scalar L (jl_String L) (\<lambda>v. e_Error_update (\<lambda>_. v))
      else unknown_field L key)"

definition ResultEntry_Decode :: "'l jlexer \<Rightarrow> ('l, result_entry) handler" where
  "ResultEntry_Decode L = decode_object L (ResultEntry_field L)"

definition ResultEntry_Encode :: "json_writer \<Rightarrow> result_entry \<Rightarrow> string" where
  "ResultEntry_Encode W v =
     ''{'' @ tl (member_prefix ''index'') @ itoa (e_Index v) @
     member_prefix ''id'' @ jw_String W (e_ID v) @
     member_prefix ''status'' @ jw_String W (e_Status v) @
     (if e_Error v \<noteq> [] then member_prefix ''error'' @ jw_String W (e_Error v) else []) @ ''}''"

definition ResultEntry_MarshalJSON :: "json_writer \<Rightarrow> result_entry \<Rightarrow> string" where
  "ResultEntry_MarshalJSON W v = ResultEntry_Encode (new_writer W) v"

definition ResultEntry_UnmarshalJSON :: "'l jlexer \<Rightarrow> string \<Rightarrow> result_entry \<Rightarrow> (string + result_entry) option" where
  "ResultEntry_UnmarshalJSON L = unmarshal_json L (ResultEntry_Decode L)"

definition ResultEntry_table :: "(string \<times> (json \<Rightarrow> result_entry \<Rightarrow> result_entry option)) list" where
  "ResultEntry_table =
     [(''index'', read_scalar (int_token 64) (\<lambda>v. e_Index_update (\<lambda>_. v))),
      (''id'', read_scalar string_token (\<lambda>v. e_ID_update (\<lambda>_. v))),
      (''status'', read_scalar string_token (\<lambda>v. e_Status_update (\<lambda>_. v))),
      (''error'', read_scalar string_token (\<lambda>v. e_Error_update (\<lambda>_. v)))]"

definition ResultEntry_json :: "json_writer \<Rightarrow> result_entry \<Rightarrow> json" where
  "ResultEntry_json W v = JObject
      ([(''index'', JNumber (itoa (e_Index v))), (''id'', JString (e_ID v)),
       (''status'', JString (e_Status v))] @
       optional (e_Error v \<noteq> []) (''error'', JString (e_Error v)))"

definition ResultEntry_cleaned :: "(string \<Rightarrow> string) \<Rightarrow> result_entry \<Rightarrow> result_entry" where
  "ResultEntry_cleaned clean v =
     \<lparr> e_Index = e_Index v, e_ID = clean (e_ID v), e_Status = clean (e_Status v),
     e_Error = clean (e_Error v) \<rparr>"

definition ResultEntry_fits :: "result_entry \<Rightarrow> bool" where
  "ResultEntry_fits v \<longleftrightarrow> - (2 ^ 63) \<le> e_Index v \<and> e_Index v < 2 ^ 63"

lemma ResultEntry_follows:
  "lexer_reads L left rdy aft \<Longrightarrow> lexer_stops L left \<Longrightarrow> sim left rdy aft (ResultEntry_field L k) (in_schema ResultEntry_table k)"
  unfolding ResultEntry_field_def ResultEntry_table_def by (intro switch_sims)

lemma ResultEntry_returns: "lexer_stops L left \<Longrightarrow> total left (ResultEntry_field L k)"
  unfolding ResultEntry_field_def by (intro switch_totals)

lemma ResultEntry_writes:
  assumes "writes_plainly W clean"
  shows "ResultEntry_Encode W v = json_text W (ResultEntry_json W v)"
proof -
  have "list_all (\<lambda>m. list_all plain (fst m)) (case ResultEntry_json W v of JObject ms \<Rightarrow> ms)"
    by (simp add: ResultEntry_json_def optional_def)
  then show ?thesis
    by (simp add: ResultEntry_json_def ResultEntry_Encode_def object_text [OF assms] member_text_simps slice_text uint_text
        del: json_text.simps(6))
qed

lemma ResultEntry_rereads:
  assumes "writes_plainly W clean" and "\<not> jw_NilSliceAsEmpty W" and "ResultEntry_fits v"
  shows "read_object (in_schema ResultEntry_table) (clean_json clean (ResultEntry_json W v)) ResultEntry_zero = Some (ResultEntry_cleaned clean v)"
proof -
  have keys: "clean s = s" if "list_all plain s" for s using assms(1) that by (simp add: writes_plainly_def)
  show ?thesis
    using assms(2,3)
    by (simp add: ResultEntry_json_def ResultEntry_table_def ResultEntry_zero_def ResultEntry_cleaned_def clean_JObject keys optional_def ResultEntry_fits_def)
qed

interpretation ResultEntry_code: generated_codec ResultEntry_field ResultEntry_table ResultEntry_Encode ResultEntry_json ResultEntry_zero ResultEntry_cleaned
    ResultEntry_fits
  by unfold_locales (simp_all add: ResultEntry_follows ResultEntry_returns ResultEntry_writes ResultEntry_rereads, simp_all add: ResultEntry_json_def)

subsection \<open>\<^verbatim>\<open>ResultsMessage\<close>\<close>

definition ResultsMessage_zero :: results_message where
  "ResultsMessage_zero =
     \<lparr> rm_Source = Source_zero, rm_Results = None, rm_EmitTS = [] \<rparr>"

definition ResultsMessage_field :: "'l jlexer \<Rightarrow> string \<Rightarrow> ('l, results_message) handler" where
  "ResultsMessage_field L key =
     (if key = ''source'' then struct_field L (Source_Decode L) rm_Source (\<lambda>v. rm_Source_update (\<lambda>_. v))
      else if key = ''results'' then slice_field L (ResultEntry_Decode L) ResultEntry_zero rm_Results (\<lambda>v. rm_Results_update (\<lambda>_. v))
      else if key = ''emitted_at'' then scalar L (jl_String L) (\<lambda>v. rm_EmitTS_update (\<lambda>_. v))
      else unknown_field L key)"

definition ResultsMessage_Decode :: "'l jlexer \<Rightarrow> ('l, results_message) handler" where
  "ResultsMessage_Decode L = decode_object L (ResultsMessage_field L)"

definition ResultsMessage_Encode :: "json_writer \<Rightarrow> results_message \<Rightarrow> string" where
  "ResultsMessage_Encode W v =
     ''{'' @ tl (member_prefix ''source'') @ Source_Encode W (rm_Source v) @
     member_prefix ''results'' @ write_slice W (ResultEntry_Encode W) (rm_Results v) @
     member_prefix ''emitted_at'' @ jw_String W (rm_EmitTS v) @ ''}''"

definition ResultsMessage_MarshalJSON :: "json_writer \<Rightarrow> results_message \<Rightarrow> string" where
  "ResultsMessage_MarshalJSON W v = ResultsMessage_Encode (new_writer W) v"

definition ResultsMessage_UnmarshalJSON :: "'l jlexer \<Rightarrow> string \<Rightarrow> results_message \<Rightarrow> (string + results_message) option" where
  "ResultsMessage_UnmarshalJSON L = unmarshal_json L (ResultsMessage_Decode L)"

definition ResultsMessage_table :: "(string \<times> (json \<Rightarrow> results_message \<Rightarrow> results_message option)) list" where
  "ResultsMessage_table =
     [(''source'', read_struct (read_object (in_schema Source_table)) rm_Source (\<lambda>v. rm_Source_update (\<lambda>_. v))),
      (''results'', read_slice (read_object (in_schema ResultEntry_table)) ResultEntry_zero (\<lambda>v. rm_Results_update (\<lambda>_. v))),
      (''emitted_at'', read_scalar string_token (\<lambda>v. rm_EmitTS_update (\<lambda>_. v)))]"

definition ResultsMessage_json :: "json_writer \<Rightarrow> results_message \<Rightarrow> json" where
  "ResultsMessage_json W v = JObject
      ([(''source'', Source_json W (rm_Source v)),
       (''results'', slice_json W (ResultEntry_json W) (rm_Results v)),
       (''emitted_at'', JString (rm_EmitTS v))])"

definition ResultsMessage_cleaned :: "(string \<Rightarrow> string) \<Rightarrow> results_message \<Rightarrow> results_message" where
  "ResultsMessage_cleaned clean v =
     \<lparr> rm_Source = Source_cleaned clean (rm_Source v),
     rm_Results = map_option (map (ResultEntry_cleaned clean)) (rm_Results v),
     rm_EmitTS = clean (rm_EmitTS v) \<rparr>"

definition ResultsMessage_fits :: "results_message \<Rightarrow> bool" where
  "ResultsMessage_fits v \<longleftrightarrow> Source_fits (rm_Source v) \<and> (\<forall>x \<in> set (elems (rm_Results v)). ResultEntry_fits x)"

lemma ResultsMessage_follows:
  "lexer_reads L left rdy aft \<Longrightarrow> lexer_stops L left \<Longrightarrow> sim left rdy aft (ResultsMessage_field L k) (in_schema ResultsMessage_table k)"
  unfolding ResultsMessage_field_def ResultsMessage_table_def by (intro switch_sims Source_code.nested_sim [folded Source_Decode_def] ResultEntry_code.nested_sim [folded ResultEntry_Decode_def])

lemma ResultsMessage_returns: "lexer_stops L left \<Longrightarrow> total left (ResultsMessage_field L k)"
  unfolding ResultsMessage_field_def by (intro switch_totals Source_code.nested_total [folded Source_Decode_def] ResultEntry_code.nested_total [folded ResultEntry_Decode_def])

lemma ResultsMessage_writes:
  assumes "writes_plainly W clean"
  shows "ResultsMessage_Encode W v = json_text W (ResultsMessage_json W v)"
proof -
  have "list_all (\<lambda>m. list_all plain (fst m)) (case ResultsMessage_json W v of JObject ms \<Rightarrow> ms)"
    by (simp add: ResultsMessage_json_def optional_def)
  then show ?thesis
    by (simp add: ResultsMessage_json_def ResultsMessage_Encode_def object_text [OF assms] member_text_simps slice_text uint_text Source_code.writes_fun [OF assms] ResultEntry_code.writes_fun [OF assms]
        del: json_text.simps(6))
qed

lemma ResultsMessage_rereads:
  assumes "writes_plainly W clean" and "\<not> jw_NilSliceAsEmpty W" and "ResultsMessage_fits v"
  shows "read_object (in_schema ResultsMessage_table) (clean_json clean (ResultsMessage_json W v)) ResultsMessage_zero = Some (ResultsMessage_cleaned clean v)"
proof -
  have keys: "clean s = s" if "list_all plain s" for s using assms(1) that by (simp add: writes_plainly_def)
  show ?thesis
    using assms(2,3)
    by (simp add: ResultsMessage_json_def ResultsMessage_table_def ResultsMessage_zero_def ResultsMessage_cleaned_def clean_JObject keys optional_def ResultsMessage_fits_def Source_code.struct_back [OF assms(1,2)] ResultEntry_code.slice_back [OF assms(1,2)])
qed

interpretation ResultsMessage_code: generated_codec ResultsMessage_field ResultsMessage_table ResultsMessage_Encode ResultsMessage_json ResultsMessage_zero ResultsMessage_cleaned
    ResultsMessage_fits
  by unfold_locales (simp_all add: ResultsMessage_follows ResultsMessage_returns ResultsMessage_writes ResultsMessage_rereads, simp_all add: ResultsMessage_json_def slice_numbers Source_code.numbers ResultEntry_code.numbers)

end
