(* ===== verification/Jsonc_Json.thy ===== *)
theory Jsonc_Json
  imports Json_Text Decoder
begin

section \<open>The command message: \<^verbatim>\<open>internal/codec/jsonc/decoder_easyjson.go\<close>\<close>

text \<open>
  The generated reader and writer of \<^verbatim>\<open>jsonTransfer\<close>, \<^verbatim>\<open>jsonAccount\<close> and \<^verbatim>\<open>message\<close>, the reader the
  sink decodes every command with.
\<close>

subsection \<open>\<^verbatim>\<open>jsonTransfer\<close>\<close>

definition jsonTransfer_zero :: json_transfer where
  "jsonTransfer_zero =
     \<lparr> jt_ID = [], jt_DebitAccountID = [], jt_CreditAccountID = [], jt_PendingID = [],
     jt_Amount = [], jt_Ledger = [], jt_Code = [], jt_Flags = None, jt_UserData128 = [], jt_UserData64 = 0,
     jt_UserData32 = 0, jt_Timeout = [] \<rparr>"

definition jsonTransfer_field :: "'l jlexer \<Rightarrow> string \<Rightarrow> ('l, json_transfer) handler" where
  "jsonTransfer_field L key =
     (if key = ''id'' then scalar L (jl_String L) (\<lambda>v. jt_ID_update (\<lambda>_. v))
      else if key = ''debit_account_id'' then scalar L (jl_String L) (\<lambda>v. jt_DebitAccountID_update (\<lambda>_. v))
      else if key = ''credit_account_id'' then scalar L (jl_String L) (\<lambda>v. jt_CreditAccountID_update (\<lambda>_. v))
      else if key = ''pending_id'' then scalar L (jl_String L) (\<lambda>v. jt_PendingID_update (\<lambda>_. v))
      else if key = ''amount'' then scalar L (jl_String L) (\<lambda>v. jt_Amount_update (\<lambda>_. v))
      else if key = ''ledger'' then scalar L (jl_String L) (\<lambda>v. jt_Ledger_update (\<lambda>_. v))
      else if key = ''code'' then scalar L (jl_String L) (\<lambda>v. jt_Code_update (\<lambda>_. v))
      else if key = ''flags'' then slice_field L (string_item L) [] jt_Flags (\<lambda>v. jt_Flags_update (\<lambda>_. v))
      else if key = ''user_data_128'' then scalar L (jl_String L) (\<lambda>v. jt_UserData128_update (\<lambda>_. v))
      else if key = ''user_data_64'' then scalar L (jl_Uint64 L) (\<lambda>v. jt_UserData64_update (\<lambda>_. v))
      else if key = ''user_data_32'' then scalar L (jl_Uint32 L) (\<lambda>v. jt_UserData32_update (\<lambda>_. v))
      else if key = ''timeout'' then scalar L (jl_String L) (\<lambda>v. jt_Timeout_update (\<lambda>_. v))
      else unknown_field L key)"

definition jsonTransfer_Decode :: "'l jlexer \<Rightarrow> ('l, json_transfer) handler" where
  "jsonTransfer_Decode L = decode_object L (jsonTransfer_field L)"

definition jsonTransfer_Encode :: "json_writer \<Rightarrow> json_transfer \<Rightarrow> string" where
  "jsonTransfer_Encode W v =
     ''{'' @ tl (member_prefix ''id'') @ jw_String W (jt_ID v) @
     member_prefix ''debit_account_id'' @ jw_String W (jt_DebitAccountID v) @
     member_prefix ''credit_account_id'' @ jw_String W (jt_CreditAccountID v) @
     member_prefix ''pending_id'' @ jw_String W (jt_PendingID v) @
     member_prefix ''amount'' @ jw_String W (jt_Amount v) @
     member_prefix ''ledger'' @ jw_String W (jt_Ledger v) @
     member_prefix ''code'' @ jw_String W (jt_Code v) @
     member_prefix ''flags'' @ write_slice W (jw_String W) (jt_Flags v) @
     member_prefix ''user_data_128'' @ jw_String W (jt_UserData128 v) @
     member_prefix ''user_data_64'' @ write_uint (jt_UserData64 v) @
     member_prefix ''user_data_32'' @ write_uint (jt_UserData32 v) @
     member_prefix ''timeout'' @ jw_String W (jt_Timeout v) @ ''}''"

definition jsonTransfer_MarshalJSON :: "json_writer \<Rightarrow> json_transfer \<Rightarrow> string" where
  "jsonTransfer_MarshalJSON W v = jsonTransfer_Encode (new_writer W) v"

definition jsonTransfer_UnmarshalJSON :: "'l jlexer \<Rightarrow> string \<Rightarrow> json_transfer \<Rightarrow> (string + json_transfer) option" where
  "jsonTransfer_UnmarshalJSON L = unmarshal_json L (jsonTransfer_Decode L)"

definition jsonTransfer_table :: "(string \<times> (json \<Rightarrow> json_transfer \<Rightarrow> json_transfer option)) list" where
  "jsonTransfer_table =
     [(''id'', read_scalar string_token (\<lambda>v. jt_ID_update (\<lambda>_. v))),
      (''debit_account_id'', read_scalar string_token (\<lambda>v. jt_DebitAccountID_update (\<lambda>_. v))),
      (''credit_account_id'', read_scalar string_token (\<lambda>v. jt_CreditAccountID_update (\<lambda>_. v))),
      (''pending_id'', read_scalar string_token (\<lambda>v. jt_PendingID_update (\<lambda>_. v))),
      (''amount'', read_scalar string_token (\<lambda>v. jt_Amount_update (\<lambda>_. v))),
      (''ledger'', read_scalar string_token (\<lambda>v. jt_Ledger_update (\<lambda>_. v))),
      (''code'', read_scalar string_token (\<lambda>v. jt_Code_update (\<lambda>_. v))),
      (''flags'', read_slice read_string [] (\<lambda>v. jt_Flags_update (\<lambda>_. v))),
      (''user_data_128'', read_scalar string_token (\<lambda>v. jt_UserData128_update (\<lambda>_. v))),
      (''user_data_64'', read_scalar (uint_token 64) (\<lambda>v. jt_UserData64_update (\<lambda>_. v))),
      (''user_data_32'', read_scalar (uint_token 32) (\<lambda>v. jt_UserData32_update (\<lambda>_. v))),
      (''timeout'', read_scalar string_token (\<lambda>v. jt_Timeout_update (\<lambda>_. v)))]"

definition jsonTransfer_json :: "json_writer \<Rightarrow> json_transfer \<Rightarrow> json" where
  "jsonTransfer_json W v = JObject
      ([(''id'', JString (jt_ID v)), (''debit_account_id'', JString (jt_DebitAccountID v)),
       (''credit_account_id'', JString (jt_CreditAccountID v)), (''pending_id'', JString (jt_PendingID v)),
       (''amount'', JString (jt_Amount v)), (''ledger'', JString (jt_Ledger v)),
       (''code'', JString (jt_Code v)), (''flags'', slice_json W JString (jt_Flags v)),
       (''user_data_128'', JString (jt_UserData128 v)), (''user_data_64'', uint_json (jt_UserData64 v)),
       (''user_data_32'', uint_json (jt_UserData32 v)), (''timeout'', JString (jt_Timeout v))])"

definition jsonTransfer_cleaned :: "(string \<Rightarrow> string) \<Rightarrow> json_transfer \<Rightarrow> json_transfer" where
  "jsonTransfer_cleaned clean v =
     \<lparr> jt_ID = clean (jt_ID v), jt_DebitAccountID = clean (jt_DebitAccountID v),
     jt_CreditAccountID = clean (jt_CreditAccountID v), jt_PendingID = clean (jt_PendingID v),
     jt_Amount = clean (jt_Amount v), jt_Ledger = clean (jt_Ledger v), jt_Code = clean (jt_Code v),
     jt_Flags = map_option (map clean) (jt_Flags v), jt_UserData128 = clean (jt_UserData128 v),
     jt_UserData64 = jt_UserData64 v, jt_UserData32 = jt_UserData32 v, jt_Timeout = clean (jt_Timeout v) \<rparr>"

lemma jsonTransfer_follows:
  "lexer_reads L left rdy aft \<Longrightarrow> lexer_stops L left \<Longrightarrow> sim left rdy aft (jsonTransfer_field L k) (in_schema jsonTransfer_table k)"
  unfolding jsonTransfer_field_def jsonTransfer_table_def by (intro switch_sims)

lemma jsonTransfer_returns: "lexer_stops L left \<Longrightarrow> total left (jsonTransfer_field L k)"
  unfolding jsonTransfer_field_def by (intro switch_totals)

lemma jsonTransfer_writes:
  assumes "writes_plainly W clean"
  shows "jsonTransfer_Encode W v = json_text W (jsonTransfer_json W v)"
proof -
  have "list_all (\<lambda>m. list_all plain (fst m)) (case jsonTransfer_json W v of JObject ms \<Rightarrow> ms)"
    by (simp add: jsonTransfer_json_def optional_def)
  then show ?thesis
    by (simp add: jsonTransfer_json_def jsonTransfer_Encode_def object_text [OF assms] member_text_simps slice_text uint_text
        del: json_text.simps(6))
qed

lemma jsonTransfer_rereads:
  assumes "writes_plainly W clean" and "\<not> jw_NilSliceAsEmpty W"
  shows "read_object (in_schema jsonTransfer_table) (clean_json clean (jsonTransfer_json W v)) jsonTransfer_zero = Some (jsonTransfer_cleaned clean v)"
proof -
  have keys: "clean s = s" if "list_all plain s" for s using assms(1) that by (simp add: writes_plainly_def)
  show ?thesis
    using assms(2)
    by (simp add: jsonTransfer_json_def jsonTransfer_table_def jsonTransfer_zero_def jsonTransfer_cleaned_def clean_JObject keys optional_def)
qed

interpretation jsonTransfer_code: generated_codec jsonTransfer_field jsonTransfer_table jsonTransfer_Encode jsonTransfer_json jsonTransfer_zero jsonTransfer_cleaned
    "\<lambda>_. True"
  by unfold_locales (simp_all add: jsonTransfer_follows jsonTransfer_returns jsonTransfer_writes jsonTransfer_rereads, simp_all add: jsonTransfer_json_def)

subsection \<open>\<^verbatim>\<open>jsonAccount\<close>\<close>

definition jsonAccount_zero :: json_account where
  "jsonAccount_zero =
     \<lparr> ja_ID = [], ja_Ledger = [], ja_Code = [], ja_Flags = None, ja_UserData128 = [],
     ja_UserData64 = 0, ja_UserData32 = 0 \<rparr>"

definition jsonAccount_field :: "'l jlexer \<Rightarrow> string \<Rightarrow> ('l, json_account) handler" where
  "jsonAccount_field L key =
     (if key = ''id'' then scalar L (jl_String L) (\<lambda>v. ja_ID_update (\<lambda>_. v))
      else if key = ''ledger'' then scalar L (jl_String L) (\<lambda>v. ja_Ledger_update (\<lambda>_. v))
      else if key = ''code'' then scalar L (jl_String L) (\<lambda>v. ja_Code_update (\<lambda>_. v))
      else if key = ''flags'' then slice_field L (string_item L) [] ja_Flags (\<lambda>v. ja_Flags_update (\<lambda>_. v))
      else if key = ''user_data_128'' then scalar L (jl_String L) (\<lambda>v. ja_UserData128_update (\<lambda>_. v))
      else if key = ''user_data_64'' then scalar L (jl_Uint64 L) (\<lambda>v. ja_UserData64_update (\<lambda>_. v))
      else if key = ''user_data_32'' then scalar L (jl_Uint32 L) (\<lambda>v. ja_UserData32_update (\<lambda>_. v))
      else unknown_field L key)"

definition jsonAccount_Decode :: "'l jlexer \<Rightarrow> ('l, json_account) handler" where
  "jsonAccount_Decode L = decode_object L (jsonAccount_field L)"

definition jsonAccount_Encode :: "json_writer \<Rightarrow> json_account \<Rightarrow> string" where
  "jsonAccount_Encode W v =
     ''{'' @ tl (member_prefix ''id'') @ jw_String W (ja_ID v) @
     member_prefix ''ledger'' @ jw_String W (ja_Ledger v) @
     member_prefix ''code'' @ jw_String W (ja_Code v) @
     member_prefix ''flags'' @ write_slice W (jw_String W) (ja_Flags v) @
     member_prefix ''user_data_128'' @ jw_String W (ja_UserData128 v) @
     member_prefix ''user_data_64'' @ write_uint (ja_UserData64 v) @
     member_prefix ''user_data_32'' @ write_uint (ja_UserData32 v) @ ''}''"

definition jsonAccount_MarshalJSON :: "json_writer \<Rightarrow> json_account \<Rightarrow> string" where
  "jsonAccount_MarshalJSON W v = jsonAccount_Encode (new_writer W) v"

definition jsonAccount_UnmarshalJSON :: "'l jlexer \<Rightarrow> string \<Rightarrow> json_account \<Rightarrow> (string + json_account) option" where
  "jsonAccount_UnmarshalJSON L = unmarshal_json L (jsonAccount_Decode L)"

definition jsonAccount_table :: "(string \<times> (json \<Rightarrow> json_account \<Rightarrow> json_account option)) list" where
  "jsonAccount_table =
     [(''id'', read_scalar string_token (\<lambda>v. ja_ID_update (\<lambda>_. v))),
      (''ledger'', read_scalar string_token (\<lambda>v. ja_Ledger_update (\<lambda>_. v))),
      (''code'', read_scalar string_token (\<lambda>v. ja_Code_update (\<lambda>_. v))),
      (''flags'', read_slice read_string [] (\<lambda>v. ja_Flags_update (\<lambda>_. v))),
      (''user_data_128'', read_scalar string_token (\<lambda>v. ja_UserData128_update (\<lambda>_. v))),
      (''user_data_64'', read_scalar (uint_token 64) (\<lambda>v. ja_UserData64_update (\<lambda>_. v))),
      (''user_data_32'', read_scalar (uint_token 32) (\<lambda>v. ja_UserData32_update (\<lambda>_. v)))]"

definition jsonAccount_json :: "json_writer \<Rightarrow> json_account \<Rightarrow> json" where
  "jsonAccount_json W v = JObject
      ([(''id'', JString (ja_ID v)), (''ledger'', JString (ja_Ledger v)), (''code'', JString (ja_Code v)),
       (''flags'', slice_json W JString (ja_Flags v)), (''user_data_128'', JString (ja_UserData128 v)),
       (''user_data_64'', uint_json (ja_UserData64 v)), (''user_data_32'', uint_json (ja_UserData32 v))])"

definition jsonAccount_cleaned :: "(string \<Rightarrow> string) \<Rightarrow> json_account \<Rightarrow> json_account" where
  "jsonAccount_cleaned clean v =
     \<lparr> ja_ID = clean (ja_ID v), ja_Ledger = clean (ja_Ledger v), ja_Code = clean (ja_Code v),
     ja_Flags = map_option (map clean) (ja_Flags v), ja_UserData128 = clean (ja_UserData128 v),
     ja_UserData64 = ja_UserData64 v, ja_UserData32 = ja_UserData32 v \<rparr>"

lemma jsonAccount_follows:
  "lexer_reads L left rdy aft \<Longrightarrow> lexer_stops L left \<Longrightarrow> sim left rdy aft (jsonAccount_field L k) (in_schema jsonAccount_table k)"
  unfolding jsonAccount_field_def jsonAccount_table_def by (intro switch_sims)

lemma jsonAccount_returns: "lexer_stops L left \<Longrightarrow> total left (jsonAccount_field L k)"
  unfolding jsonAccount_field_def by (intro switch_totals)

lemma jsonAccount_writes:
  assumes "writes_plainly W clean"
  shows "jsonAccount_Encode W v = json_text W (jsonAccount_json W v)"
proof -
  have "list_all (\<lambda>m. list_all plain (fst m)) (case jsonAccount_json W v of JObject ms \<Rightarrow> ms)"
    by (simp add: jsonAccount_json_def optional_def)
  then show ?thesis
    by (simp add: jsonAccount_json_def jsonAccount_Encode_def object_text [OF assms] member_text_simps slice_text uint_text
        del: json_text.simps(6))
qed

lemma jsonAccount_rereads:
  assumes "writes_plainly W clean" and "\<not> jw_NilSliceAsEmpty W"
  shows "read_object (in_schema jsonAccount_table) (clean_json clean (jsonAccount_json W v)) jsonAccount_zero = Some (jsonAccount_cleaned clean v)"
proof -
  have keys: "clean s = s" if "list_all plain s" for s using assms(1) that by (simp add: writes_plainly_def)
  show ?thesis
    using assms(2)
    by (simp add: jsonAccount_json_def jsonAccount_table_def jsonAccount_zero_def jsonAccount_cleaned_def clean_JObject keys optional_def)
qed

interpretation jsonAccount_code: generated_codec jsonAccount_field jsonAccount_table jsonAccount_Encode jsonAccount_json jsonAccount_zero jsonAccount_cleaned
    "\<lambda>_. True"
  by unfold_locales (simp_all add: jsonAccount_follows jsonAccount_returns jsonAccount_writes jsonAccount_rereads, simp_all add: jsonAccount_json_def)

subsection \<open>\<^verbatim>\<open>message\<close>\<close>

definition jsonMessage_zero :: json_message where
  "jsonMessage_zero =
     \<lparr> Operation = [], jm_Transfers = None, jm_Accounts = None \<rparr>"

definition jsonMessage_field :: "'l jlexer \<Rightarrow> string \<Rightarrow> ('l, json_message) handler" where
  "jsonMessage_field L key =
     (if key = ''operation'' then scalar L (jl_String L) (\<lambda>v. Operation_update (\<lambda>_. v))
      else if key = ''transfers'' then slice_field L (jsonTransfer_Decode L) jsonTransfer_zero jm_Transfers (\<lambda>v. jm_Transfers_update (\<lambda>_. v))
      else if key = ''accounts'' then slice_field L (jsonAccount_Decode L) jsonAccount_zero jm_Accounts (\<lambda>v. jm_Accounts_update (\<lambda>_. v))
      else unknown_field L key)"

definition jsonMessage_Decode :: "'l jlexer \<Rightarrow> ('l, json_message) handler" where
  "jsonMessage_Decode L = decode_object L (jsonMessage_field L)"

definition jsonMessage_Encode :: "json_writer \<Rightarrow> json_message \<Rightarrow> string" where
  "jsonMessage_Encode W v =
     ''{'' @ tl (member_prefix ''operation'') @ jw_String W (Operation v) @
     member_prefix ''transfers'' @ write_slice W (jsonTransfer_Encode W) (jm_Transfers v) @
     member_prefix ''accounts'' @ write_slice W (jsonAccount_Encode W) (jm_Accounts v) @ ''}''"

definition jsonMessage_MarshalJSON :: "json_writer \<Rightarrow> json_message \<Rightarrow> string" where
  "jsonMessage_MarshalJSON W v = jsonMessage_Encode (new_writer W) v"

definition jsonMessage_UnmarshalJSON :: "'l jlexer \<Rightarrow> string \<Rightarrow> json_message \<Rightarrow> (string + json_message) option" where
  "jsonMessage_UnmarshalJSON L = unmarshal_json L (jsonMessage_Decode L)"

definition jsonMessage_table :: "(string \<times> (json \<Rightarrow> json_message \<Rightarrow> json_message option)) list" where
  "jsonMessage_table =
     [(''operation'', read_scalar string_token (\<lambda>v. Operation_update (\<lambda>_. v))),
      (''transfers'', read_slice (read_object (in_schema jsonTransfer_table)) jsonTransfer_zero (\<lambda>v. jm_Transfers_update (\<lambda>_. v))),
      (''accounts'', read_slice (read_object (in_schema jsonAccount_table)) jsonAccount_zero (\<lambda>v. jm_Accounts_update (\<lambda>_. v)))]"

definition jsonMessage_json :: "json_writer \<Rightarrow> json_message \<Rightarrow> json" where
  "jsonMessage_json W v = JObject
      ([(''operation'', JString (Operation v)),
       (''transfers'', slice_json W (jsonTransfer_json W) (jm_Transfers v)),
       (''accounts'', slice_json W (jsonAccount_json W) (jm_Accounts v))])"

definition jsonMessage_cleaned :: "(string \<Rightarrow> string) \<Rightarrow> json_message \<Rightarrow> json_message" where
  "jsonMessage_cleaned clean v =
     \<lparr> Operation = clean (Operation v),
     jm_Transfers = map_option (map (jsonTransfer_cleaned clean)) (jm_Transfers v),
     jm_Accounts = map_option (map (jsonAccount_cleaned clean)) (jm_Accounts v) \<rparr>"

lemma jsonMessage_follows:
  "lexer_reads L left rdy aft \<Longrightarrow> lexer_stops L left \<Longrightarrow> sim left rdy aft (jsonMessage_field L k) (in_schema jsonMessage_table k)"
  unfolding jsonMessage_field_def jsonMessage_table_def by (intro switch_sims jsonTransfer_code.nested_sim [folded jsonTransfer_Decode_def] jsonAccount_code.nested_sim [folded jsonAccount_Decode_def])

lemma jsonMessage_returns: "lexer_stops L left \<Longrightarrow> total left (jsonMessage_field L k)"
  unfolding jsonMessage_field_def by (intro switch_totals jsonTransfer_code.nested_total [folded jsonTransfer_Decode_def] jsonAccount_code.nested_total [folded jsonAccount_Decode_def])

lemma jsonMessage_writes:
  assumes "writes_plainly W clean"
  shows "jsonMessage_Encode W v = json_text W (jsonMessage_json W v)"
proof -
  have "list_all (\<lambda>m. list_all plain (fst m)) (case jsonMessage_json W v of JObject ms \<Rightarrow> ms)"
    by (simp add: jsonMessage_json_def optional_def)
  then show ?thesis
    by (simp add: jsonMessage_json_def jsonMessage_Encode_def object_text [OF assms] member_text_simps slice_text uint_text jsonTransfer_code.writes_fun [OF assms] jsonAccount_code.writes_fun [OF assms]
        del: json_text.simps(6))
qed

lemma jsonMessage_rereads:
  assumes "writes_plainly W clean" and "\<not> jw_NilSliceAsEmpty W"
  shows "read_object (in_schema jsonMessage_table) (clean_json clean (jsonMessage_json W v)) jsonMessage_zero = Some (jsonMessage_cleaned clean v)"
proof -
  have keys: "clean s = s" if "list_all plain s" for s using assms(1) that by (simp add: writes_plainly_def)
  show ?thesis
    using assms(2)
    by (simp add: jsonMessage_json_def jsonMessage_table_def jsonMessage_zero_def jsonMessage_cleaned_def clean_JObject keys optional_def jsonTransfer_code.slice_back [OF assms(1,2)] jsonAccount_code.slice_back [OF assms(1,2)])
qed

interpretation jsonMessage_code: generated_codec jsonMessage_field jsonMessage_table jsonMessage_Encode jsonMessage_json jsonMessage_zero jsonMessage_cleaned
    "\<lambda>_. True"
  by unfold_locales (simp_all add: jsonMessage_follows jsonMessage_returns jsonMessage_writes jsonMessage_rereads, simp_all add: jsonMessage_json_def slice_numbers jsonTransfer_code.numbers jsonAccount_code.numbers)

end
