(* ===== verification/Json_Scanner.thy ===== *)
theory Json_Scanner
  imports Json_Text
begin

section \<open>A lexer and a writer that keep the laws\<close>

text \<open>
  The library's lexer is assumed; this is a small one, to show that its laws can hold: a scanner
  of JSON text without white space, and a writer that escapes quotes and backslashes. The
  properties about the generated code are witnessed on it.
\<close>

subsection \<open>Scanning\<close>

fun scan_string :: "string \<Rightarrow> (string \<times> string) option" where
  "scan_string [] = None"
| "scan_string (c # s) =
     (if c = CHR 0x22 then Some ([], s)
      else if c = CHR 0x5C then (case s of [] \<Rightarrow> None | d # s1 \<Rightarrow> map_option (map_prod ((#) d) id) (scan_string s1))
      else map_option (map_prod ((#) c) id) (scan_string s))"

lemma scan_string_length: "scan_string s = Some (t, s1) \<Longrightarrow> length s1 < length s"
proof (induction s arbitrary: t s1 rule: scan_string.induct)
  case (2 c s)
  show ?case
  proof (cases "c = CHR 0x5C")
    case True
    with 2 show ?thesis by (cases s) fastforce+
  next
    case False
    with 2 show ?thesis by (auto split: if_splits)
  qed
qed simp

definition literal :: "string \<Rightarrow> token \<Rightarrow> string \<Rightarrow> (token \<times> string) option" where
  "literal w t s = (if take (length w) s = w then Some (t, drop (length w) s) else None)"

definition punctuation :: "char \<Rightarrow> bool" where
  "punctuation c \<longleftrightarrow> c \<in> set ''{}[],:''"

text \<open>The first token of a text that is not empty.\<close>

definition scan_token :: "char \<Rightarrow> string \<Rightarrow> (token \<times> string) option" where
  "scan_token c s =
     (if punctuation c then Some (TPunct c, s)
      else if c = CHR 0x22 then map_option (map_prod TString id) (scan_string s)
      else if c = CHR ''n'' then literal ''ull'' TNull s
      else if c = CHR ''t'' then literal ''rue'' (TBool True) s
      else if c = CHR ''f'' then literal ''alse'' (TBool False) s
      else if is_digit c \<or> c = CHR ''-'' then Some (TNumber (c # takeWhile is_digit s), dropWhile is_digit s)
      else None)"

lemma scan_token_length: "scan_token c s = Some (t, s1) \<Longrightarrow> length s1 \<le> length s"
  unfolding scan_token_def literal_def
  by (auto simp: length_dropWhile_le simp del: take_Cons' drop_Cons' split: if_split_asm dest: scan_string_length less_imp_le)

function scan :: "string \<Rightarrow> token list option" where
  "scan [] = Some []"
| "scan (c # s) = (case scan_token c s of None \<Rightarrow> None | Some (t, s1) \<Rightarrow> map_option ((#) t) (scan s1))"
  by pat_completeness auto

termination
  by (relation "measure length") (auto dest: scan_token_length)

lemma scan_length: "scan s = Some ts \<Longrightarrow> length ts \<le> length s"
proof (induction s arbitrary: ts rule: scan.induct)
  case (2 c s)
  then obtain t s1 us where "scan_token c s = Some (t, s1)" "scan s1 = Some us" "ts = t # us"
    by (auto split: option.splits)
  with 2 scan_token_length [of c s t s1] show ?case by fastforce
qed simp

subsection \<open>Writing\<close>

definition escape :: "char \<Rightarrow> string" where
  "escape c = (if c = CHR 0x22 \<or> c = CHR 0x5C then [CHR 0x5C, c] else [c])"

definition escaping_writer :: json_writer where
  "escaping_writer = \<lparr> jw_String = (\<lambda>s. CHR 0x22 # concat (map escape s) @ [CHR 0x22]), jw_NilSliceAsEmpty = False \<rparr>"

lemma scan_escaped: "scan_string (concat (map escape s) @ CHR 0x22 # rest) = Some (s, rest)"
  by (induction s) (simp_all add: escape_def)

lemma escape_plain: "list_all plain s \<Longrightarrow> concat (map escape s) = s"
  by (induction s) (auto simp: escape_def plain_def is_digit_def)

lemma escaping_writer_plain: "writes_plainly escaping_writer (\<lambda>s. s)"
  by (simp add: writes_plainly_def escaping_writer_def escape_plain)

definition not_digit_first :: "string \<Rightarrow> bool" where
  "not_digit_first s \<longleftrightarrow> s = [] \<or> \<not> is_digit (hd s)"

lemma scan_number:
  assumes "not_digit_first rest"
  shows "scan (itoa n @ rest) = map_option ((#) (TNumber (itoa n))) (scan rest)"
proof -
  have tw: "takeWhile is_digit (ds @ rest) = ds" "dropWhile is_digit (ds @ rest) = rest" if "list_all is_digit ds" for ds
    using that assms by (cases rest; auto simp: not_digit_first_def list_all_iff takeWhile_append2 dropWhile_append2)+
  have no: "\<not> is_digit CHR ''{''" "\<not> is_digit CHR ''}''" "\<not> is_digit CHR ''[''" "\<not> is_digit CHR '']''"
    "\<not> is_digit CHR '',''" "\<not> is_digit CHR '':''" "\<not> is_digit CHR 0x22" "\<not> is_digit CHR ''n''" "\<not> is_digit CHR ''t''"
    "\<not> is_digit CHR ''f''" by (simp_all add: is_digit_def)
  show ?thesis
  proof (cases "n < 0")
    case True
    then show ?thesis using tw [OF dec_digits [of "nat (- n)"]] by (simp add: itoa_def scan_token_def punctuation_def)
  next
    case False
    obtain c ds where d: "dec (nat n) = c # ds" using dec_nonempty [of "nat n"] by (cases "dec (nat n)") auto
    with dec_digits [of "nat n"] have "is_digit c" "list_all is_digit ds" by simp_all
    moreover from this(1) no have "\<not> punctuation c" "c \<noteq> CHR 0x22" "c \<noteq> CHR ''n''" "c \<noteq> CHR ''t''" "c \<noteq> CHR ''f''"
      by (auto simp: punctuation_def)
    ultimately show ?thesis using tw [of ds] False by (simp add: itoa_def d scan_token_def)
  qed
qed

lemma scan_punct: "punctuation c \<Longrightarrow> scan (c # s) = map_option ((#) (TPunct c)) (scan s)"
  by (simp add: scan_token_def)

lemma scan_puncts [simp]:
  "scan (CHR ''{'' # s) = map_option ((#) (TPunct CHR ''{'')) (scan s)" "scan (CHR ''}'' # s) = map_option ((#) (TPunct CHR ''}'')) (scan s)"
  "scan (CHR ''['' # s) = map_option ((#) (TPunct CHR ''['')) (scan s)" "scan (CHR '']'' # s) = map_option ((#) (TPunct CHR '']'')) (scan s)"
  "scan (CHR '','' # s) = map_option ((#) (TPunct CHR '','')) (scan s)" "scan (CHR '':'' # s) = map_option ((#) (TPunct CHR '':'')) (scan s)"
  by (simp_all add: scan_punct punctuation_def del: scan.simps)

lemma scan_quoted:
  "scan (jw_String escaping_writer s @ rest) = map_option ((#) (TString s)) (scan rest)"
  by (simp add: escaping_writer_def scan_token_def scan_escaped punctuation_def)

lemma scan_words:
  "scan (''null'' @ rest) = map_option ((@) [TNull]) (scan rest)"
  "scan ((if b then ''true'' else ''false'') @ rest) = map_option ((@) [TBool b]) (scan rest)"
  by (cases "scan rest"; cases b; simp add: scan_token_def literal_def punctuation_def)+

text \<open>Items that scan one by one scan in a list.\<close>

lemma scan_joined:
  assumes "\<And>x rest. x \<in> set xs \<Longrightarrow> not_digit_first rest \<Longrightarrow> scan (f x @ rest) = map_option ((@) (g x)) (scan rest)"
    and "not_digit_first rest"
  shows "scan (joined (map f xs) @ rest) = map_option ((@) (commas (map g xs))) (scan rest)"
  using assms(1)
proof (induction xs)
  case Nil
  then show ?case by (simp add: option.map_ident)
next
  case (Cons x xs)
  show ?case
  proof (cases xs)
    case Nil
    with Cons.prems assms(2) show ?thesis by simp
  next
    case (Cons y ys)
    have "not_digit_first (CHR '','' # joined (map f xs) @ rest)" by (simp add: not_digit_first_def is_digit_def)
    from Cons.prems [OF _ this] Cons.IH Cons.prems
    have "scan (f x @ CHR '','' # joined (map f xs) @ rest) =
        map_option ((@) (g x)) (map_option ((#) (TPunct CHR '','')) (map_option ((@) (commas (map g xs))) (scan rest)))"
      by (simp del: scan.simps)
    then show ?thesis using Cons by (cases "scan rest") (simp_all del: scan.simps)
  qed
qed

lemma scan_text:
  assumes "numbers_ok j" and "not_digit_first rest"
  shows "scan (json_text escaping_writer j @ rest) = map_option ((@) (tokens j)) (scan rest)"
  using assms
proof (induction j arbitrary: rest)
  case (JArray js)
  have "not_digit_first (CHR '']'' # rest)" by (simp add: not_digit_first_def is_digit_def)
  then have "scan (joined (map (json_text escaping_writer) js) @ CHR '']'' # rest) =
      map_option ((@) (commas (map tokens js))) (scan (CHR '']'' # rest))"
    using JArray by (intro scan_joined) (auto simp: list_all_iff)
  then show ?case by (simp add: option.map_comp comp_def del: scan.simps)
next
  case (JObject ms)
  let ?f = "\<lambda>(k, v). jw_String escaping_writer k @ CHR '':'' # json_text escaping_writer v"
  let ?g = "\<lambda>(k, v). TString k # TPunct CHR '':'' # tokens v"
  have member: "scan (?f x @ rest') = map_option ((@) (?g x)) (scan rest')" if x: "x \<in> set ms" and r: "not_digit_first rest'" for x rest'
  proof -
    obtain k v where kv: "x = (k, v)" by (cases x)
    with x JObject.prems(1) have "numbers_ok v" by (auto simp: list_all_iff)
    with JObject.IH [of x v rest'] x r kv have "scan (json_text escaping_writer v @ rest') = map_option ((@) (tokens v)) (scan rest')"
      by simp
    then show ?thesis by (cases "scan rest'") (simp_all add: kv scan_quoted del: scan.simps)
  qed
  have "not_digit_first (CHR ''}'' # rest)" by (simp add: not_digit_first_def is_digit_def)
  with scan_joined [of ms ?f ?g] member
  have "scan (joined (map ?f ms) @ CHR ''}'' # rest) = map_option ((@) (commas (map ?g ms))) (scan (CHR ''}'' # rest))" by blast
  then show ?case by (simp add: option.map_comp comp_def del: scan.simps)
next
  case (JNumber n)
  then show ?case using scan_number by (auto simp del: scan.simps)
next
  case (JString s)
  then show ?case by (simp add: scan_quoted del: scan.simps)
qed (simp_all only: json_text.simps tokens.simps scan_words split: if_split)

subsection \<open>The lexer\<close>

datatype scanner = Fresh string | Ready "token list" | After "token list" | Broken string

fun opened :: "scanner \<Rightarrow> scanner" where
  "opened (Fresh s) = (case scan s of None \<Rightarrow> Broken ''syntax error'' | Some ts \<Rightarrow> Ready ts)"
| "opened l = l"

fun broken :: "scanner \<Rightarrow> scanner" where
  "broken (Broken e) = Broken e"
| "broken _ = Broken ''unexpected token''"

definition take_value :: "(token \<Rightarrow> 'a option) \<Rightarrow> 'a \<Rightarrow> scanner \<Rightarrow> 'a \<times> scanner" where
  "take_value val zero l = (case opened l of
     Ready (t # ts) \<Rightarrow> (case val t of Some v \<Rightarrow> (v, After ts) | None \<Rightarrow> (zero, Broken ''unexpected token''))
   | l1 \<Rightarrow> (zero, broken l1))"

definition scan_lexer :: "scanner jlexer" where
  "scan_lexer = \<lparr>
     jl_New = Fresh,
     jl_IsStart = (\<lambda>l. case l of Fresh s \<Rightarrow> True | _ \<Rightarrow> False),
     jl_IsNull = (\<lambda>l. (case opened l of Ready (t # ts) \<Rightarrow> t = TNull | _ \<Rightarrow> False, opened l)),
     jl_Skip = (\<lambda>l. case opened l of Ready (t # ts) \<Rightarrow> After ts | l1 \<Rightarrow> broken l1),
     jl_Consumed = (\<lambda>l. case l of After [] \<Rightarrow> l | Ready [TNull] \<Rightarrow> l | _ \<Rightarrow> broken l),
     jl_Delim = (\<lambda>c l. case opened l of
        Ready (t # ts) \<Rightarrow> if t \<noteq> TPunct c then Broken ''unexpected token'' else if closing t then After ts else Ready ts
      | l1 \<Rightarrow> broken l1),
     jl_IsDelim = (\<lambda>c l. case opened l of Ready (t # ts) \<Rightarrow> (t = TPunct c, Ready (t # ts)) | l1 \<Rightarrow> (True, broken l1)),
     jl_UnsafeFieldName = take_value string_token [],
     jl_WantColon = (\<lambda>l. case l of After (t # ts) \<Rightarrow> if t = TPunct CHR '':'' then Ready ts else broken l | _ \<Rightarrow> broken l),
     jl_WantComma = (\<lambda>l. case l of
        After (t # ts) \<Rightarrow>
          if closing t then Ready (t # ts)
          else if t = TPunct CHR '','' \<and> ts \<noteq> [] \<and> \<not> closing (hd ts) then Ready ts else broken l
      | _ \<Rightarrow> broken l),
     jl_String = take_value string_token [],
     jl_Uint64 = take_value (uint_token 64) 0,
     jl_Uint32 = take_value (uint_token 32) 0,
     jl_Int = take_value (int_token 64) 0,
     jl_Int32 = take_value (int_token 32) 0,
     jl_Int64 = take_value (int_token 64) 0,
     jl_GetPos = (\<lambda>l. 0),
     jl_AddError = (\<lambda>e l. case l of Broken d \<Rightarrow> Broken d | _ \<Rightarrow> Broken (le_Reason e)),
     jl_Error = (\<lambda>l. case l of Broken e \<Rightarrow> Some e | _ \<Rightarrow> None) \<rparr>"

fun scan_left :: "scanner \<Rightarrow> nat" where
  "scan_left (Fresh s) = Suc (length s)"
| "scan_left (Ready ts) = Suc (length ts)"
| "scan_left (After ts) = Suc (length ts)"
| "scan_left (Broken e) = 0"

lemma opened_left: "scan_left (opened l) \<le> scan_left l"
  by (cases l) (auto split: option.splits dest: scan_length)

lemma broken_left [simp]: "scan_left (broken l) = 0"
  by (cases l) auto

lemma take_value_left: "scan_left (snd (take_value val zero l)) \<le> scan_left l - 1"
  using opened_left [of l]
  by (cases "opened l") (auto simp: take_value_def split: list.splits option.splits)

lemma scan_lexer_stops: "lexer_stops scan_lexer scan_left"
proof -
  have "scan_left (snd (jl_IsDelim scan_lexer c l)) \<le> scan_left l" "scan_left l = 0 \<longrightarrow> fst (jl_IsDelim scan_lexer c l)"
    "scan_left (jl_Skip scan_lexer l) \<le> scan_left l - 1" "scan_left (jl_Delim scan_lexer c l) \<le> scan_left l - 1" for c l
    using opened_left [of l] by (cases "opened l"; cases l; auto simp: scan_lexer_def split: list.splits)+
  moreover have "scan_left (jl_WantColon scan_lexer l) \<le> scan_left l" "scan_left (jl_WantComma scan_lexer l) \<le> scan_left l"
    "scan_left (jl_Consumed scan_lexer l) \<le> scan_left l" for l
    by (cases l; auto simp: scan_lexer_def split: list.splits token.splits)+
  ultimately show ?thesis
    by (simp add: lexer_stops_def del: One_nat_def)
      (auto simp: scan_lexer_def opened_left take_value_left [unfolded One_nat_def] split: scanner.splits)
qed

definition ready_at :: "scanner \<Rightarrow> token list \<Rightarrow> bool" where
  "ready_at l ts \<longleftrightarrow> l = Ready ts"

definition after_at :: "scanner \<Rightarrow> token list \<Rightarrow> bool" where
  "after_at l ts \<longleftrightarrow> l = After ts"

lemma take_value_takes: "takes scan_left ready_at after_at (take_value val zero) val"
  by (auto simp: takes_def ready_at_def after_at_def take_value_def split: option.splits)

lemma scan_lexer_reads: "lexer_reads scan_lexer scan_left ready_at after_at"
  unfolding lexer_reads_def
  by (auto simp: scan_lexer_def take_value_takes ready_at_def after_at_def closing_def)

definition scan_denotes :: "string \<Rightarrow> json \<Rightarrow> bool" where
  "scan_denotes s j \<longleftrightarrow> scan s = Some (tokens j)"

lemma scan_lexer_opens: "lexer_opens scan_lexer ready_at scan_denotes"
proof -
  have "fst (jl_IsNull scan_lexer (jl_New scan_lexer s)) \<longleftrightarrow> j = JNull" "ready_at (snd (jl_IsNull scan_lexer (jl_New scan_lexer s))) (tokens j)"
    if "scan_denotes s j" for s j
    using that tokens_start [of j] by (auto simp: scan_denotes_def scan_lexer_def ready_at_def)
  then show ?thesis by (simp add: lexer_opens_def) (simp add: scan_lexer_def)
qed

lemma clean_json_ident: "clean_json (\<lambda>s. s) j = j"
  by (induction j) (auto intro!: map_idI)

lemma escaping_writer_ok: "writer_ok escaping_writer (\<lambda>s. s) scan_denotes"
proof -
  have "scan (json_text escaping_writer j) = Some (tokens j)" if "numbers_ok j" for j
    using scan_text [OF that, of "[]"] by (simp add: not_digit_first_def)
  then show ?thesis by (simp add: writer_ok_def escaping_writer_plain scan_denotes_def clean_json_ident)
qed

lemmas scan_lexer_laws = scan_lexer_reads scan_lexer_stops scan_lexer_opens escaping_writer_ok

end
