(* ===== verification/Wire.thy ===== *)
theory Wire
  imports Cdc_Json Emit_Json Jsonc_Json Json_Scanner Cdc_Cursor Replay
begin

section \<open>What goes over the wire\<close>

text \<open>
  The components take their JSON readers and writers as parameters; here the generated code of
  the repository is put in their place. Only the lexer and the string writer of easyjson are left
  as parameters, with their laws.
\<close>

subsection \<open>The generated code in the components\<close>

text \<open>
  \<^verbatim>\<open>Decode\<close>'s use of the generated reader: a lexer on the payload, then its error. That the reader
  returns is proved below, so the text of the other branch is never seen.
\<close>

definition generated_decode :: "'l jlexer \<Rightarrow> 'u decode_lib \<Rightarrow> 'u decode_lib" where
  "generated_decode L D = D\<lparr>unmarshal_message := (\<lambda>payload.
     Inr (case unmarshal_json L (jsonMessage_Decode L) payload jsonMessage_zero of Some res \<Rightarrow> res | None \<Rightarrow> Inl []))\<rparr>"

text \<open>
  The encoder's writer has no flags and the generated writer sets no error; whether the text
  stayed in the scratch buffer is the library's to say.
\<close>

definition generated_cdc ::
    "'l jlexer \<Rightarrow> json_writer \<Rightarrow> (nat \<Rightarrow> string \<Rightarrow> bool) \<Rightarrow> 'u cdc_lib \<Rightarrow> 'u cdc_lib" where
  "generated_cdc L W fit G = G\<lparr>
     MarshalEasyJSON := (\<lambda>cap msg. let body = Message_Encode (new_writer W) msg in Inr (body, fit cap body)),
     UnmarshalEasyJSON := (\<lambda>value. case Message_UnmarshalJSON L value Message_zero of Some res \<Rightarrow> res | None \<Rightarrow> Inl [])\<rparr>"

text \<open>\<^verbatim>\<open>easyjson.Marshal\<close> on the results message.\<close>

definition generated_emit :: "json_writer \<Rightarrow> emit_params \<Rightarrow> emit_params" where
  "generated_emit W E = E\<lparr>Marshal := (\<lambda>msg. Inr (ResultsMessage_MarshalJSON W msg))\<rparr>"

lemma new_writer_flag [simp]: "\<not> jw_NilSliceAsEmpty (new_writer W)"
  by (simp add: new_writer_def)

lemmas wire_facts =
  jsonMessage_code.unmarshal_returns [folded jsonMessage_Decode_def]
  Message_code.unmarshal_returns [folded Message_Decode_def]
  ResultsMessage_code.unmarshal_returns [folded ResultsMessage_Decode_def]

text \<open>
  C25: every generated reader returns, on any bytes and whatever was in the struct before: the
  loops over members and elements end because each pass reads a token or the lexer has failed.
\<close>

theorem generated_readers_return:
  assumes "lexer_stops L left"
  shows "(\<exists>res. jsonMessage_UnmarshalJSON L data m = Some res) \<and>
     (\<exists>res. Message_UnmarshalJSON L data c = Some res) \<and>
     (\<exists>res. ResultsMessage_UnmarshalJSON L data r = Some res)"
  using wire_facts [OF assms]
  by (simp add: jsonMessage_UnmarshalJSON_def Message_UnmarshalJSON_def ResultsMessage_UnmarshalJSON_def)

subsection \<open>Commands\<close>

lemma message_reads:
  assumes "lexer_reads L left rdy aft" and "lexer_stops L left" and "lexer_opens L rdy denotes"
    and "denotes payload j" and "j \<noteq> JNull"
  shows "case read_object (in_schema jsonMessage_table) j jsonMessage_zero of
     Some m \<Rightarrow> unmarshal_message (generated_decode L D) payload = Inr (Inr m)
   | None \<Rightarrow> \<exists>e. unmarshal_message (generated_decode L D) payload = Inr (Inl e)"
  using jsonMessage_code.unmarshal_reads [folded jsonMessage_Decode_def, OF assms, of jsonMessage_zero]
  by (cases "read_object (in_schema jsonMessage_table) j jsonMessage_zero") (auto simp: generated_decode_def)

text \<open>
  C12: the reader generated for commands computes a schema. On any text the lexer takes as a JSON
  value other than a bare \<^verbatim>\<open>null\<close>, it gives what the table of fields makes of the tree: members in
  their order, so that a repeated name takes its last value, \<^verbatim>\<open>null\<close> leaving a field as it is and
  making a slice nil; and it gives an error exactly when the table has no reading of the tree (a
  value of the wrong type, a number out of range or a name that is not in the table, at any depth).
\<close>

theorem command_reader_computes_the_schema:
  assumes "lexer_reads L left rdy aft" and "lexer_stops L left" and "lexer_opens L rdy denotes"
    and "denotes payload j" and "j \<noteq> JNull"
  shows "case read_object (in_schema jsonMessage_table) j jsonMessage_zero of
     Some m \<Rightarrow> jsonMessage_UnmarshalJSON L payload jsonMessage_zero = Some (Inr m)
   | None \<Rightarrow> \<exists>e. jsonMessage_UnmarshalJSON L payload jsonMessage_zero = Some (Inl e)"
  unfolding jsonMessage_UnmarshalJSON_def jsonMessage_Decode_def by (rule jsonMessage_code.unmarshal_reads [OF assms])

text \<open>The names a command may use, object by object.\<close>

definition transfer_names :: "string list" where
  "transfer_names = [''id'', ''debit_account_id'', ''credit_account_id'', ''pending_id'', ''amount'', ''ledger'', ''code'',
     ''flags'', ''user_data_128'', ''user_data_64'', ''user_data_32'', ''timeout'']"

definition account_names :: "string list" where
  "account_names = [''id'', ''ledger'', ''code'', ''flags'', ''user_data_128'', ''user_data_64'', ''user_data_32'']"

fun members :: "json \<Rightarrow> (string \<times> json) list" where
  "members (JObject ms) = ms"
| "members _ = []"

fun items :: "json \<Rightarrow> json list" where
  "items (JArray js) = js"
| "items _ = []"

definition names_in :: "string list \<Rightarrow> json \<Rightarrow> bool" where
  "names_in ks j \<longleftrightarrow> list_all (\<lambda>m. fst m \<in> set ks) (members j)"

definition command_names_known :: "json \<Rightarrow> bool" where
  "command_names_known j \<longleftrightarrow> list_all (\<lambda>(k, v).
     k = ''operation'' \<or>
     k = ''transfers'' \<and> list_all (names_in transfer_names) (items v) \<or>
     k = ''accounts'' \<and> list_all (names_in account_names) (items v)) (members j)"

lemma read_members_names: "read_members (in_schema tab) ms r = Some r' \<Longrightarrow> (k, v) \<in> set ms \<Longrightarrow> k \<in> set (map fst tab)"
proof (induction ms arbitrary: r)
  case (Cons m ms)
  obtain k' v' where m: "m = (k', v')" by (cases m)
  with Cons.prems(1) obtain r1 where r1: "in_schema tab k' v' r = Some r1" "read_members (in_schema tab) ms r1 = Some r'"
    by (auto simp: bind_eq_Some_conv)
  have "k' \<in> set (map fst tab)"
    using r1(1) by (cases "map_of tab k'") (auto simp: in_schema_def dest!: map_of_SomeD intro: rev_image_eqI)
  with Cons.IH [OF r1(2)] Cons.prems(2) m show ?case by auto
qed simp

lemma read_object_names:
  assumes "read_object (in_schema tab) j r = Some r'"
  shows "names_in (map fst tab) j"
  using assms by (cases j) (auto simp: names_in_def list_all_iff dest: read_members_names)

lemma read_items_each: "read_items g js = Some xs \<Longrightarrow> j \<in> set js \<Longrightarrow> \<exists>x. g j = Some x"
  by (induction js arbitrary: xs) (auto simp: bind_eq_Some_conv)

lemma read_slice_names:
  assumes "read_slice (read_object (in_schema tab)) zero upd v r = Some r'"
  shows "list_all (names_in (map fst tab)) (items v)"
proof (cases v)
  case (JArray js)
  with assms obtain xs where "read_items (\<lambda>j. if j = JNull then Some zero else read_object (in_schema tab) j zero) js = Some xs"
    by auto
  then have each: "\<exists>x. (if j = JNull then Some zero else read_object (in_schema tab) j zero) = Some x" if "j \<in> set js" for j
    using read_items_each that by fast
  have "names_in (map fst tab) j" if "j \<in> set js" for j
  proof (cases "j = JNull")
    case False
    with each [OF that] obtain x where "read_object (in_schema tab) j zero = Some x" by auto
    then show ?thesis by (rule read_object_names)
  qed (simp add: names_in_def)
  then show ?thesis by (simp add: JArray list_all_iff)
qed simp_all

lemma table_names: "map fst jsonTransfer_table = transfer_names" "map fst jsonAccount_table = account_names"
  by (simp_all add: jsonTransfer_table_def jsonAccount_table_def transfer_names_def account_names_def)

lemma read_message_names:
  assumes "read_object (in_schema jsonMessage_table) j r = Some r'"
  shows "command_names_known j"
proof (cases j)
  case (JObject ms)
  have "read_members (in_schema jsonMessage_table) ms r = Some r' \<Longrightarrow> command_names_known (JObject ms)" for r
  proof (induction ms arbitrary: r)
    case (Cons m ms)
    obtain k v where m: "m = (k, v)" by (cases m)
    with Cons.prems obtain r1 where r1: "in_schema jsonMessage_table k v r = Some r1"
      "read_members (in_schema jsonMessage_table) ms r1 = Some r'" by (auto simp: bind_eq_Some_conv)
    from r1(1) have "k = ''operation'' \<or> k = ''transfers'' \<and> list_all (names_in transfer_names) (items v) \<or>
        k = ''accounts'' \<and> list_all (names_in account_names) (items v)"
      unfolding jsonMessage_table_def by (auto simp flip: table_names split: if_split_asm intro: read_slice_names)
    with Cons.IH [OF r1(2)] show ?case by (simp add: command_names_known_def m)
  qed (simp add: command_names_known_def)
  with assms JObject show ?thesis by simp
qed (simp_all add: command_names_known_def)

text \<open>
  C13: a misspelt field name is never ignored. A JSON command that has a name outside the schema,
  at the top or in any of its transfers or accounts, is poison for every configuration, so it is
  dead-lettered and nothing of it reaches TigerBeetle with a zero where a value was meant.
\<close>

theorem unknown_field_is_poison:
  assumes "lexer_reads L left rdy aft" and "lexer_stops L left" and "lexer_opens L rdy denotes"
    and "denotes payload j" and "\<not> command_names_known j"
  shows "\<exists>p. Decode (generated_decode L D) d payload = Inl p"
proof -
  have "j \<noteq> JNull" using assms(5) by (auto simp: command_names_known_def)
  moreover have "read_object (in_schema jsonMessage_table) j jsonMessage_zero = None"
    using read_message_names assms(5) by (metis not_None_eq)
  ultimately obtain e where "unmarshal_message (generated_decode L D) payload = Inr (Inl e)"
    using message_reads [OF assms(1-4), of D] by auto
  then show ?thesis by (auto simp: Decode_def split: option.splits)
qed

subsection \<open>Change events\<close>

lemma generated_cdc_simps [simp]:
  "u128 (generated_cdc L W fit G) = u128 G" "uuid (generated_cdc L W fit G) = uuid G"
  "MarshalEasyJSON (generated_cdc L W fit G) cap msg = Inr (Message_Encode (new_writer W) msg, fit cap (Message_Encode (new_writer W) msg))"
  by (simp_all add: generated_cdc_def Let_def)

lemma message_round_trip:
  assumes "lexer_reads L left rdy aft" and "lexer_stops L left" and "lexer_opens L rdy denotes"
    and "writer_ok (new_writer W) clean denotes"
  shows "Message_UnmarshalJSON L (Message_Encode (new_writer W) msg) Message_zero = Some (Inr (Message_cleaned clean msg))"
  unfolding Message_UnmarshalJSON_def Message_Decode_def by (rule Message_code.round_trip [OF assms]) simp_all

text \<open>So what the cursor and the job rely on holds of the generated code.\<close>

lemma generated_codec_ok:
  assumes "lexer_reads L left rdy aft" and "lexer_stops L left" and "lexer_opens L rdy denotes"
    and "writer_ok (new_writer W) clean denotes"
  shows "codec_ok (generated_cdc L W fit G)"
proof -
  have digits: "clean s = s" if "list_all is_digit s" for s
  proof -
    have "list_all plain s" using that by (simp add: list_all_iff plain_def)
    then show ?thesis using assms(4) by (simp add: writer_ok_def writes_plainly_def)
  qed
  have "UnmarshalEasyJSON (generated_cdc L W fit G) (Message_Encode (new_writer W) msg) = Inr (Message_cleaned clean msg)" for msg
    using message_round_trip [OF assms] by (simp add: generated_cdc_def)
  then show ?thesis by (simp add: codec_ok_def digits Message_cleaned_def)
qed

lemma Record_wire:
  assumes "Record (generated_cdc L W fit G) ev c e = (Inr (Inr rec), e')"
  obtains msg where "fst (message_of (generated_cdc L W fit G) ev c e) = Inr msg"
    and "o_Value rec = Message_Encode (new_writer W) msg"
  using Record_Inr [OF assms] by (auto simp: message_of_split)

text \<open>
  C14: a record says exactly what the job built. Reading a published record back with the
  generated code gives the message, field by field (the fields left out when zero come back as
  zero, flags as a list; text that is no UTF-8 with its replacement), and the checkpoint in it is
  the one the job passed to the encoder, over the whole \<^verbatim>\<open>uint64\<close> range; so the cursor can be kept
  in the topic.
\<close>

theorem published_record_reads_back:
  assumes "lexer_reads L left rdy aft" and "lexer_stops L left" and "lexer_opens L rdy denotes"
    and "writer_ok (new_writer W) clean denotes"
    and "Record (generated_cdc L W fit G) ev c e = (Inr (Inr rec), e')"
  shows "\<exists>msg. fst (message_of (generated_cdc L W fit G) ev c e) = Inr msg \<and>
     Message_UnmarshalJSON L (o_Value rec) Message_zero = Some (Inr (Message_cleaned clean msg)) \<and>
     recordCheckpoint (generated_cdc L W fit G) (o_Value rec) = Some c"
proof -
  obtain msg where msg: "fst (message_of (generated_cdc L W fit G) ev c e) = Inr msg"
    "o_Value rec = Message_Encode (new_writer W) msg" using Record_wire [OF assms(5)] by blast
  then show ?thesis
    using message_round_trip [OF assms(1-4)] Record_checkpoint [OF generated_codec_ok [OF assms(1-4)] assms(5)] by simp
qed

subsection \<open>From the stream back into the sink, in bytes\<close>

definition command_of :: "cdc_message \<Rightarrow> json_message" where
  "command_of msg = \<lparr> Operation = ''create_transfers'', jm_Transfers = Some [as_command msg], jm_Accounts = None \<rparr>"

text \<open>All of a message's texts are valid UTF-8: reading them back changes nothing.\<close>

lemma as_command_cleaned:
  assumes "Message_cleaned clean msg = msg"
  shows "jsonTransfer_cleaned clean (as_command msg) = as_command msg"
proof -
  have parts: "m_Ledger (Message_cleaned clean msg) = m_Ledger msg" "m_Transfer (Message_cleaned clean msg) = m_Transfer msg"
    "m_DebitAccount (Message_cleaned clean msg) = m_DebitAccount msg"
    "m_CreditAccount (Message_cleaned clean msg) = m_CreditAccount msg"
    by (simp_all only: assms)
  have "Transfer_cleaned clean (m_Transfer msg) = m_Transfer msg" "Account_cleaned clean (m_DebitAccount msg) = m_DebitAccount msg"
    "Account_cleaned clean (m_CreditAccount msg) = m_CreditAccount msg" "clean (m_Ledger msg) = m_Ledger msg"
    using parts by (simp_all add: Message_cleaned_def)
  then have "tm_ID (Transfer_cleaned clean (m_Transfer msg)) = tm_ID (m_Transfer msg)"
    "tm_Amount (Transfer_cleaned clean (m_Transfer msg)) = tm_Amount (m_Transfer msg)"
    "tm_PendingID (Transfer_cleaned clean (m_Transfer msg)) = tm_PendingID (m_Transfer msg)"
    "tm_UserData128 (Transfer_cleaned clean (m_Transfer msg)) = tm_UserData128 (m_Transfer msg)"
    "tm_Timeout (Transfer_cleaned clean (m_Transfer msg)) = tm_Timeout (m_Transfer msg)"
    "tm_Code (Transfer_cleaned clean (m_Transfer msg)) = tm_Code (m_Transfer msg)"
    "tm_Flags (Transfer_cleaned clean (m_Transfer msg)) = tm_Flags (m_Transfer msg)"
    "am_ID (Account_cleaned clean (m_DebitAccount msg)) = am_ID (m_DebitAccount msg)"
    "am_ID (Account_cleaned clean (m_CreditAccount msg)) = am_ID (m_CreditAccount msg)" "clean (m_Ledger msg) = m_Ledger msg"
    by simp_all
  then show ?thesis by (simp add: jsonTransfer_cleaned_def as_command_def Transfer_cleaned_def Account_cleaned_def)
qed

lemma generated_decode_fields [simp]:
  "d_u128 (generated_decode L D) = d_u128 D" "d_uuid (generated_decode L D) = d_uuid D"
  "transfer_ToUint16 (generated_decode L D) = transfer_ToUint16 D" "float_part (generated_decode L D) = float_part D"
  by (simp_all add: generated_decode_def)

lemma generated_decode_ids [simp]:
  "parse_id (generated_decode L D) = parse_id D" "parse_id_if_given (generated_decode L D) = parse_id_if_given D"
  "user_data (generated_decode L D) = user_data D"
  by (simp_all add: fun_eq_iff parse_id_def [abs_def] parse_id_if_given_def user_data_def)

lemma generated_decode_transfer [simp]: "transfer (generated_decode L D) = transfer D"
  unfolding fun_eq_iff transfer_def parties_def generated_decode_fields generated_decode_ids by blast

lemma command_round_trip:
  assumes "lexer_reads L left rdy aft" and "lexer_stops L left" and "lexer_opens L rdy denotes"
    and "writer_ok (new_writer W) clean denotes"
  shows "unmarshal_message (generated_decode L D) (jsonMessage_MarshalJSON W m) = Inr (Inr (jsonMessage_cleaned clean m))"
  using jsonMessage_code.round_trip [folded jsonMessage_Decode_def, OF assms, of m]
  by (simp add: generated_decode_def jsonMessage_MarshalJSON_def)

text \<open>
  C11: the change-event stream replays into the sink, byte by byte. Take any event whose ledger and
  code the registry names and whose texts are valid UTF-8, with non-zero ids, a pending id exactly
  with the post or void flag, and no flag beyond the eight a producer may set. A consumer that
  parses the published record and writes its transfer back as a command, with the generated code
  on both sides, gets from the sink's decoder, if the command keeps within the decoder's limits,
  exactly one transfer, the one TigerBeetle recorded: id, accounts, amount,
  pending id, user data, timeout, ledger, code and flags, but for the link to a next transfer,
  which a command of one cannot have.
\<close>

theorem replayed_record_is_the_recorded_transfer:
  assumes "lexer_reads L left rdy aft" and "lexer_stops L left" and "lexer_opens L rdy denotes"
    and "writer_ok (new_writer W) clean denotes"
    and "libs_ok D" and "d_u128 D = u128 G" and "d_uuid D = uuid G" and "uuid_nonempty (uuid G)"
    and "registry_ok (reg e)" and "d_reg d = reg e" and "event_ok (u128 G) ev"
    and "LedgerName (reg e) (ce_Ledger ev) = Inr name" and "CodeName (reg e) (ce_TransferCode ev) = Inr code"
    and "Record (generated_cdc L W fit G) ev c e = (Inr (Inr rec), e')"
    and "\<And>msg. fst (message_of (generated_cdc L W fit G) ev c e) = Inr msg \<Longrightarrow> Message_cleaned clean msg = msg"
    and "Message_UnmarshalJSON L (o_Value rec) Message_zero = Some (Inr msg)"
    and "payload = jsonMessage_MarshalJSON W (command_of msg)"
    and "int (length payload) \<le> MaxMessageBytes (d_lim d)" and "checkDepth payload (MaxJSONDepth (d_lim d)) = None"
    and "1 \<le> MaxEventsPerMessage (d_lim d)"
  shows "\<exists>cm. Decode (generated_decode L D) d payload = Inr cm \<and>
     Transfers cm = [(recorded ev)\<lparr>t_Flags := clearLinked (ce_TransferFlags ev)\<rparr>] \<and> Accounts cm = []"
proof -
  obtain m where m: "fst (message_of (generated_cdc L W fit G) ev c e) = Inr m"
    "o_Value rec = Message_Encode (new_writer W) m" using Record_wire [OF assms(14)] by blast
  have clean: "Message_cleaned clean m = m" using assms(15) m(1) by blast
  have eq: "m = msg" using message_round_trip [OF assms(1-4), of m] assms(16) m(2) clean by simp
  have t: "transfer D d (as_command msg) = Inr (recorded ev)"
    using replayed_transfer_is_the_recorded_one [of D "generated_cdc L W fit G" e d ev name code c m] assms(5-13) m(1) eq
    by simp
  have word: "clean ''create_transfers'' = ''create_transfers''"
    using assms(4) by (simp add: writer_ok_def writes_plainly_def)
  have "unmarshal_message (generated_decode L D) payload = Inr (Inr (command_of msg))"
    using command_round_trip [OF assms(1-4), of D "command_of msg"] as_command_cleaned [OF clean] assms(17) eq
    by (simp add: command_of_def jsonMessage_cleaned_def word)
  then show ?thesis
    using assms(18-20) t
    by (auto simp: Decode_def command_of_def OpCreateTransfers_def decodeTransfers_def clear_last_transfer_def recorded_def)
qed

subsection \<open>Results\<close>

text \<open>
  C26: a results message tells its reader exactly what happened: what \<^verbatim>\<open>Results\<close> hands to the
  broker reads back, with the generated code, as the source topic, partition and offset of the
  command, the outcome of each of its events in order, and the time; an empty list of outcomes
  comes back as one, not as nil.
\<close>

theorem published_results_read_back:
  assumes "lexer_reads L left rdy aft" and "lexer_stops L left" and "lexer_opens L rdy denotes"
    and "writer_ok (new_writer W) clean denotes"
    and "Results_topic E \<noteq> []" and "ResultsMessage_fits (results_of E now rec outcomes)"
  shows "\<exists>body. Results (generated_emit W E) now rec outcomes s =
       produce \<lparr> o_Topic = Results_topic E, o_Key = k_Key rec, o_Value = body, o_Headers = [] \<rparr> s \<and>
     ResultsMessage_UnmarshalJSON L body ResultsMessage_zero =
       Some (Inr (ResultsMessage_cleaned clean (results_of E now rec outcomes)))"
proof -
  have "results_of (generated_emit W E) now rec outcomes = results_of E now rec outcomes"
    by (simp add: results_of_def generated_emit_def)
  moreover have "ResultsMessage_UnmarshalJSON L (ResultsMessage_Encode (new_writer W) (results_of E now rec outcomes)) ResultsMessage_zero =
      Some (Inr (ResultsMessage_cleaned clean (results_of E now rec outcomes)))"
    unfolding ResultsMessage_UnmarshalJSON_def ResultsMessage_Decode_def
    by (rule ResultsMessage_code.round_trip [OF assms(1-4)]) (simp_all add: assms(6))
  ultimately show ?thesis
    using assms(5)
    by (intro exI [of _ "ResultsMessage_Encode (new_writer W) (results_of E now rec outcomes)"])
      (simp add: Results_def generated_emit_def ResultsMessage_MarshalJSON_def)
qed

subsection \<open>Witnesses\<close>

text \<open>The properties on the scanner and the writer that keep the laws.\<close>

lemma new_escaping_writer: "new_writer escaping_writer = escaping_writer"
  by (simp add: new_writer_def escaping_writer_def)

lemma scan_writes: "writer_ok (new_writer escaping_writer) (\<lambda>s. s) scan_denotes"
  by (simp add: new_escaping_writer escaping_writer_ok)

lemma scan_denotes_text: "numbers_ok j \<Longrightarrow> scan_denotes (json_text escaping_writer j) j"
  using escaping_writer_ok by (simp add: writer_ok_def clean_json_ident)

theorem generated_readers_return_witness:
  "\<exists>res. jsonMessage_UnmarshalJSON scan_lexer ''{[,'' jsonMessage_zero = Some res"
  using generated_readers_return [OF scan_lexer_stops] by blast

definition twice_json :: json where
  "twice_json = JObject [(''transfers'', JNull), (''operation'', JString ''a''), (''operation'', JString ''b'')]"

theorem command_reader_computes_the_schema_witness:
  "jsonMessage_UnmarshalJSON scan_lexer (json_text escaping_writer twice_json) jsonMessage_zero =
     Some (Inr \<lparr> Operation = ''b'', jm_Transfers = None, jm_Accounts = None \<rparr>)"
proof -
  have "scan_denotes (json_text escaping_writer twice_json) twice_json"
    by (rule scan_denotes_text) (simp add: twice_json_def)
  moreover have "twice_json \<noteq> JNull" by (simp add: twice_json_def)
  moreover have "read_object (in_schema jsonMessage_table) twice_json jsonMessage_zero =
      Some \<lparr> Operation = ''b'', jm_Transfers = None, jm_Accounts = None \<rparr>"
    by (simp add: twice_json_def jsonMessage_table_def jsonMessage_zero_def)
  ultimately show ?thesis
    using command_reader_computes_the_schema [OF scan_lexer_reads scan_lexer_stops scan_lexer_opens, of _ twice_json] by fastforce
qed

definition misspelt_json :: json where
  "misspelt_json = JObject [(''operation'', JString ''create_transfers''),
     (''transfers'', JArray [JObject [(''ammount'', JString ''5'')]])]"

theorem unknown_field_is_poison_witness:
  "\<exists>p. Decode (generated_decode scan_lexer demo_decode) demo_decoder (json_text escaping_writer misspelt_json) = Inl p"
proof -
  have "scan_denotes (json_text escaping_writer misspelt_json) misspelt_json"
    by (rule scan_denotes_text) (simp add: misspelt_json_def)
  moreover have "\<not> command_names_known misspelt_json"
    by (simp add: misspelt_json_def command_names_known_def names_in_def transfer_names_def)
  ultimately show ?thesis
    by (rule unknown_field_is_poison [OF scan_lexer_reads scan_lexer_stops scan_lexer_opens])
qed

abbreviation scan_cdc :: "128 word cdc_lib" where
  "scan_cdc \<equiv> generated_cdc scan_lexer escaping_writer (\<lambda>cap body. length body \<le> cap) demo_lib"

abbreviation sample_encoder :: encoder where
  "sample_encoder \<equiv> NewEncoder (CDC sample_config) sample_registry"

lemma sample_record:
  obtains rec e' where "Record scan_cdc ev c sample_encoder = (Inr (Inr rec), e')"
proof -
  have "u128_ok (u128 scan_cdc)" "registry_ok (reg sample_encoder)"
    using pending_event_laws(4) by (simp_all add: pending_event_laws(5) sample_registry_ok)
  from message_text_total [OF this] obtain msg where "message_text scan_cdc (reg sample_encoder) ev c = Inr msg" by blast
  then show ?thesis
    using that by (cases "Record scan_cdc ev c sample_encoder") (auto simp: Record_def message_of_split marshal_def split: if_splits bool.splits)
qed

theorem published_record_reads_back_witness:
  "\<exists>rec e'. Record scan_cdc (event_at 9) 3 sample_encoder = (Inr (Inr rec), e') \<and>
     recordCheckpoint scan_cdc (o_Value rec) = Some 3"
proof -
  obtain rec e' where rec: "Record scan_cdc (event_at 9) 3 sample_encoder = (Inr (Inr rec), e')" by (rule sample_record)
  from published_record_reads_back [OF scan_lexer_reads scan_lexer_stops scan_lexer_opens scan_writes rec] rec
  show ?thesis by blast
qed

text \<open>Text no deeper than it is long passes a depth limit of its length.\<close>

lemma depth_loop_short: "maxSeen \<le> m \<Longrightarrow> depth + int (length s) \<le> m \<Longrightarrow> depth_loop m depth maxSeen inStr esc s = None"
  by (induction s arbitrary: depth maxSeen inStr esc) (auto simp: Let_def)

lemma nothing_to_clean: "Message_cleaned (\<lambda>s. s) msg = msg"
  by (simp add: Message_cleaned_def Transfer_cleaned_def Account_cleaned_def option.map_ident)

definition wide_decoder :: "string \<Rightarrow> decoder" where
  "wide_decoder payload = \<lparr> d_reg = sample_registry, d_lim = (Limits sample_config)
     \<lparr>MaxMessageBytes := int (length payload), MaxJSONDepth := int (length payload)\<rparr> \<rparr>"

theorem replayed_record_is_the_recorded_transfer_witness:
  "\<exists>rec e' msg cm. Record scan_cdc pending_event 3 sample_encoder = (Inr (Inr rec), e') \<and>
     Message_UnmarshalJSON scan_lexer (o_Value rec) Message_zero = Some (Inr msg) \<and>
     Decode (generated_decode scan_lexer demo_decode) (wide_decoder (jsonMessage_MarshalJSON escaping_writer (command_of msg)))
       (jsonMessage_MarshalJSON escaping_writer (command_of msg)) = Inr cm \<and>
     Transfers cm = [(recorded pending_event)\<lparr>t_Flags := clearLinked (ce_TransferFlags pending_event)\<rparr>]"
proof -
  note laws = scan_lexer_reads scan_lexer_stops scan_lexer_opens scan_writes
  obtain rec e' where rec: "Record scan_cdc pending_event 3 sample_encoder = (Inr (Inr rec), e')" by (rule sample_record)
  obtain msg where msg: "o_Value rec = Message_Encode (new_writer escaping_writer) msg" using Record_wire [OF rec] by blast
  have reread: "Message_UnmarshalJSON scan_lexer (o_Value rec) Message_zero = Some (Inr msg)"
    using message_round_trip [OF laws, of msg] by (simp add: msg nothing_to_clean)
  let ?p = "jsonMessage_MarshalJSON escaping_writer (command_of msg)"
  have limits: "checkDepth ?p (MaxJSONDepth (d_lim (wide_decoder ?p))) = None"
    "int (length ?p) \<le> MaxMessageBytes (d_lim (wide_decoder ?p))" "1 \<le> MaxEventsPerMessage (d_lim (wide_decoder ?p))"
    "d_reg (wide_decoder ?p) = reg sample_encoder"
    by (simp_all only: pending_event_laws(5)) (simp_all add: checkDepth_def wide_decoder_def depth_loop_short sample_config_def)
  have reg: "registry_ok (reg sample_encoder)" by (simp add: pending_event_laws(5) sample_registry_ok)
  have names: "LedgerName (reg sample_encoder) (ce_Ledger pending_event) = Inr ''USD''"
    "CodeName (reg sample_encoder) (ce_TransferCode pending_event) = Inr ''payment''"
    unfolding pending_event_laws(5) by (rule pending_event_names)+
  show ?thesis
    using replayed_record_is_the_recorded_transfer [OF laws demo_decode_ok pending_event_laws(1-3) reg limits(4) pending_event_ok
        names rec nothing_to_clean reread refl limits(2,1,3)] rec reread
    by blast
qed

theorem published_results_read_back_witness:
  "\<exists>body m. Results (generated_emit escaping_writer (demo_emit\<lparr>Results_topic := ''r''\<rparr>)) 7 (rec_at 5) [] New_emitter =
       produce \<lparr> o_Topic = ''r'', o_Key = k_Key (rec_at 5), o_Value = body, o_Headers = [] \<rparr> New_emitter \<and>
     ResultsMessage_UnmarshalJSON scan_lexer body ResultsMessage_zero = Some (Inr m) \<and> rm_Results m = Some []"
proof -
  let ?E = "demo_emit\<lparr>Results_topic := ''r''\<rparr>"
  have "ResultsMessage_fits (results_of ?E 7 (rec_at 5) [])"
    by (simp add: ResultsMessage_fits_def Source_fits_def results_of_def rec_at_def)
  from published_results_read_back [OF scan_lexer_reads scan_lexer_stops scan_lexer_opens scan_writes _ this, of New_emitter]
  show ?thesis by (auto simp: ResultsMessage_cleaned_def results_of_def)
qed

end
