(* ===== verification/Loadgen_Wire.thy ===== *)
theory Loadgen_Wire
  imports Loadgen Wire
begin

section \<open>What the load generator writes and the sink reads\<close>

text \<open>
  The load generator and the sink name the fields of a command each on its own: one by the tags
  of its structs, the other by the switches of the generated reader. Here both ends meet: the
  documents of the generator are read by the generated code, and the messages it builds are
  accepted by the decoder.
\<close>

subsection \<open>The rendering\<close>

text \<open>
  What \<^verbatim>\<open>json.Marshal\<close> is relied on for: the text it returns is JSON for the document, in which a
  string that is not valid UTF-8 is replaced by \<open>clean s\<close>. Plain texts are valid UTF-8.
\<close>

definition renders :: "load_env \<Rightarrow> (string \<Rightarrow> string) \<Rightarrow> (string \<Rightarrow> json \<Rightarrow> bool) \<Rightarrow> bool" where
  "renders E clean denotes \<longleftrightarrow>
     (\<forall>s. list_all plain s \<longrightarrow> clean s = s) \<and>
     (\<forall>j b. numbers_ok j \<longrightarrow> json_Marshal E j = Inr b \<longrightarrow> denotes b (clean_json clean j))"

lemma renders_plain: "renders E clean denotes \<Longrightarrow> list_all plain s \<Longrightarrow> clean s = s"
  by (simp add: renders_def)

lemma wire_message_numbers: "numbers_ok (wire_message_json m)"
  by (auto simp: wire_message_json_def wire_transfer_json_def wire_account_json_def list_all_iff optional_def)

subsection \<open>Document and reader agree on every name\<close>

lemma read_array:
  assumes "\<And>x. x \<in> set xs \<Longrightarrow> f x \<noteq> JNull \<and> g (f x) zero = Some (h x)"
  shows "read_slice g zero upd (JArray (map f xs)) r = Some (upd (Some (map h xs)) r)"
  using read_slice_back [of "Some xs" f g zero h escaping_writer upd r] assms
  by (simp add: slice_json_def escaping_writer_def)

text \<open>Texts of a struct that are valid UTF-8.\<close>

definition transfer_texts :: "wire_transfer \<Rightarrow> string list" where
  "transfer_texts w = [w_ID w, w_DebitAccountID w, w_CreditAccountID w, w_Amount w, w_Ledger w, w_Code w] @ w_Flags w"

definition account_texts :: "wire_account \<Rightarrow> string list" where
  "account_texts w = [wa_ID w, wa_Ledger w, wa_Code w]"

definition message_texts :: "wire_message \<Rightarrow> string list" where
  "message_texts m = wm_Operation m # concat (map transfer_texts (wm_Transfers m)) @ concat (map account_texts (wm_Accounts m))"

lemma wire_transfer_reads:
  assumes "\<And>s. list_all plain s \<Longrightarrow> clean s = s" and "\<forall>s \<in> set (transfer_texts w). clean s = s"
  shows "read_object (in_schema jsonTransfer_table) (clean_json clean (wire_transfer_json w)) jsonTransfer_zero =
     Some (as_json_transfer w)"
proof -
  have same: "map clean (w_Flags w) = w_Flags w" using assms(2) by (simp add: transfer_texts_def map_idI)
  have "read_slice read_string [] upd (JArray (map (\<lambda>s. JString (clean s)) (w_Flags w))) r = Some (upd (Some (w_Flags w)) r)"
    for upd and r :: json_transfer
    using read_array [of "w_Flags w" "\<lambda>s. JString (clean s)" read_string "[]" clean upd r] same
    by (simp add: read_string_def)
  then show ?thesis
    using assms(2)
    by (cases "w_Flags w = []"; cases "w_UserData64 w = 0")
      (simp_all add: wire_transfer_json_def transfer_texts_def optional_def assms(1) o_def jsonTransfer_table_def
        jsonTransfer_zero_def as_json_transfer_def appended_def del: read_slice.simps)
qed

lemma wire_account_reads:
  assumes "\<And>s. list_all plain s \<Longrightarrow> clean s = s" and "\<forall>s \<in> set (account_texts w). clean s = s"
  shows "read_object (in_schema jsonAccount_table) (clean_json clean (wire_account_json w)) jsonAccount_zero =
     Some (as_json_account w)"
  using assms(2)
  by (simp add: wire_account_json_def account_texts_def assms(1) jsonAccount_table_def jsonAccount_zero_def as_json_account_def)

lemma wire_message_reads:
  assumes plain: "\<And>s. list_all plain s \<Longrightarrow> clean s = s" and "\<forall>s \<in> set (message_texts m). clean s = s"
  shows "read_object (in_schema jsonMessage_table) (clean_json clean (wire_message_json m)) jsonMessage_zero = Some (as_json m)"
proof -
  have transfers: "read_slice (read_object (in_schema jsonTransfer_table)) jsonTransfer_zero upd
      (JArray (map (\<lambda>w. clean_json clean (wire_transfer_json w)) (wm_Transfers m))) r =
      Some (upd (Some (map as_json_transfer (wm_Transfers m))) r)" for upd and r :: json_message
    using assms(2) wire_transfer_reads [OF plain]
    by (intro read_array) (auto simp: message_texts_def wire_transfer_json_def)
  have accounts: "read_slice (read_object (in_schema jsonAccount_table)) jsonAccount_zero upd
      (JArray (map (\<lambda>w. clean_json clean (wire_account_json w)) (wm_Accounts m))) r =
      Some (upd (Some (map as_json_account (wm_Accounts m))) r)" for upd and r :: json_message
    using assms(2) wire_account_reads [OF plain]
    by (intro read_array) (auto simp: message_texts_def wire_account_json_def)
  show ?thesis
    using assms(2)
    by (cases "wm_Transfers m = []"; cases "wm_Accounts m = []")
      (simp_all add: wire_message_json_def message_texts_def optional_def plain o_def jsonMessage_table_def
        jsonMessage_zero_def as_json_def appended_def transfers accounts del: read_slice.simps)
qed

lemma marshalled_reads:
  assumes "lexer_reads L left rdy aft" and "lexer_stops L left" and "lexer_opens L rdy denotes"
    and "renders E clean denotes" and "marshalJSON E m = Inr body" and "\<forall>s \<in> set (message_texts m). clean s = s"
  shows "unmarshal_message (generated_decode L D) body = Inr (Inr (as_json m))"
proof -
  have "denotes body (clean_json clean (wire_message_json m))"
    using assms(4,5) wire_message_numbers by (auto simp: renders_def marshalJSON_def)
  moreover have "clean_json clean (wire_message_json m) \<noteq> JNull" by (simp add: wire_message_json_def)
  ultimately show ?thesis
    using message_reads [OF assms(1-3), of body "clean_json clean (wire_message_json m)" D]
      wire_message_reads [OF renders_plain [OF assms(4)] assms(6)] by simp
qed

lemma generated_decode_account [simp]:
  "account (generated_decode L D) = account D" "decodeAccounts (generated_decode L D) = decodeAccounts D"
  "decodeTransfers (generated_decode L D) = decodeTransfers D"
proof -
  have "account_ToUint16 (generated_decode L D) = account_ToUint16 D" by (simp add: generated_decode_def)
  then show a: "account (generated_decode L D) = account D" by (simp add: fun_eq_iff account_def)
  show "decodeAccounts (generated_decode L D) = decodeAccounts D" by (simp add: fun_eq_iff decodeAccounts_def a)
  show "decodeTransfers (generated_decode L D) = decodeTransfers D" by (simp add: fun_eq_iff decodeTransfers_def)
qed

subsection \<open>The texts of a generated message\<close>

lemma plain_words:
  "list_all plain ledgerName" "list_all plain codeName" "list_all plain ''create_transfers''"
  "list_all plain ''create_accounts''" "list_all plain ''linked''"
  by (simp_all add: ledgerName_def codeName_def plain_def is_digit_def)

lemma plain_cents: "list_all plain (cents_text m)"
proof -
  have "list_all plain (dec n)" for n using dec_digits [of n] by (auto simp: list_all_iff plain_def)
  then show ?thesis by (simp add: cents_text_def plain_def is_digit_def)
qed

lemma wire_ok_texts:
  assumes "renders E clean denotes" and "\<forall>s \<in> range (NewUUID E). clean s = s" and "set (rc_pool cfg) \<subseteq> range (NewUUID E)"
    and "wire_ok E cfg now linked w" and "s \<in> set (transfer_texts w)"
  shows "clean s = s"
proof -
  note W = assms(4) [unfolded wire_ok_def]
  have "clean s = s" if "list_all plain s" using renders_plain [OF assms(1) that] .
  moreover have "s \<in> range (NewUUID E) \<or> list_all plain s"
    using W assms(3,5) plain_words plain_cents by (auto simp: transfer_texts_def split: if_splits)
  ultimately show ?thesis using assms(2) by blast
qed

lemma seed_texts:
  assumes "renders E clean denotes" and "\<forall>s \<in> range (NewUUID E). clean s = s" and "set batch \<subseteq> range (NewUUID E)"
    and "s \<in> set (message_texts (seed_message batch))"
  shows "clean s = s"
proof -
  have "s \<in> range (NewUUID E) \<or> list_all plain s"
    using assms(3,4) plain_words by (auto simp: message_texts_def seed_message_def account_texts_def)
  then show ?thesis using renders_plain [OF assms(1)] assms(2) by blast
qed

subsection \<open>Generated messages are accepted\<close>

text \<open>
  C40: what the generator builds without garbage, the sink applies. Its messages are written by
  its own JSON tags and read by the generated reader. The message it builds always comes out,
  and if it keeps within the sink's size limits it decodes to a command of exactly the transfers
  asked for, from different accounts of the pool, of 0.01 to 1000.00, linked into one chain that
  is closed by the last, each stamped with the time of the message; the record's key is the debit
  account of the first. And a message that seeds accounts of the pool, within the limits, decodes
  to exactly these accounts.
\<close>

theorem generated_message_is_accepted:
  assumes "lexer_reads L left rdy aft" and "lexer_stops L left" and "lexer_opens L rdy denotes"
    and "renders E clean denotes" and "\<forall>s \<in> range (NewUUID E). clean s = s"
    and "load_ok E D d cfg l code" and "0 < n" and "int n \<le> MaxEventsPerMessage (d_lim d)"
  shows "(\<exists>r t'. buildMessage E cfg n False t = (Some r, t') \<and>
    (\<forall>key body. r = Inr (key, body) \<and> int (length body) \<le> MaxMessageBytes (d_lim d) \<and>
        checkDepth body (MaxJSONDepth (d_lim d)) = None \<longrightarrow>
       (\<exists>ts out. Decode (generated_decode L D) d body =
            Inr \<lparr> Op = OpCreateTransfers, Transfers = out, Accounts = [], IDs = map w_ID ts \<rparr> \<and>
          length out = n \<and> length ts = n \<and> key = w_DebitAccountID (hd ts) \<and>
          (\<forall>i < n. wire_ok E cfg (unix_nano E t) (Suc i < n) (ts ! i) \<and>
             generated D l code (unix_nano E t) (Suc i < n) (ts ! i) (out ! i))))) \<and>
    (\<forall>batch body. batch \<noteq> [] \<and> set batch \<subseteq> set (rc_pool cfg) \<and>
        int (length batch) \<le> MaxEventsPerMessage (d_lim d) \<and> marshalJSON E (seed_message batch) = Inr body \<and>
        int (length body) \<le> MaxMessageBytes (d_lim d) \<and> checkDepth body (MaxJSONDepth (d_lim d)) = None \<longrightarrow>
       (\<exists>out. Decode (generated_decode L D) d body =
            Inr \<lparr> Op = OpCreateAccounts, Transfers = [], Accounts = out, IDs = batch \<rparr> \<and>
          list_all2 (seeded D l code) batch out))"
proof -
  note L = assms(6) [unfolded load_ok_def]
  note reads = marshalled_reads [OF assms(1-4), of _ _ D]
  obtain ts t1 where ts: "build_transfers E cfg (unix_nano E t) n (Suc t) = Some (ts, t1)" "length ts = n"
    "\<forall>i < n. wire_ok E cfg (unix_nano E t) (Suc i < n) (ts ! i)"
    using build_transfers_returns L by blast
  obtain out where out: "decodeTransfers D d (map as_json_transfer ts) =
       Inr \<lparr> Op = OpCreateTransfers, Transfers = out, Accounts = [], IDs = map w_ID ts \<rparr>" "length out = n"
     "\<forall>i < n. generated D l code (unix_nano E t) (Suc i < n) (ts ! i) (out ! i)"
    using decode_generated [OF assms(6) ts(2,3) assms(7,8)] by blast
  let ?m = "\<lparr> wm_Operation = ''create_transfers'', wm_Transfers = ts, wm_Accounts = [] \<rparr>"
  have "clean s = s" if "s \<in> set (transfer_texts w)" "w \<in> set ts" for s w
    using that ts(2,3) L wire_ok_texts [OF assms(4,5)] by (metis in_set_conv_nth)
  moreover have "clean ''create_transfers'' = ''create_transfers''" using renders_plain [OF assms(4)] plain_words by blast
  ultimately have texts: "\<forall>s \<in> set (message_texts ?m). clean s = s" by (auto simp: message_texts_def)
  have "Decode (generated_decode L D) d body =
      Inr \<lparr> Op = OpCreateTransfers, Transfers = out, Accounts = [], IDs = map w_ID ts \<rparr>"
    if "marshalJSON E ?m = Inr body" "int (length body) \<le> MaxMessageBytes (d_lim d)"
      "checkDepth body (MaxJSONDepth (d_lim d)) = None" for body
    using that reads [OF that(1) texts] out(1) by (simp add: Decode_def as_json_def OpCreateTransfers_def)
  moreover have "\<exists>out. Decode (generated_decode L D) d body =
        Inr \<lparr> Op = OpCreateAccounts, Transfers = [], Accounts = out, IDs = batch \<rparr> \<and> list_all2 (seeded D l code) batch out"
    if b: "batch \<noteq> []" "set batch \<subseteq> set (rc_pool cfg)" "int (length batch) \<le> MaxEventsPerMessage (d_lim d)"
      "marshalJSON E (seed_message batch) = Inr body" "int (length body) \<le> MaxMessageBytes (d_lim d)"
      "checkDepth body (MaxJSONDepth (d_lim d)) = None" for batch body
  proof -
    have ids: "set batch \<subseteq> range (NewUUID E)" using b(2) L by blast
    obtain accs where accs: "decodeAccounts D d (map (\<lambda>i. as_json_account (seed_account i)) batch) =
        Inr \<lparr> Op = OpCreateAccounts, Transfers = [], Accounts = accs, IDs = batch \<rparr>" "list_all2 (seeded D l code) batch accs"
      using decode_seeds [OF assms(6) ids b(1,3)] by blast
    have "unmarshal_message (generated_decode L D) body = Inr (Inr (as_json (seed_message batch)))"
      using reads [OF b(4)] seed_texts [OF assms(4,5) ids] by blast
    then show ?thesis
      using b(5,6) accs
      by (auto simp: Decode_def as_json_def seed_message_def seed_account_def o_def OpCreateTransfers_def OpCreateAccounts_def)
  qed
  ultimately show ?thesis using ts out by (auto simp: buildMessage_def split: sum.splits)
qed

subsection \<open>Witness\<close>

text \<open>The generator with the small writer of JSON in place of \<^verbatim>\<open>encoding/json\<close>.\<close>

definition writing_env :: load_env where
  "writing_env = demo_load_env\<lparr>json_Marshal := (\<lambda>j. Inr (json_text escaping_writer j))\<rparr>"

lemma writing_env_renders: "renders writing_env (\<lambda>s. s) scan_denotes"
  using scan_denotes_text by (auto simp: renders_def writing_env_def clean_json_ident)

lemma writing_env_load_ok:
  assumes "d_reg d = sample_registry"
  shows "load_ok writing_env demo_decode d demo_cfg \<lparr> ledger_ID = 1, Scale = 2 \<rparr> 1"
proof -
  have "7 \<noteq> zero_id word_u128" "5 \<noteq> zero_id word_u128"
    using ParseID_nonzero(1) [OF word_u128_ok raw_uuid_ok] demo_ids by blast+
  then have uuids: "uuids_ok writing_env demo_decode"
    unfolding uuids_ok_def writing_env_def demo_load_env_def demo_decode_def demo_id_def by simp metis
  have pool: "pool_ok writing_env demo_cfg"
    using demo_pool_ok by (simp add: pool_ok_def fair_draws_def writing_env_def)
  have "set (rc_pool demo_cfg) \<subseteq> range (NewUUID writing_env)"
  proof -
    have "NewUUID writing_env 0 = demo_id 7" "NewUUID writing_env 1 = demo_id 5"
      by (simp_all add: writing_env_def demo_load_env_def)
    then show ?thesis by (auto simp: demo_cfg_def simp del: One_nat_def) (metis rangeI)+
  qed
  with uuids pool demo_decode_ok show ?thesis
    by (simp add: load_ok_def assms sample_registry_def NewRegistry_def sample_config_def Ledger_def Code_def
        del: lookup_Inr)
qed

theorem generated_message_is_accepted_witness:
  "\<exists>key body t' cm. buildMessage writing_env demo_cfg 1 False 0 = (Some (Inr (key, body)), t') \<and>
     Decode (generated_decode scan_lexer demo_decode) (wide_decoder body) body = Inr cm \<and> length (Transfers cm) = 1"
proof -
  have "pool_ok writing_env demo_cfg" using demo_pool_ok by (simp add: pool_ok_def fair_draws_def writing_env_def)
  moreover have "encodes_all writing_env" by (simp add: encodes_all_def writing_env_def)
  ultimately obtain key body t' where b: "buildMessage writing_env demo_cfg 1 False 0 = (Some (Inr (key, body)), t')"
    using buildMessage_returns by blast
  have limits: "checkDepth body (MaxJSONDepth (d_lim (wide_decoder body))) = None"
    "int (length body) \<le> MaxMessageBytes (d_lim (wide_decoder body))" "int 1 \<le> MaxEventsPerMessage (d_lim (wide_decoder body))"
    "d_reg (wide_decoder body) = sample_registry"
    by (simp_all add: checkDepth_def wide_decoder_def depth_loop_short sample_config_def)
  obtain ts :: "wire_transfer list" and out where
    "Decode (generated_decode scan_lexer demo_decode) (wide_decoder body) body =
       Inr \<lparr> Op = OpCreateTransfers, Transfers = out, Accounts = [], IDs = map w_ID ts \<rparr>" "length out = 1"
    using generated_message_is_accepted [OF scan_lexer_reads scan_lexer_stops scan_lexer_opens writing_env_renders _
        writing_env_load_ok [OF limits(4)] zero_less_one limits(3), of 0] b limits(1,2) by auto
  with b show ?thesis by auto
qed

end
