(* ===== verification/Spec2Isabelle.thy ===== *)
theory Spec2Isabelle
  imports Config_Load Cdc_Job Replay Health Kafkatb Loadgen Metrics End_To_End Wire Loadgen_Wire
begin

text \<open>
  \<^bold>\<open>kafka-tb\<close> connects Kafka and TigerBeetle in both directions. The \<^emph>\<open>sink\<close> reads
  commands from Kafka topics and applies them to TigerBeetle; the \<^emph>\<open>CDC job\<close> publishes
  TigerBeetle's change events to a Kafka topic. Both run in one process, \<^verbatim>\<open>cmd/kafkatb\<close>.

  \<^bold>\<open>How the parts interact.\<close> \<^verbatim>\<open>config.Load\<close> reads and validates the configuration; the registry
  (\<^verbatim>\<open>model.NewRegistry\<close>) translates its names and numbers. The sink polls records, has each
  decoded (\<^verbatim>\<open>codec.For\<close>, \<^verbatim>\<open>jsonc.Decode\<close>) into a command, hands the commands of a partition to the
  batcher (\<^verbatim>\<open>tbx.Batcher\<close>), which packs commands of all partitions into requests, and gets each
  command's outcomes cut out of the reply (\<^verbatim>\<open>MapTransferResults\<close>). Results and dead letters go out
  through the emitter (\<^verbatim>\<open>emit.Emitter\<close>), and when they are acknowledged the record is marked in the
  offset tracker (\<^verbatim>\<open>sink.Offsets\<close>), which says how far a partition may be committed. The CDC job
  asks TigerBeetle for a window of events, encodes each as a record that claims the cursor before
  the window, publishes them, and then the last one claiming itself; after a restart
  \<^verbatim>\<open>cdc.Resume\<close> reads the highest claim from the tails of the topic.

  \<^bold>\<open>Theories and sources\<close> (under \<^verbatim>\<open>src/\<close>).
  \<^item> \<open>Prelude\<close>: Go's fixed-width conversions, decimal texts, error-or-value combinators, reachable
    states of a step relation.
  \<^item> \<open>TB_Api\<close>: what the TigerBeetle client and the UUID library are relied on for, as records of
    functions with their laws, and one concrete instance of each for the witnesses.
  \<^item> \<open>Config\<close>, \<open>Config_Load\<close>: \<^verbatim>\<open>internal/config/config.go\<close>, the data and then \<^verbatim>\<open>Load\<close> with its key
    check, address check and \<^verbatim>\<open>validate\<close>.
  \<^item> \<open>Registry\<close>, \<open>Amount\<close>, \<open>Ids\<close>: \<^verbatim>\<open>internal/model/registry.go\<close>, \<^verbatim>\<open>amount.go\<close>, \<^verbatim>\<open>id.go\<close>.
  \<^item> \<open>Outcome\<close>: \<^verbatim>\<open>internal/model/command.go\<close> and \<^verbatim>\<open>internal/tbx/outcome.go\<close>.
  \<^item> \<open>Batcher\<close>: \<^verbatim>\<open>internal/tbx/batcher.go\<close>, a step relation over the program counters of the
    submitters, the loop, the late watchers and the closers; a client call that runs and a failed
    one that waits to be retried are two positions of the loop, since only the second sees \<^verbatim>\<open>stop\<close>.
  \<^item> \<open>Decoder\<close>: \<^verbatim>\<open>internal/codec/jsonc/decoder.go\<close> and \<^verbatim>\<open>internal/codec/codec.go\<close>.
  \<^item> \<open>Emit\<close>: \<^verbatim>\<open>internal/emit/emitter.go\<close> and \<^verbatim>\<open>headers.go\<close>.
  \<^item> \<open>Offsets\<close>: \<^verbatim>\<open>internal/sink/offsets.go\<close>, with the tracker it refines.
  \<^item> \<open>Sink\<close>, \<open>Sink_Safety\<close>: \<^verbatim>\<open>internal/sink/sink.go\<close>; the second theory has the invariant of the run.
  \<^item> \<open>Cdc_Message\<close>, \<open>Cdc_Cursor\<close>, \<open>Cdc_Job\<close>: \<^verbatim>\<open>internal/cdc/message.go\<close>, \<^verbatim>\<open>cursor.go\<close>, \<^verbatim>\<open>job.go\<close>.
  \<^item> \<open>Replay\<close>: the CDC message read back by the sink's decoder.
  \<^item> \<open>Json_Lexer\<close>, \<open>Json_Text\<close>: what all code generated by easyjson is made of, over the library's
    lexer and string writer; \<open>Jsonc_Json\<close>, \<open>Cdc_Json\<close>, \<open>Emit_Json\<close>: \<^verbatim>\<open>decoder_easyjson.go\<close>,
    \<^verbatim>\<open>message_easyjson.go\<close>, \<^verbatim>\<open>emitter_easyjson.go\<close>, beside the sources they are generated from;
    \<open>Json_Scanner\<close>: a lexer and a writer that keep the laws.
  \<^item> \<open>Wire\<close>: the generated code in the decoder, the CDC encoder, the cursor and the emitter.
  \<^item> \<open>Health\<close>, \<open>Metrics\<close>: \<^verbatim>\<open>internal/obs/health.go\<close>, \<^verbatim>\<open>metrics.go\<close>; \<open>Kafkatb\<close>: \<^verbatim>\<open>cmd/kafkatb/main.go\<close>.
  \<^item> \<open>End_To_End\<close>: the sink with the decoder and the batcher in it.
  \<^item> \<open>Loadgen\<close>: \<^verbatim>\<open>cmd/loadgen/main.go\<close>, the generator of synthetic commands, with the JSON tags of its
    structs; \<open>Loadgen_Wire\<close>: its messages under the generated reader and the decoder.

  \<^bold>\<open>How state and effects are modelled.\<close> A struct is a record, a fixed-width unsigned integer a
  word, a Go \<^verbatim>\<open>int\<close> or duration an \<open>int\<close> with the wrap-around written where arithmetic is done on
  it. Strings and byte slices are lists of 8-bit characters. Errors are values of a sum type with
  a constructor per place that returns one; a panic is a value too. A \<^verbatim>\<open>range\<close> over a map takes the
  order the runtime chose as an argument, or the map is an association list, and the properties
  hold for every order. Where goroutines interleave (batcher, health probes) the component is a
  step relation and its properties hold in every reachable state. The sink and the CDC job ask
  their surroundings (clock, context, broker, TigerBeetle, waits) through functions of a time
  that every question advances, so each possible behaviour of the surroundings is an instance.

  \<^bold>\<open>What the lemmas show.\<close> Batcher: each command queued is answered once, with its own events'
  outcomes, in order, in well-formed requests, and shutdown ends once every client call returns,
  with a bound on the steps it takes; while a call hangs, so does the shutdown. Sink: a committed offset
  covers only records whose publications are acknowledged; a polled record is finished, rewound
  or left to the next start; a run over a partition ends and finishes a prefix of it. All together:
  a committed record is one TigerBeetle replied to, event by event, or poison. Offsets: the
  tracker refines a specification by the set of offsets seen and open. CDC: no record claims a
  checkpoint before every event up to it is in the topic, through crashes and restarts; the
  cursor read back is at or after the job's; every event gets there once the surroundings answer;
  only a disordered window stops the job. The cursor is read from exactly the last record of each
  partition: the consumer is a function of the offsets it is told to start at. Decoder: what is accepted is fit to be sent. Amounts,
  ids, flags, names, timeouts: both directions agree, and the fast paths compute what the
  big-integer paths do. JSON: a generated
  reader returns on every input and computes a table of fields, so that a misspelt name is poison
  at any depth; what is written reads back, a change event replays into the sink byte by byte,
  and what the load generator writes by its tags is accepted as the command it meant.
  Configuration: \<^verbatim>\<open>validate\<close> accepts exactly a specification, and a loaded
  configuration fits every part. Process: what is opened is closed, in order. The interfaces
  that two implementations share, or that one component offers another, are locales
  (\<open>flag_vocabulary\<close>, \<open>result_mapping\<close>, \<open>commit_tracker\<close>, \<open>event_kind\<close>, and \<open>generated_struct\<close> with
  its extension \<open>generated_codec\<close> for the nine structs with generated code), each interpreted on
  the model's own definitions.

  \<^bold>\<open>Bounds and fuel.\<close> \<^verbatim>\<open>runPartition\<close> and \<^verbatim>\<open>Run\<close> take fuel, one unit for a pass; a pass asks the
  clock at least once, so fuel above the time left to the poll's deadline is enough, which
  \<open>Sink_Safety.runPartition_finishes_a_prefix\<close> proves. \<^verbatim>\<open>run_job\<close> counts turns; the liveness
  property gives the number that is enough. \<^verbatim>\<open>ParseAmount\<close> is specified for texts below 2 GiB; at
  that size its length check wraps (\<open>Amount.ParseAmount_int32_truncation_panics\<close>). The delays
  of the batcher are specified for a maximum below 146 years. The loops of a generated reader are partial functions; they
  return because a lexer by the laws has less left after each pass. In the load generator a loop over
  random draws is a partial function; it returns when every index is drawn again some time.

  \<^bold>\<open>Not modelled.\<close> The lexer and the string writer of easyjson (parameters, with the laws
  \<open>lexer_reads\<close>, \<open>lexer_stops\<close>, \<open>lexer_opens\<close> and \<open>writer_ok\<close>; the component theories take a whole
  reader or writer as a parameter, and \<open>Wire\<close> puts the generated ones there), and how \<^verbatim>\<open>encoding/json\<close>
  renders a document in the load generator (\<open>renders\<close>); franz-go's consumer, of which the scan for the
  cursor relies on \<open>delivers\<close>; the Prometheus library, of which only the value
  of a collector is kept; the batcher's two observations of size and latency; log texts, kept as
  their kind where a property speaks of them; \<^verbatim>\<open>sink.NewKafkaClient\<close>, \<^verbatim>\<open>tbx.NewClient\<close> and other calls that only pass options to a library; command-line and YAML
  parsing. The partitions of a poll run on goroutines that share no record and no partition
  state; they are modelled one after the other.
\<close>

section \<open>Properties that span components\<close>

lemma Load_Inr:
  assumes "Load G ls cs path opts = Inr c"
  shows "validate ls cs c = None"
  using assms by (auto simp: Load_def Let_def split: sum.splits option.splits)

lemma Load_settings:
  assumes "Load G ls cs path opts = Inr c" and "enumerates ls (Ledgers c)" and "enumerates cs (Codes c)"
  shows "settings_ok c" and "tables_ok c" and "0 < Initial (Retry c)" and "Initial (Retry c) \<le> Max_delay (Retry c)"
    and "0 < ShutdownTimeout c"
  using Load_Inr [OF assms(1)] unfolding validate_None [OF assms(2,3)] by simp_all

text \<open>
  C15: a configuration that \<^verbatim>\<open>Load\<close> returns is one every part can run on as it is: the registry
  built from it, in whatever order its maps are visited, inverts its names and keeps scales in 0
  to 18; the sink and the CDC job use its bounds and delays without replacing any by a default;
  and the CDC window fits the 32-bit limit it is converted to.
\<close>

theorem loaded_configuration_fits_every_part:
  assumes "Load G ls cs path opts = Inr c" and "enumerates ls (Ledgers c)" and "enumerates cs (Codes c)"
    and "enumerates ls' (Ledgers c)" and "enumerates cs' (Codes c)"
  shows "registry_ok (NewRegistry c ls' cs') \<and>
     pollSize (New c) = PollSize (Sink c) \<and> inFlight (New c) = MaxInFlightPerPartition (Sink c) \<and>
     shutdownTimeout (New c) = ShutdownTimeout c \<and>
     NewJob (CDC c) (Retry c) = (CDC c, Retry c) \<and>
     uint (word_of_int (BatchSize (CDC c)) :: u32) = BatchSize (CDC c)"
proof -
  note ok = Load_settings [OF assms(1-3)]
  have "registry_ok (NewRegistry c ls' cs')"
    using ok(2) assms(4,5) by (intro NewRegistry_ok) (auto simp: tables_ok_def)
  moreover have "uint (word_of_int (BatchSize (CDC c)) :: u32) = BatchSize (CDC c)"
    using ok(1) by (simp add: settings_ok_def MaxCDCBatchSize_def uint_word_of_int)
  moreover have "NewJob (CDC c) (Retry c) = (CDC c, Retry c)"
    using ok by (auto simp: NewJob_def settings_ok_def Let_def)
  ultimately show ?thesis using ok by (simp add: New_def Let_def settings_ok_def)
qed

text \<open>
  C16: whatever \<^verbatim>\<open>Decode\<close> accepts under a loaded configuration, the batcher under the same
  configuration takes: the command is neither empty nor longer than a batch, so no well-formed
  message is dead-lettered for its size, and its ids are in step with its events.
\<close>

theorem decoded_command_is_taken_by_the_batcher:
  assumes "Load G ls cs path opts = Inr c" and "enumerates ls (Ledgers c)" and "enumerates cs (Codes c)"
    and "libs_ok D" and "Decode D \<lparr> d_reg = r, d_lim = Limits c \<rparr> payload = Inr cm" and "b_cfg P = Batcher c"
  shows "submit_action P cm = Entered cm \<and> ids_match cm"
proof -
  have "MaxEventsPerMessage (Limits c) \<le> B_MaxBatchSize (Batcher c)"
    using Load_settings(1) [OF assms(1-3)] by (simp add: settings_ok_def)
  with Decode_sound [OF assms(4,5)] assms(6) show ?thesis
    by (auto simp: submit_action_def ids_match_def transfers_of_message_def accounts_of_message_def
        Len_def OpCreateTransfers_def OpCreateAccounts_def)
qed

text \<open>A file, and what the parsers make of it.\<close>

definition demo_load :: "nat load_lib" where
  "demo_load = \<lparr> ReadFile = (\<lambda>_. Inr []), yaml_tree = (\<lambda>_. Inr []), viper_config = (\<lambda>_ _ _. Inr sample_config),
     yaml_names = (\<lambda>_. Inr (Ledgers sample_config, Codes sample_config)) \<rparr>"

lemma demo_loads: "Load demo_load [''USD'', ''BTC''] [''payment''] ''kafkatb.yaml'' [] = Inr sample_config"
proof -
  have "validate [''USD'', ''BTC''] [''payment''] sample_config = None"
    unfolding validate_None [OF sample_enumerates] using sample_ok by simp
  moreover have "clamp_in_flight sample_config = sample_config"
    by (simp add: clamp_in_flight_def sample_config_def)
  moreover have "sample_config\<lparr>Ledgers := Ledgers sample_config, Codes := Codes sample_config\<rparr> = sample_config" by simp
  ultimately show ?thesis by (simp add: Load_def demo_load_def config_type_def)
qed

theorem loaded_configuration_fits_every_part_witness:
  "registry_ok (NewRegistry sample_config [''BTC'', ''USD''] [''payment'']) \<and> inFlight (New sample_config) = 1000"
proof -
  have "enumerates [''BTC'', ''USD''] (Ledgers sample_config)" by (auto simp: enumerates_def sample_config_def)
  from loaded_configuration_fits_every_part [OF demo_loads sample_enumerates this sample_enumerates(2)]
  show ?thesis by (simp add: sample_config_def)
qed

theorem decoded_command_is_taken_by_the_batcher_witness:
  "\<exists>cm. Decode demo_decode demo_decoder ''{}'' = Inr cm \<and>
     submit_action (demo_params\<lparr>b_cfg := Batcher sample_config\<rparr>) cm = Entered cm"
proof -
  obtain cm where cm: "Decode demo_decode demo_decoder ''{}'' = Inr cm" using demo_decodes by blast
  have "demo_decoder = \<lparr> d_reg = sample_registry, d_lim = Limits sample_config \<rparr>" by (simp add: demo_decoder_def)
  with decoded_command_is_taken_by_the_batcher [OF demo_loads sample_enumerates demo_decode_ok, of sample_registry "''{}''" cm
      "demo_params\<lparr>b_cfg := Batcher sample_config\<rparr>"] cm
  show ?thesis by simp
qed

end
